(* ===== verification/Prelude.thy ===== *)
theory Prelude
  imports Main "HOL-Library.AList" "HOL-Library.Word"
begin

text \<open>
  Shared vocabulary of the development. A JavaScript \<^verbatim>\<open>Map\<close> (and a \<^verbatim>\<open>Set\<close>, as a map
  to unit) is an association list in insertion order with distinct keys: \<open>AList.update\<close> keeps
  the slot of a key that is present and appends a new one, as \<^verbatim>\<open>Map.prototype.set\<close> does,
  \<open>AList.delete\<close> is \<^verbatim>\<open>Map.prototype.delete\<close>, and \<open>map_of\<close> is
  \<^verbatim>\<open>Map.prototype.get\<close>. The generic lemmas on these lists, on sums over them and on the
  delete-before-set insertion with a size bound that two maps of the program share are here,
  together with the collections the component proofs draw from.
\<close>

named_theorems jsmap_simps \<open>lookups, key sets and distinctness after a map operation\<close>
named_theorems wf_intros \<open>preservation of a component's well-formedness by its operations\<close>
named_theorems frame_simps \<open>what an operation leaves unchanged\<close>

text \<open>The 64-bit hash of a key, as the addon answers it.\<close>

type_synonym hash = nat

type_synonym ('k, 'v) jsmap = "('k \<times> 'v) list"

abbreviation jskeys :: "('k, 'v) jsmap \<Rightarrow> 'k list" where
  "jskeys m \<equiv> List.map fst m"

abbreviation wf_map :: "('k, 'v) jsmap \<Rightarrow> bool" where
  "wf_map m \<equiv> distinct (jskeys m)"

section \<open>Insertion-ordered maps\<close>

lemma map_of_update [jsmap_simps, simp]:
  "map_of (AList.update k v m) x = (if x = k then Some v else map_of m x)"
  by (simp add: update_conv')

lemma map_of_delete' [jsmap_simps, simp]:
  "map_of (AList.delete k m) x = (if x = k then None else map_of m x)"
  by (simp add: delete_conv')

lemma wf_map_update [wf_intros, simp]: "wf_map m \<Longrightarrow> wf_map (AList.update k v m)"
  by (rule distinct_update)

lemma wf_map_delete [wf_intros, simp]: "wf_map m \<Longrightarrow> wf_map (AList.delete k m)"
  by (rule distinct_delete)

lemma jskeys_delete [jsmap_simps]: "jskeys (AList.delete k m) = removeAll k (jskeys m)"
  by (rule delete_keys)

lemma set_jskeys_delete [jsmap_simps, simp]: "set (jskeys (AList.delete k m)) = set (jskeys m) - {k}"
  by (simp only: delete_keys set_removeAll)

lemma set_jskeys_update [jsmap_simps, simp]: "fst ` set (AList.update k v m) = insert k (fst ` set m)"
  using dom_update [of k v m] by simp

lemma update_absent: "k \<notin> fst ` set m \<Longrightarrow> AList.update k v m = m @ [(k, v)]"
  by (induction m) auto

lemma delete_absent: "k \<notin> fst ` set m \<Longrightarrow> AList.delete k m = m"
  by (induction m) auto

lemma length_delete_present:
  "wf_map m \<Longrightarrow> k \<in> fst ` set m \<Longrightarrow> length (AList.delete k m) = length m - 1"
proof (induction m)
  case Nil
  then show ?case by simp
next
  case (Cons a m)
  show ?case
  proof (cases "fst a = k")
    case True
    with Cons.prems have "k \<notin> fst ` set m" by auto
    then show ?thesis using True by (cases a) (simp add: delete_absent)
  next
    case False
    with Cons.prems have "k \<in> fst ` set m" "wf_map m" by auto
    then have "length (AList.delete k m) = length m - 1" using Cons.IH by blast
    moreover have "m \<noteq> []" using \<open>k \<in> fst ` set m\<close> by auto
    ultimately show ?thesis using False by (cases a) auto
  qed
qed

lemma length_delete_le: "length (AList.delete k m) \<le> length m"
  by (induction m) auto

lemma map_of_Some_mem: "map_of m k = Some v \<Longrightarrow> k \<in> fst ` set m"
  by (metis map_of_eq_None_iff option.distinct(1))

lemma map_of_tl:
  "wf_map m \<Longrightarrow> map_of (tl m) x = (if m \<noteq> [] \<and> x = fst (hd m) then None else map_of m x)"
  by (cases m) (auto simp: map_of_eq_None_iff)

lemma wf_map_tl [wf_intros]: "wf_map m \<Longrightarrow> wf_map (tl m)"
  by (cases m) auto

section \<open>Totals over the entries\<close>

text \<open>
  \<open>wsum f m\<close> is the total of \<open>f\<close> over the values, in any commutative monoid: byte counters,
  numbers of operations and the multiset of unsettled promises are such totals.
\<close>

definition wsum :: "('v \<Rightarrow> 'b::comm_monoid_add) \<Rightarrow> ('k, 'v) jsmap \<Rightarrow> 'b" where
  "wsum f m = sum_list (List.map (\<lambda>(k, v). f v) m)"

lemma wsum_Nil [simp]: "wsum f [] = 0"
  by (simp add: wsum_def)

lemma wsum_Cons [simp]: "wsum f ((k, v) # m) = f v + wsum f m"
  by (simp add: wsum_def)

lemma wsum_append [simp]: "wsum f (m @ m') = wsum f m + wsum f m'"
  by (simp add: wsum_def)

lemma wsum_delete:
  "wf_map m \<Longrightarrow> wsum f (AList.delete k m) + (case map_of m k of None \<Rightarrow> 0 | Some v \<Rightarrow> f v) = wsum f m"
proof (induction m)
  case Nil
  then show ?case by simp
next
  case (Cons a m)
  obtain k' v' where a: "a = (k', v')" by force
  show ?case
  proof (cases "k' = k")
    case True
    with Cons.prems a have "k \<notin> fst ` set m" by auto
    then show ?thesis using True a by (simp add: delete_absent add.commute)
  next
    case False
    then show ?thesis using Cons a by (simp add: add.assoc)
  qed
qed

lemma wsum_update:
  "wf_map m \<Longrightarrow>
   wsum f (AList.update k v m) + (case map_of m k of None \<Rightarrow> 0 | Some w \<Rightarrow> f w) = wsum f m + f v"
proof (induction m)
  case Nil
  then show ?case by (simp add: add.commute)
next
  case (Cons a m)
  obtain k' v' where a: "a = (k', v')" by force
  show ?case
  proof (cases "k' = k")
    case True
    then show ?thesis using a by (simp add: ac_simps)
  next
    case False
    then show ?thesis using Cons a by (simp add: add.assoc)
  qed
qed

lemma wsum_mem_le: "(k, v) \<in> set m \<Longrightarrow> (\<And>v. 0 \<le> f v) \<Longrightarrow> f v \<le> (wsum f m :: int)"
proof (induction m)
  case (Cons a m)
  have "0 \<le> wsum f m" using Cons.prems(2) by (induction m) (auto split: prod.splits)
  then show ?case using Cons by (cases a) (auto intro: add_increasing)
qed simp

lemma wsum_nonneg: "(\<And>v. 0 \<le> f v) \<Longrightarrow> 0 \<le> (wsum f m :: int)"
  by (induction m) (auto split: prod.splits)

lemma wsum_zero_iff: "(\<And>v. 0 \<le> f v) \<Longrightarrow> (wsum f m :: int) = 0 \<longleftrightarrow> (\<forall>(k, v) \<in> set m. f v = 0)"
proof (induction m)
  case (Cons a m)
  have "0 \<le> wsum f m" by (rule wsum_nonneg) (rule Cons.prems)
  then show ?case using Cons by (cases a) (auto simp: add_nonneg_eq_0_iff)
qed simp

section \<open>Insertion at the back, with a bound that evicts the oldest\<close>

text \<open>
  \<^verbatim>\<open>PendingMarks.mark\<close> and \<^verbatim>\<open>#noteDeleted\<close> both delete the key before setting it, so
  that it moves to the back of the insertion order, and drop the oldest entry when the map is
  at its bound. \<open>bounded_push\<close> is that insertion; \<open>bounded_victim\<close> is the entry it drops.
\<close>

definition bounded_victim :: "nat \<Rightarrow> 'k \<Rightarrow> ('k, 'v) jsmap \<Rightarrow> ('k \<times> 'v) option" where
  "bounded_victim bound k m =
     (let m1 = AList.delete k m
      in if bound \<le> length m1 then (case m1 of [] \<Rightarrow> None | p # _ \<Rightarrow> Some p) else None)"

definition bounded_push :: "nat \<Rightarrow> 'k \<Rightarrow> 'v \<Rightarrow> ('k, 'v) jsmap \<Rightarrow> ('k, 'v) jsmap" where
  "bounded_push bound k v m =
     (let m1 = AList.delete k m;
          m2 = (if bound \<le> length m1 then tl m1 else m1)
      in AList.update k v m2)"

lemma bounded_push_wf [wf_intros, simp]: "wf_map m \<Longrightarrow> wf_map (bounded_push bound k v m)"
  by (auto simp: bounded_push_def Let_def intro!: distinct_update wf_map_tl distinct_delete)

lemma bounded_push_back:
  "bounded_push bound k v m =
     (if bound \<le> length (AList.delete k m) then tl (AList.delete k m) else AList.delete k m) @ [(k, v)]"
proof -
  have "k \<notin> fst ` set (AList.delete k m)"
    using set_jskeys_delete [of k m] by simp
  moreover from this have "k \<notin> fst ` set (tl (AList.delete k m))"
    by (cases "AList.delete k m") auto
  ultimately show ?thesis by (simp add: bounded_push_def Let_def update_absent)
qed

lemma bounded_push_length:
  assumes "length m \<le> bound" "0 < bound"
  shows "length (bounded_push bound k v m) \<le> bound"
  using assms length_delete_le [of k m] by (auto simp: bounded_push_back)

lemma bounded_push_lookup [jsmap_simps]:
  assumes "wf_map m"
  shows "map_of (bounded_push bound k v m) x =
           (if x = k then Some v
            else if map_option fst (bounded_victim bound k m) = Some x then None
            else map_of m x)"
proof -
  let ?d = "AList.delete k m"
  have d: "wf_map ?d" using assms by simp
  show ?thesis
  proof (cases "bound \<le> length ?d \<and> ?d \<noteq> []")
    case True
    then obtain p r where p: "?d = p # r" by (cases ?d) auto
    have tl: "map_of (tl ?d) x = (if x = fst p then None else map_of ?d x)"
      using map_of_tl [OF d, of x] p by simp
    have "bounded_push bound k v m = AList.update k v (tl ?d)"
      using True by (simp add: bounded_push_def)
    moreover have "bounded_victim bound k m = Some p"
      using True p by (simp add: bounded_victim_def)
    ultimately show ?thesis using tl by (simp del: delete_simps)
  next
    case False
    then have "bounded_push bound k v m = AList.update k v ?d"
      by (auto simp: bounded_push_def)
    moreover have "bounded_victim bound k m = None"
      using False by (auto simp: bounded_victim_def split: list.splits)
    ultimately show ?thesis by simp
  qed
qed

lemma bounded_victim_mem:
  assumes "wf_map m" "bounded_victim bound k m = Some (x, w)"
  shows "x \<noteq> k \<and> map_of m x = Some w"
proof -
  obtain r where r: "AList.delete k m = (x, w) # r"
    using assms(2) by (auto simp: bounded_victim_def Let_def split: if_splits list.splits)
  then have "map_of (AList.delete k m) x = Some w" by simp
  then show ?thesis by (simp split: if_splits)
qed

section \<open>Invariants of step relations\<close>

text \<open>
  A property of the states of a machine that its starting states have and its steps keep; and a
  second one whose steps may use the first.
\<close>

locale step_invariant =
  fixes step :: "'s \<Rightarrow> 's \<Rightarrow> bool"
    and start :: "'s \<Rightarrow> bool"
    and inv :: "'s \<Rightarrow> bool"
  assumes inv_start: "start s \<Longrightarrow> inv s"
    and inv_step: "step s t \<Longrightarrow> inv s \<Longrightarrow> inv t"
begin

lemma inv_runs: "step\<^sup>*\<^sup>* s t \<Longrightarrow> inv s \<Longrightarrow> inv t"
  by (induction rule: rtranclp_induct) (auto intro: inv_step)

lemma inv_reached: "start s \<Longrightarrow> step\<^sup>*\<^sup>* s t \<Longrightarrow> inv t"
  using inv_runs inv_start by blast

end

locale strengthened_invariant = step_invariant +
  fixes more :: "'s \<Rightarrow> bool"
  assumes more_start: "start s \<Longrightarrow> more s"
    and more_step: "step s t \<Longrightarrow> inv s \<Longrightarrow> more s \<Longrightarrow> more t"

sublocale strengthened_invariant \<subseteq> both: step_invariant step start "\<lambda>s. inv s \<and> more s"
  by unfold_locales (auto intro: inv_start inv_step more_start more_step)

end
