(* ===== verification/JsText.thy ===== *)
theory JsText
  imports Prelude
begin

text \<open>
  Text and values at the boundary of the cache (\<^verbatim>\<open>src/src/turbokv.js\<close>, lines 16 to 52 and
  205 to 262). A JavaScript string is a list of 16-bit code units. \<open>hasLoneSurrogate\<close> and
  \<open>foldLoneSurrogates\<close> are the two scanners of that name; \<open>utf8\<close> is the encoding Node uses for
  \<^verbatim>\<open>Buffer.byteLength\<close> and for the strings handed to the addon, in which a lone
  surrogate becomes U+FFFD. The results: folding is the identity exactly on the strings the
  key check accepts, two strings have the same bytes exactly when they fold to the same string
  (so two accepted keys never share their bytes), and \<open>sameStored\<close> decides equality of the
  stored forms.
\<close>

type_synonym cunit = "16 word"
type_synonym jsstr = "cunit list"

text \<open>The text of a literal of the source.\<close>

definition ascii :: "string \<Rightarrow> jsstr" where
  "ascii s = List.map of_char s"

section \<open>Surrogates\<close>

text \<open>
  \<open>plainUnit c\<close> is the test \<^verbatim>\<open>c < 0xD800 || c > 0xDFFF\<close> of both loops, and \<open>lowAt s\<close> the test
  \<^verbatim>\<open>n >= 0xDC00 && n <= 0xDFFF\<close> on \<^verbatim>\<open>n = s.charCodeAt(i + 1)\<close>, where \<open>s\<close> is what follows
  index \<^verbatim>\<open>i\<close>: past the end \<^verbatim>\<open>charCodeAt\<close> is NaN and both comparisons are false.
\<close>

definition plainUnit :: "cunit \<Rightarrow> bool" where
  "plainUnit c \<longleftrightarrow> c < 0xD800 \<or> c > 0xDFFF"

definition lowAt :: "jsstr \<Rightarrow> bool" where
  "lowAt s = (case s of [] \<Rightarrow> False | n # _ \<Rightarrow> 0xDC00 \<le> n \<and> n \<le> 0xDFFF)"

fun hasLoneSurrogate :: "jsstr \<Rightarrow> bool" where
  "hasLoneSurrogate [] = False"
| "hasLoneSurrogate (c # s) =
     (if plainUnit c then hasLoneSurrogate s
      else if c > 0xDBFF then True
      else if \<not> lowAt s then True
      else hasLoneSurrogate (tl s))"

text \<open>The loop of \<^verbatim>\<open>foldLoneSurrogates\<close>, after its early return.\<close>

fun fold_loop :: "jsstr \<Rightarrow> jsstr" where
  "fold_loop [] = []"
| "fold_loop (c # s) =
     (if plainUnit c then c # fold_loop s
      else if c > 0xDBFF then 0xFFFD # fold_loop s
      else if lowAt s then c # hd s # fold_loop (tl s)
      else 0xFFFD # fold_loop s)"

definition foldLoneSurrogates :: "jsstr \<Rightarrow> jsstr" where
  "foldLoneSurrogates s = (if \<not> hasLoneSurrogate s then s else fold_loop s)"

lemma plain_fffd [simp]: "plainUnit 0xFFFD"
  by (simp add: plainUnit_def)

lemma lowAt_simps [simp]: "\<not> lowAt []" "lowAt (n # s) \<longleftrightarrow> 0xDC00 \<le> n \<and> n \<le> 0xDFFF"
  by (simp_all add: lowAt_def)

lemma lowAt_hd_tl: "lowAt s \<Longrightarrow> s = hd s # tl s"
  by (cases s) auto

lemma lowAt_hd: "lowAt s \<Longrightarrow> 0xDC00 \<le> hd s" "lowAt s \<Longrightarrow> hd s \<le> 0xDFFF"
  by (cases s; simp)+

lemma fold_loop_id: "\<not> hasLoneSurrogate s \<Longrightarrow> fold_loop s = s"
  by (induction s rule: fold_loop.induct) (auto simp: lowAt_hd_tl [symmetric] split: if_splits)

lemma fold_eq_loop: "foldLoneSurrogates s = fold_loop s"
  by (simp add: foldLoneSurrogates_def fold_loop_id)

lemma fold_loop_clean: "\<not> hasLoneSurrogate (fold_loop s)"
  by (induction s rule: fold_loop.induct) (auto dest: lowAt_hd)

lemma fold_loop_idem [simp]: "fold_loop (fold_loop s) = fold_loop s"
  by (rule fold_loop_id [OF fold_loop_clean])

lemma fold_loop_id_iff: "fold_loop s = s \<longleftrightarrow> \<not> hasLoneSurrogate s"
  using fold_loop_clean [of s] fold_loop_id [of s] by metis

section \<open>UTF-8\<close>

text \<open>
  Code points of a string, a lone surrogate read as U+FFFD, and their UTF-8 bytes
  (\<^verbatim>\<open>napi_get_value_string_utf8\<close> and \<^verbatim>\<open>Buffer.byteLength\<close> of the runtime).
\<close>

fun codepoints :: "jsstr \<Rightarrow> nat list" where
  "codepoints [] = []"
| "codepoints (c # s) =
     (if plainUnit c then unat c # codepoints s
      else if c > 0xDBFF then 0xFFFD # codepoints s
      else if lowAt s
           then (0x10000 + (unat c - 0xD800) * 1024 + (unat (hd s) - 0xDC00)) # codepoints (tl s)
      else 0xFFFD # codepoints s)"

definition utf8_cp :: "nat \<Rightarrow> nat list" where
  "utf8_cp c =
     (if c < 0x80 then [c]
      else if c < 0x800 then [0xC0 + c div 64, 0x80 + c mod 64]
      else if c < 0x10000 then [0xE0 + c div 4096, 0x80 + c div 64 mod 64, 0x80 + c mod 64]
      else [0xF0 + c div 262144, 0x80 + c div 4096 mod 64, 0x80 + c div 64 mod 64, 0x80 + c mod 64])"

definition utf8 :: "jsstr \<Rightarrow> nat list" where
  "utf8 s = concat (List.map utf8_cp (codepoints s))"

definition byteLength :: "jsstr \<Rightarrow> nat" where
  "byteLength s = length (utf8 s)"

lemma codepoints_fold_loop: "codepoints (fold_loop s) = codepoints s"
  by (induction s rule: fold_loop.induct) (auto dest: lowAt_hd)

lemma unat_unit: "unat (c :: cunit) < 0x10000"
  using unsigned_less [of c, where ?'a = nat] by simp

text \<open>UTF-8 is a prefix code: the bytes of a code point determine it and where it ends.\<close>

lemma div_mod_eqI: "a div k = b div k \<Longrightarrow> a mod k = b mod k \<Longrightarrow> a = (b::nat)"
  by (metis div_mult_mod_eq)

lemma div_mod_eq3:
  assumes "a div 4096 = b div 4096" "a div 64 mod 64 = b div 64 mod 64" "a mod 64 = b mod 64"
  shows "a = (b::nat)"
proof -
  have "a div 64 div 64 = b div 64 div 64"
    using assms(1) by (simp add: div_mult2_eq [symmetric])
  then have "a div 64 = b div 64" using assms(2) by (rule div_mod_eqI)
  then show ?thesis using assms(3) by (rule div_mod_eqI)
qed

lemma div_mod_eq4:
  assumes "a div 262144 = b div 262144" "a div 4096 mod 64 = b div 4096 mod 64"
    "a div 64 mod 64 = b div 64 mod 64" "a mod 64 = b mod 64"
  shows "a = (b::nat)"
proof -
  have "a div 4096 div 64 = b div 4096 div 64"
    using assms(1) by (simp add: div_mult2_eq [symmetric])
  then have "a div 4096 = b div 4096" using assms(2) by (rule div_mod_eqI)
  then show ?thesis using assms(3,4) by (rule div_mod_eq3)
qed

lemma utf8_cp_prefix:
  assumes "c < 0x110000" "d < 0x110000" "utf8_cp c @ xs = utf8_cp d @ ys"
  shows "c = d \<and> xs = ys"
proof -
  consider "c < 0x80" | "0x80 \<le> c \<and> c < 0x800" | "0x800 \<le> c \<and> c < 0x10000" | "0x10000 \<le> c" by linarith
  then show ?thesis
  proof cases
    case 1 then show ?thesis using assms by (auto simp: utf8_cp_def split: if_splits)
  next
    case 2 
    have "c div 64 < 0x20" using 2 by auto
    then show ?thesis using 2 assms by (auto simp: utf8_cp_def split: if_splits intro: div_mod_eqI)
  next
    case 3
    have "c div 4096 < 0x10" using 3 by auto
    moreover have "d < 0x800 \<Longrightarrow> d div 64 < 0x20" by auto
    ultimately show ?thesis using 3 assms by (auto simp: utf8_cp_def split: if_splits intro: div_mod_eq3)
  next
    case 4 
    have "d < 0x800 \<Longrightarrow> d div 64 < 0x20" by auto
    moreover have "d < 0x10000 \<Longrightarrow> d div 4096 < 0x10" by auto
    ultimately show ?thesis using 4 assms by (auto simp: utf8_cp_def split: if_splits intro: div_mod_eq4)
  qed
qed

lemma utf8_cp_nonempty: "utf8_cp c \<noteq> []"
  by (simp add: utf8_cp_def)

lemma utf8_cps_inj:
  "\<forall>p \<in> set ps. p < 0x110000 \<Longrightarrow> \<forall>q \<in> set qs. q < 0x110000 \<Longrightarrow>
   concat (List.map utf8_cp ps) = concat (List.map utf8_cp qs) \<Longrightarrow> ps = qs"
proof (induction ps arbitrary: qs)
  case Nil
  then show ?case by (cases qs) (auto simp: utf8_cp_nonempty)
next
  case (Cons p ps)
  have "concat (List.map utf8_cp qs) \<noteq> []"
    using Cons.prems(3) utf8_cp_nonempty [of p] by (metis append_is_Nil_conv concat.simps(2) list.simps(9))
  then obtain q qs' where q: "qs = q # qs'" by (metis concat.simps(1) list.exhaust list.map_disc_iff)
  have "p = q \<and> concat (List.map utf8_cp ps) = concat (List.map utf8_cp qs')"
    using Cons.prems q by (intro utf8_cp_prefix) auto
  then show ?case using Cons.IH [of qs'] Cons.prems q by simp
qed

section \<open>Code units back from code points\<close>

definition units :: "nat \<Rightarrow> jsstr" where
  "units p = (if p < 0x10000 then [of_nat p]
              else [of_nat (0xD800 + (p - 0x10000) div 1024), of_nat (0xDC00 + (p - 0x10000) mod 1024)])"

lemma units_pair:
  assumes "\<not> plainUnit c" "\<not> c > 0xDBFF" "0xDC00 \<le> n" "n \<le> 0xDFFF"
  shows "units (0x10000 + (unat c - 0xD800) * 1024 + (unat n - 0xDC00)) = [c, n]"
proof -
  have c: "0xD800 \<le> unat c" using assms(1) by (simp add: plainUnit_def not_less word_le_nat_alt)
  have n: "0xDC00 \<le> unat n" "unat n \<le> 0xDFFF" using assms(3,4) by (simp_all add: word_le_nat_alt)
  have "unat n - 0xDC00 < 1024" using n by linarith
  then have d: "((unat c - 0xD800) * 1024 + (unat n - 0xDC00)) div 1024 = unat c - 0xD800"
    and m: "((unat c - 0xD800) * 1024 + (unat n - 0xDC00)) mod 1024 = unat n - 0xDC00"
    by (simp_all add: add.commute)
  have "units (0x10000 + (unat c - 0xD800) * 1024 + (unat n - 0xDC00))
        = [of_nat (0xD800 + (unat c - 0xD800)), of_nat (0xDC00 + (unat n - 0xDC00))]"
    using d m by (simp add: units_def add.assoc)
  also have "\<dots> = [c, n]" using c n by (simp del: of_nat_add)
  finally show ?thesis .
qed

lemma units_bmp [simp]: "units (unat c) = [c]"
  using unat_unit [of c] by (simp add: units_def)

lemma units_fffd [simp]: "units 65533 = [0xFFFD]"
  by (simp add: units_def)

lemma units_codepoints: "concat (List.map units (codepoints s)) = fold_loop s"
proof (induction s rule: fold_loop.induct)
  case (2 c s)
  consider (plain) "plainUnit c" | (low) "\<not> plainUnit c" "c > 0xDBFF"
    | (pair) "\<not> plainUnit c" "\<not> c > 0xDBFF" "lowAt s" | (high) "\<not> plainUnit c" "\<not> c > 0xDBFF" "\<not> lowAt s"
    by blast
  then show ?case
  proof cases
    case plain
    then show ?thesis using 2 by simp
  next
    case low
    then show ?thesis using 2 by simp
  next
    case pair
    then have "units (0x10000 + (unat c - 0xD800) * 1024 + (unat (hd s) - 0xDC00)) = [c, hd s]"
      by (intro units_pair lowAt_hd)
    then show ?thesis using pair 2 by simp
  next
    case high
    then show ?thesis using 2 by simp
  qed
qed simp

lemma codepoints_bound: "\<forall>p \<in> set (codepoints s). p < 0x110000"
proof (induction s rule: codepoints.induct)
  case (2 c s)
  have c: "unat c < 0x110000" using unat_unit [of c] by linarith
  have pair: "0x10000 + (unat c - 0xD800) * 1024 + (unat (hd s) - 0xDC00) < 0x110000"
    if "\<not> c > 0xDBFF" "lowAt s"
  proof -
    have "unat c \<le> 0xDBFF" using that(1) by (simp add: not_less word_le_nat_alt)
    moreover have "unat (hd s) \<le> 0xDFFF" using lowAt_hd(2) [OF that(2)] by (simp add: word_le_nat_alt)
    ultimately show ?thesis by linarith
  qed
  show ?case using 2 c pair by (simp split: if_split del: word_greater_zero_iff)
qed simp

lemma utf8_eq_iff: "utf8 s = utf8 t \<longleftrightarrow> fold_loop s = fold_loop t"
proof
  assume "utf8 s = utf8 t"
  then have "codepoints s = codepoints t"
    unfolding utf8_def by (rule utf8_cps_inj [OF codepoints_bound codepoints_bound])
  then show "fold_loop s = fold_loop t" by (metis units_codepoints)
next
  assume "fold_loop s = fold_loop t"
  then show "utf8 s = utf8 t" unfolding utf8_def by (metis codepoints_fold_loop)
qed


lemma utf8_inj_clean:
  "\<not> hasLoneSurrogate s \<Longrightarrow> \<not> hasLoneSurrogate t \<Longrightarrow> utf8 s = utf8 t \<longleftrightarrow> s = t"
  by (simp add: utf8_eq_iff fold_loop_id)

lemma byteLength_Nil [simp]: "byteLength [] = 0"
  by (simp add: byteLength_def utf8_def)

section \<open>Values\<close>

text \<open>
  The JavaScript values the cache tells apart. A number is its 64 IEEE bits; a Buffer, a typed
  array, an ArrayBuffer or a DataView is the bytes it covers; objects, functions and symbols are
  opaque identities.
\<close>

type_synonym bytes = "8 word list"

datatype jsval =
    VUndef
  | VNull
  | VBool bool
  | VNum "64 word"
  | VBigInt int
  | VStr jsstr
  | VBuf bytes
  | VView bytes
  | VObj nat
  | VFun nat
  | VSym nat

definition isStringKey :: "jsval \<Rightarrow> bool" where
  "isStringKey k = (case k of VStr _ \<Rightarrow> True | _ \<Rightarrow> False)"

definition isBuffer :: "jsval \<Rightarrow> bool" where
  "isBuffer v = (case v of VBuf _ \<Rightarrow> True | _ \<Rightarrow> False)"

definition isBinary :: "jsval \<Rightarrow> bool" where
  "isBinary v = (case v of VBuf _ \<Rightarrow> True | VView _ \<Rightarrow> True | _ \<Rightarrow> False)"

text \<open>Numbers: NaN, the two zeros, and \<^verbatim>\<open>===\<close>.\<close>

definition numNaN :: "64 word \<Rightarrow> bool" where
  "numNaN w \<longleftrightarrow> and w 0x7FF0000000000000 = 0x7FF0000000000000 \<and> and w 0x000FFFFFFFFFFFFF \<noteq> 0"

definition numZero :: "64 word \<Rightarrow> bool" where
  "numZero w \<longleftrightarrow> and w 0x7FFFFFFFFFFFFFFF = 0"

definition numEq :: "64 word \<Rightarrow> 64 word \<Rightarrow> bool" where
  "numEq a b \<longleftrightarrow> \<not> numNaN a \<and> \<not> numNaN b \<and> (a = b \<or> numZero a \<and> numZero b)"

fun strictEq :: "jsval \<Rightarrow> jsval \<Rightarrow> bool" where
  "strictEq (VNum a) (VNum b) = numEq a b"
| "strictEq a b = (a = b)"

text \<open>
  \<^verbatim>\<open>encodedBytes\<close>: the wire size of an encoded value. A bytes-mode number, boolean, bigint or
  null is charged 8.
\<close>

definition encodedBytes :: "jsval \<Rightarrow> nat" where
  "encodedBytes enc =
     (case enc of VStr s \<Rightarrow> byteLength s | VBuf b \<Rightarrow> length b | _ \<Rightarrow> 8)"

text \<open>
  \<^verbatim>\<open>sameStored\<close>: the Buffer test comes first and compares by content, so \<open>strictEq\<close> is reached
  with no Buffer on either side (two distinct Buffer objects would be different under
  \<^verbatim>\<open>===\<close>).
\<close>

definition sameStored :: "jsval \<Rightarrow> jsval \<Rightarrow> bool" where
  "sameStored a b =
     (if isBuffer a \<or> isBuffer b then
        (case (a, b) of (VBuf x, VBuf y) \<Rightarrow> x = y | _ \<Rightarrow> False)
      else if strictEq a b then True
      else (case (a, b) of
              (VNum x, VNum y) \<Rightarrow> numNaN x \<and> numNaN y
            | (VStr x, VStr y) \<Rightarrow> foldLoneSurrogates x = foldLoneSurrogates y
            | _ \<Rightarrow> False))"

text \<open>
  What comes back out of the arena for a value that went in (\<^verbatim>\<open>encodeValue\<close> and \<^verbatim>\<open>Get\<close> of
  \<^verbatim>\<open>binding.cc\<close>): text goes through UTF-8, so it comes back folded; a number keeps its bits, and
  binary comes back as a Buffer.
\<close>

fun storedForm :: "jsval \<Rightarrow> jsval" where
  "storedForm (VStr s) = VStr (fold_loop s)"
| "storedForm (VView b) = VBuf b"
| "storedForm v = v"

definition storable :: "jsval \<Rightarrow> bool" where
  "storable v = (case v of VStr _ \<Rightarrow> True | VNum _ \<Rightarrow> True | VBool _ \<Rightarrow> True | VBigInt _ \<Rightarrow> True
                 | VNull \<Rightarrow> True | VBuf _ \<Rightarrow> True | _ \<Rightarrow> False)"

text \<open>A canonical representative: all NaNs are one, both zeros are one, text is folded.\<close>

fun canonVal :: "jsval \<Rightarrow> jsval" where
  "canonVal (VNum w) = (if numNaN w then VNum 0x7FF8000000000000 else if numZero w then VNum 0 else VNum w)"
| "canonVal (VStr s) = VStr (fold_loop s)"
| "canonVal v = v"

lemma numZero_not_NaN: "numZero w \<Longrightarrow> \<not> numNaN w"
proof
  assume z: "numZero w" and n: "numNaN w"
  have "and w 0x7FF0000000000000 = and (and w 0x7FFFFFFFFFFFFFFF) 0x7FF0000000000000"
    by (simp add: and.assoc)
  with z n show False by (simp add: numZero_def numNaN_def)
qed

lemma numNaN_canon [simp]: "numNaN 0x7FF8000000000000" "numZero 0" "\<not> numNaN 0" "\<not> numZero 0x7FF8000000000000"
  by (simp_all add: numNaN_def numZero_def)

lemma sameStored_canon: "sameStored a b \<longleftrightarrow> canonVal a = canonVal b"
  by (cases a; cases b)
    (auto simp: sameStored_def isBuffer_def numEq_def fold_eq_loop dest: numZero_not_NaN)

lemma sameStored_storedForm: "storable v \<Longrightarrow> sameStored v (storedForm v)"
  by (cases v) (auto simp: sameStored_canon storable_def)

section \<open>Properties\<close>

text \<open>\<^verbatim>\<open>sameStored\<close> is an equivalence relation on the values the cache handles: it is
  equality of their canonical stored images, where all NaNs are one, both zeros are one and text is
  compared with its lone surrogates folded. It is what the cap rules compare two arena reads with.\<close>

theorem sameStored_equivalence: "equivp sameStored \<and> (sameStored a b \<longleftrightarrow> canonVal a = canonVal b)"
  by (auto simp: sameStored_canon fun_eq_iff intro!: equivpI reflpI sympI transpI)

text \<open>C30: The fold that \<^verbatim>\<open>foldLoneSurrogates\<close> applies to a key is exactly the identity UTF-8 gives it:
  two keys have the same bytes in the arena if and only if their folded texts are equal, a folded
  text has no lone surrogate left, and a text is changed only if it had one.\<close>

theorem folded_keys_are_native_keys:
  "(utf8 s = utf8 t \<longleftrightarrow> foldLoneSurrogates s = foldLoneSurrogates t) \<and>
   \<not> hasLoneSurrogate (foldLoneSurrogates s) \<and>
   (foldLoneSurrogates s = s \<longleftrightarrow> \<not> hasLoneSurrogate s)"
  using fold_loop_clean [of s] fold_loop_id_iff [of s] by (simp add: fold_eq_loop utf8_eq_iff)

end
