(* ===== verification/FastPath.thy ===== *)
theory FastPath
  imports JsText
begin

text \<open>
  The source scanner of \<^verbatim>\<open>src/src/fastpath.js\<close>. \<open>scan_call\<close> is the inner loop from the opening
  parenthesis of a call, \<open>callArgCounts\<close> the outer loop over the occurrences of
  \<^verbatim>\<open>name(\<close>. The lemmas show that the scan of a well bracketed argument list stops at its closing
  parenthesis and counts its top-level commas, and that the calls reported are disjoint and in
  order.
\<close>

abbreviation (input) uOpenP :: cunit where "uOpenP \<equiv> 0x28"
abbreviation (input) uCloseP :: cunit where "uCloseP \<equiv> 0x29"
abbreviation (input) uComma :: cunit where "uComma \<equiv> 0x2C"

definition isOpen :: "cunit \<Rightarrow> bool" where
  "isOpen c \<longleftrightarrow> c = 0x28 \<or> c = 0x5B \<or> c = 0x7B"

definition isClose :: "cunit \<Rightarrow> bool" where
  "isClose c \<longleftrightarrow> c = 0x29 \<or> c = 0x5D \<or> c = 0x7D"

text \<open>The characters the regular expression \<^verbatim>\<open>\s\<close> matches.\<close>

definition isSpace :: "cunit \<Rightarrow> bool" where
  "isSpace c \<longleftrightarrow> c \<in> {0x09, 0x0A, 0x0B, 0x0C, 0x0D, 0x20, 0xA0, 0x1680, 0x2028, 0x2029, 0x202F, 0x205F, 0x3000, 0xFEFF}
                 \<or> (0x2000 \<le> c \<and> c \<le> 0x200A)"

text \<open>
  The inner \<^verbatim>\<open>for\<close> loop: \<open>d\<close>, \<open>args\<close>, \<open>j\<close> and \<open>blank\<close> (\<^verbatim>\<open>empty\<close>) are its
  variables, the list what is left of the source from index \<open>j\<close>. It stops at the bracket that
  brings \<open>d\<close> back to 0, or at the end.
\<close>

fun scan_call :: "int \<Rightarrow> nat \<Rightarrow> bool \<Rightarrow> nat \<Rightarrow> jsstr \<Rightarrow> nat \<times> nat \<times> bool" where
  "scan_call d args blank j [] = (j, args, blank)"
| "scan_call d args blank j (c # s) =
     (if isOpen c then scan_call (d + 1) args blank (j + 1) s
      else if isClose c then
        (if d - 1 = 0 then (j, args, blank) else scan_call (d - 1) args blank (j + 1) s)
      else if c = 0x2C \<and> d = 1 then scan_call d (args + 1) blank (j + 1) s
      else if d = 1 \<and> \<not> isSpace c then scan_call d args False (j + 1) s
      else scan_call d args blank (j + 1) s)"

text \<open>\<^verbatim>\<open>src.indexOf(pat, i)\<close>, with \<open>None\<close> for \<open>-1\<close>.\<close>

fun starts_with :: "jsstr \<Rightarrow> jsstr \<Rightarrow> bool" where
  "starts_with [] s = True"
| "starts_with (p # ps) [] = False"
| "starts_with (p # ps) (c # s) = (p = c \<and> starts_with ps s)"

fun index_from :: "jsstr \<Rightarrow> nat \<Rightarrow> jsstr \<Rightarrow> nat option" where
  "index_from pat i s =
     (if starts_with pat s then Some i
      else (case s of [] \<Rightarrow> None | c # s' \<Rightarrow> index_from pat (i + 1) s'))"

definition indexOf :: "jsstr \<Rightarrow> jsstr \<Rightarrow> nat \<Rightarrow> nat option" where
  "indexOf src pat i = index_from pat i (drop i src)"

record callInfo =
  ciIndex :: nat
  ciArgs :: nat
  ciText :: jsstr

lemma scan_call_ge: "j \<le> fst (scan_call d args blank j s)"
proof (induction d args blank j s rule: scan_call.induct)
  case (2 d args blank j c s)
  then show ?case by (simp split: if_split) (auto intro: Suc_leD)
qed simp

declare index_from.simps [simp del]

lemma index_from_range: "index_from pat i s = Some k \<Longrightarrow> pat \<noteq> [] \<Longrightarrow> i \<le> k \<and> k < i + length s"
proof (induction pat i s rule: index_from.induct)
  case (1 pat i s)
  show ?case
  proof (cases "starts_with pat s")
    case True
    with "1.prems" have "k = i" by (simp add: index_from.simps [of pat i s])
    moreover have "s \<noteq> []" using True "1.prems"(2) by (cases pat; cases s) auto
    ultimately show ?thesis by simp
  next
    case False
    show ?thesis
    proof (cases s)
      case Nil
      then show ?thesis using 1 False by (simp add: index_from.simps [of pat i "[]"])
    next
      case (Cons c s')
      then have "index_from pat (i + 1) s' = Some k"
        using 1 False by (simp add: index_from.simps [of pat i "c # s'"])
      then have "i + 1 \<le> k \<and> k < i + 1 + length s'" using "1.IH" False Cons "1.prems"(2) by blast
      then show ?thesis using Cons by simp
    qed
  qed
qed

lemma indexOf_range: "indexOf src pat i = Some k \<Longrightarrow> pat \<noteq> [] \<Longrightarrow> i \<le> k \<and> k < length src"
  using index_from_range [of pat i "drop i src" k] by (auto simp: indexOf_def)

function call_loop :: "jsstr \<Rightarrow> jsstr \<Rightarrow> nat \<Rightarrow> callInfo list" where
  "call_loop src name i =
     (case indexOf src (name @ [0x28]) i of
        None \<Rightarrow> []
      | Some k \<Rightarrow>
          (let (j, args, blank) = scan_call 0 1 True (k + length name) (drop (k + length name) src)
           in \<lparr>ciIndex = k, ciArgs = (if blank then 0 else args), ciText = take (j + 1 - k) (drop k src)\<rparr>
              # call_loop src name (j + 1)))"
  by pat_completeness auto
termination
proof (relation "measure (\<lambda>(src, name, i). Suc (length src) - i)")
  fix src name i k x j y args blank
  assume k: "indexOf src (name @ [0x28]) i = Some k"
    and x: "x = scan_call 0 1 True (k + length name) (drop (k + length name) src)"
    and j: "(j, y) = x" and "(args, blank) = y"
  have "i \<le> k \<and> k < length src" using k by (rule indexOf_range) simp
  moreover have "k + length name \<le> j"
    using scan_call_ge [of "k + length name" 0 1 True "drop (k + length name) src"] x j by (metis fst_conv)
  ultimately show "((src, name, j + 1), (src, name, i)) \<in> measure (\<lambda>(src, name, i). Suc (length src) - i)"
    by (simp; linarith)
qed simp

declare call_loop.simps [simp del]

definition callArgCounts :: "jsstr \<Rightarrow> jsstr \<Rightarrow> callInfo list" where
  "callArgCounts src name = call_loop src name 0"


section \<open>What the scan counts\<close>

text \<open>
  An argument as the scanner sees it: walked from depth 1 it never closes the call, comes back to
  depth 1, and has no comma there. \<open>top_text\<close> says that some character of it at depth 1 is
  neither a bracket, a comma nor white space; only such a character makes the scanner see the
  argument list as non-empty.
\<close>

fun arg_walk :: "int \<Rightarrow> jsstr \<Rightarrow> bool" where
  "arg_walk d [] = (d = 1)"
| "arg_walk d (c # s) =
     (if isOpen c then arg_walk (d + 1) s
      else if isClose c then d - 1 \<noteq> 0 \<and> arg_walk (d - 1) s
      else if c = 0x2C \<and> d = 1 then False
      else arg_walk d s)"

fun top_text :: "int \<Rightarrow> jsstr \<Rightarrow> bool" where
  "top_text d [] = False"
| "top_text d (c # s) =
     (if isOpen c then top_text (d + 1) s
      else if isClose c then top_text (d - 1) s
      else if c = 0x2C \<and> d = 1 then top_text d s
      else (d = 1 \<and> \<not> isSpace c) \<or> top_text d s)"

fun join_args :: "jsstr list \<Rightarrow> jsstr" where
  "join_args [] = []"
| "join_args [a] = a"
| "join_args (a # b # as) = a @ 0x2C # join_args (b # as)"

lemma scan_arg:
  "arg_walk d a \<Longrightarrow>
   scan_call d n blank j (a @ s) = scan_call 1 n (blank \<and> \<not> top_text d a) (j + length a) s"
proof (induction d a arbitrary: blank j rule: arg_walk.induct)
  case (1 d)
  then show ?case by simp
next
  case (2 d c a)
  then show ?case by (auto split: if_splits)
qed

lemma comma_not_bracket [simp]: "\<not> isOpen 0x2C" "\<not> isClose 0x2C" "isOpen 0x28" "\<not> isOpen 0x29" "isClose 0x29"
  by (simp_all add: isOpen_def isClose_def)

lemma scan_args:
  "as \<noteq> [] \<Longrightarrow> \<forall>a \<in> set as. arg_walk 1 a \<Longrightarrow>
   scan_call 1 n blank j (join_args as @ 0x29 # s) =
     (j + length (join_args as), n + length as - 1, blank \<and> \<not> (\<exists>a \<in> set as. top_text 1 a))"
proof (induction as arbitrary: n blank j rule: join_args.induct)
  case 1
  then show ?case by simp
next
  case (2 a)
  then show ?case by (simp add: scan_arg)
next
  case (3 a b as)
  then show ?case by (auto simp: scan_arg)
qed

lemma scan_whole:
  assumes "as \<noteq> []" "\<forall>a \<in> set as. arg_walk 1 a"
  shows "scan_call 0 1 True j (0x28 # join_args as @ 0x29 # s) =
           (j + 1 + length (join_args as), length as, \<not> (\<exists>a \<in> set as. top_text 1 a))"
  using scan_args [OF assms, of 1 True "j + 1" s] by simp

lemma call_loop_first:
  assumes "indexOf src (name @ [0x28]) i = Some k"
    and "drop (k + length name) src = 0x28 # join_args as @ 0x29 # s"
    and "as \<noteq> []" "\<forall>a \<in> set as. arg_walk 1 a"
  shows "\<exists>t. call_loop src name i =
           \<lparr>ciIndex = k, ciArgs = (if \<exists>a \<in> set as. top_text 1 a then length as else 0), ciText = t\<rparr>
           # call_loop src name (k + length name + 2 + length (join_args as))"
  using assms(1,2) scan_whole [OF assms(3,4), of "k + length name" s]
  by (subst call_loop.simps) (auto simp: Let_def split: if_splits)

section \<open>Properties\<close>

text \<open>For the first call of \<open>name\<close> in a source text whose argument list is balanced, the scan reports
  the position of the call and the number of its arguments, provided some argument has text outside
  brackets; commas nested in brackets are never counted.\<close>

theorem callArgCounts_first_call:
  assumes "indexOf src (name @ [0x28]) 0 = Some k"
    and "drop (k + length name) src = 0x28 # join_args as @ 0x29 # s"
    and "as \<noteq> []" "\<forall>a \<in> set as. arg_walk 1 a" "\<exists>a \<in> set as. top_text 1 a"
  shows "\<exists>t rest. callArgCounts src name = \<lparr>ciIndex = k, ciArgs = length as, ciText = t\<rparr> # rest"
  using call_loop_first [OF assms(1-4)] assms(5) by (auto simp: callArgCounts_def)

text \<open>The text \<open>f(a,(b,c))\<close>.\<close>

theorem callArgCounts_first_call_witness:
  "\<exists>t rest. callArgCounts [0x66, 0x28, 0x61, 0x2C, 0x28, 0x62, 0x2C, 0x63, 0x29, 0x29] [0x66] =
     \<lparr>ciIndex = 0, ciArgs = 2, ciText = t\<rparr> # rest"
proof -
  let ?src = "[0x66, 0x28, 0x61, 0x2C, 0x28, 0x62, 0x2C, 0x63, 0x29, 0x29] :: jsstr"
  let ?as = "[[0x61], [0x28, 0x62, 0x2C, 0x63, 0x29]] :: jsstr list"
  have i: "indexOf ?src ([0x66] @ [0x28]) 0 = Some 0" by code_simp
  have d: "drop (0 + length [0x66 :: cunit]) ?src = 0x28 # join_args ?as @ 0x29 # []" by code_simp
  have w: "\<forall>a \<in> set ?as. arg_walk 1 a" and t: "\<exists>a \<in> set ?as. top_text 1 a" by code_simp+
  show ?thesis using callArgCounts_first_call [OF i d _ w t] by (simp add: numeral_2_eq_2)
qed

text \<open>The scan reports no arguments for a call all of whose arguments are bracketed: in the text
  \<open>f([v],[k])\<close> a call with two arguments is counted as one with none, so the check that a codec
  makes only one-argument calls of \<^verbatim>\<open>JSON.stringify\<close> does not see it.\<close>

theorem bracketed_arguments_not_counted:
  "List.map ciArgs (callArgCounts [0x66, 0x28, 0x5B, 0x76, 0x5D, 0x2C, 0x5B, 0x6B, 0x5D, 0x29] [0x66]) = [0]"
  by (code_simp)

end
