(* ===== verification/GcPace.thy ===== *)
theory GcPace
  imports Prelude
begin

text \<open>
  The pace of the heap guard (\<^verbatim>\<open>src/src/turbokv.js\<close>, lines 66 to 195): the process-wide
  variables of the finalizer signal, its debounce, and the polling timer that stands in for it.
  A time is the integer part of \<^verbatim>\<open>performance.now()\<close> in milliseconds, and \<open>None\<close> stands for
  the \<^verbatim>\<open>-Infinity\<close> the two marks start from. A heap reading
  \<^verbatim>\<open>v8.getHeapStatistics()\<close> is an argument. What \<^verbatim>\<open>gcNotify\<close> sends to the subscribers is
  returned as a list, one entry per subscriber.
\<close>

definition GC_WINDOW :: nat where "GC_WINDOW = 16"
definition GC_QUIET_MS :: int where "GC_QUIET_MS = 5000"
definition GC_MIN_INTERVAL_MS :: int where "GC_MIN_INTERVAL_MS = 500"

record heapStats =
  usedHeap :: nat
  heapLimit :: nat

record gcState =
  gcRegistry :: bool
  gcArmed :: nat
  gcTimer :: bool
  gcLastSignal :: "int option"
  gcLastEval :: "int option"
  gcMinInterval :: int
  gcEvals :: nat
  gcDebounced :: nat
  gcSubscribers :: "nat list"
  gcWindow :: "nat list"

definition gc_init :: gcState where
  "gc_init = \<lparr>gcRegistry = False, gcArmed = 0, gcTimer = False, gcLastSignal = None, gcLastEval = None,
     gcMinInterval = GC_MIN_INTERVAL_MS, gcEvals = 0, gcDebounced = 0, gcSubscribers = [], gcWindow = []\<rparr>"

type_synonym notice = "nat \<times> nat \<times> nat"

definition gcArm :: "gcState \<Rightarrow> gcState" where
  "gcArm g = (if gcRegistry g then g\<lparr>gcArmed := gcArmed g + 1\<rparr> else g)"

definition gcNotify :: "gcState \<Rightarrow> nat \<Rightarrow> nat \<Rightarrow> notice list" where
  "gcNotify g used limit = List.map (\<lambda>c. (c, used, limit)) (gcSubscribers g)"

text \<open>\<open>within m now w\<close> is \<^verbatim>\<open>now - m < w\<close>; minus minus infinity is never below \<open>w\<close>.\<close>

definition within :: "int option \<Rightarrow> int \<Rightarrow> int \<Rightarrow> bool" where
  "within m now w = (case m of None \<Rightarrow> False | Some t \<Rightarrow> now - t < w)"

definition gcOnFinalizer :: "int \<Rightarrow> heapStats \<Rightarrow> gcState \<Rightarrow> gcState \<times> notice list" where
  "gcOnFinalizer now h g0 =
     (let g = gcArm g0
      in if within (gcLastEval g) now (gcMinInterval g)
         then (g\<lparr>gcDebounced := gcDebounced g + 1\<rparr>, [])
         else (let g1 = g\<lparr>gcLastEval := Some now, gcLastSignal := Some now, gcEvals := gcEvals g + 1, gcWindow := []\<rparr>
               in (g1, gcNotify g1 (usedHeap h) (heapLimit h))))"

definition gcSubscribe :: "nat \<Rightarrow> int option \<Rightarrow> bool \<Rightarrow> gcState \<Rightarrow> gcState" where
  "gcSubscribe inst minIntervalMs hasRegistry g =
     (let first = (gcSubscribers g = []);
          g1 = g\<lparr>gcSubscribers := (if inst \<in> set (gcSubscribers g) then gcSubscribers g
                                    else gcSubscribers g @ [inst])\<rparr>;
          g2 = (case minIntervalMs of
                  None \<Rightarrow> g1
                | Some m \<Rightarrow> if 0 \<le> m
                            then g1\<lparr>gcMinInterval := (if first then m else min (gcMinInterval g1) m)\<rparr>
                            else g1)
      in if gcTimer g2 then g2
         else (let g3 = (if hasRegistry then gcArm (g2\<lparr>gcRegistry := True\<rparr>) else g2)
               in g3\<lparr>gcTimer := True\<rparr>))"

text \<open>One tick of the polling timer, every \<^verbatim>\<open>GC_POLL_MS\<close>.\<close>

definition gcPoll :: "int \<Rightarrow> heapStats \<Rightarrow> gcState \<Rightarrow> gcState \<times> notice list" where
  "gcPoll now h g0 =
     (let w = gcWindow g0 @ [usedHeap h];
          g = g0\<lparr>gcWindow := (if length w > GC_WINDOW then tl w else w)\<rparr>
      in if gcRegistry g \<and> within (gcLastSignal g) now GC_QUIET_MS then (g, [])
         else if gcWindow g = [] then (g, [])
         else if within (gcLastEval g) now (gcMinInterval g)
         then (g\<lparr>gcDebounced := gcDebounced g + 1\<rparr>, [])
         else (let g1 = g\<lparr>gcLastEval := Some now, gcEvals := gcEvals g + 1\<rparr>
               in (g1, gcNotify g1 (Min (set (gcWindow g1))) (heapLimit h))))"

definition gcUnsubscribe :: "nat \<Rightarrow> gcState \<Rightarrow> gcState" where
  "gcUnsubscribe inst g =
     (let g1 = g\<lparr>gcSubscribers := removeAll inst (gcSubscribers g)\<rparr>
      in if gcSubscribers g1 \<noteq> [] then g1
         else g1\<lparr>gcTimer := False, gcRegistry := False, gcWindow := [], gcLastSignal := None,
                 gcLastEval := None, gcMinInterval := GC_MIN_INTERVAL_MS\<rparr>)"

section \<open>Runs\<close>

datatype gcEvent = Finalizer heapStats | PollTick heapStats

fun gc_step :: "int \<Rightarrow> gcEvent \<Rightarrow> gcState \<Rightarrow> gcState \<times> notice list" where
  "gc_step now (Finalizer h) g = gcOnFinalizer now h g"
| "gc_step now (PollTick h) g = gcPoll now h g"

text \<open>The times at which a run of timed events evaluates the guard.\<close>

fun gc_eval_times :: "(int \<times> gcEvent) list \<Rightarrow> gcState \<Rightarrow> int list" where
  "gc_eval_times [] g = []"
| "gc_eval_times ((t, e) # es) g =
     (let g' = fst (gc_step t e g)
      in (if gcEvals g' = gcEvals g then [] else [t]) @ gc_eval_times es g')"

lemmas gc_defs = gcOnFinalizer_def gcPoll_def gcArm_def Let_def

lemma gc_step_interval [frame_simps]: "gcMinInterval (fst (gc_step t e g)) = gcMinInterval g"
  by (cases e) (auto simp: gc_defs)

lemma gc_step_eval:
  "gcEvals (fst (gc_step t e g)) \<noteq> gcEvals g \<Longrightarrow>
   gcLastEval (fst (gc_step t e g)) = Some t \<and> \<not> within (gcLastEval g) t (gcMinInterval g)"
  by (cases e) (auto simp: gc_defs split: if_splits)

lemma gc_step_no_eval:
  "gcEvals (fst (gc_step t e g)) = gcEvals g \<Longrightarrow> gcLastEval (fst (gc_step t e g)) = gcLastEval g"
  by (cases e) (auto simp: gc_defs split: if_splits)

text \<open>Consecutive evaluations of a run, the one before the run included, are an interval apart.\<close>

fun spaced :: "int \<Rightarrow> int option \<Rightarrow> int list \<Rightarrow> bool" where
  "spaced w prev [] = True"
| "spaced w prev (t # ts) = (\<not> within prev t w \<and> spaced w (Some t) ts)"

lemma gc_eval_times_spaced:
  "spaced (gcMinInterval g) (gcLastEval g) (gc_eval_times es g)"
proof (induction es arbitrary: g)
  case Nil
  then show ?case by simp
next
  case (Cons te es)
  obtain t e where te: "te = (t, e)" by force
  show ?case
    using Cons [of "fst (gc_step t e g)"] gc_step_eval [of t e g] gc_step_no_eval [of t e g]
    by (auto simp: te Let_def gc_step_interval)
qed

lemma gcPoll_window: "length (gcWindow g) \<le> GC_WINDOW \<Longrightarrow> length (gcWindow (fst (gcPoll t h g))) \<le> GC_WINDOW"
  by (auto simp: gcPoll_def Let_def)


lemma gcPoll_fires:
  assumes "\<not> (gcRegistry g \<and> within (gcLastSignal g) t GC_QUIET_MS)"
    and "\<not> within (gcLastEval g) t (gcMinInterval g)"
  shows "\<exists>w. gcPoll t h g = (g\<lparr>gcWindow := w, gcLastEval := Some t, gcEvals := gcEvals g + 1\<rparr>,
               List.map (\<lambda>c. (c, Min (set w), heapLimit h)) (gcSubscribers g)) \<and>
             usedHeap h \<in> set w \<and> set w \<subseteq> insert (usedHeap h) (set (gcWindow g))"
proof -
  let ?w0 = "gcWindow g @ [usedHeap h]"
  let ?w = "if length ?w0 > GC_WINDOW then tl ?w0 else ?w0"
  have ne: "?w \<noteq> []" by (cases "gcWindow g") (auto simp: GC_WINDOW_def)
  have mem: "usedHeap h \<in> set ?w" by (cases "gcWindow g") (auto simp: GC_WINDOW_def)
  have sub: "set ?w \<subseteq> insert (usedHeap h) (set (gcWindow g))"
    by (cases "gcWindow g") auto
  have "gcPoll t h g = (g\<lparr>gcWindow := ?w, gcLastEval := Some t, gcEvals := gcEvals g + 1\<rparr>,
          List.map (\<lambda>c. (c, Min (set ?w), heapLimit h)) (gcSubscribers g))"
    using assms ne unfolding gcPoll_def gcNotify_def Let_def
    by (cases "gcRegistry g") (simp_all split: if_split_asm)
  then show ?thesis using mem sub by blast
qed

section \<open>Properties\<close>

text \<open>C32: Over any run of finalizer signals and poll ticks, and from any state, two consecutive
  evaluations of the heap guard are at least the debounce interval apart: a burst of collections
  cannot make the process read its heap statistics once per collection.\<close>

theorem gc_guard_debounced: "spaced (gcMinInterval g) (gcLastEval g) (gc_eval_times es g)"
  by (rule gc_eval_times_spaced)

end
