(* ===== verification/Options.thy ===== *)
theory Options
  imports JsText Complex_Main
begin

text \<open>
  The decisions taken from options and arguments (\<^verbatim>\<open>src/src/turbokv.js\<close>: \<open>autoSize\<close>,
  \<open>assertStorageOptions\<close>, the storage preset of the constructor, \<open>resolveLevel\<close>,
  \<open>willCacheWrite\<close>, \<open>willCacheRead\<close>, the id check of \<open>attachWorker\<close>, the time to live
  of \<open>set\<close> and \<open>l3Ttl\<close>; \<^verbatim>\<open>src/src/l3/adapter.js\<close>: \<open>assertAdapter\<close>; the \<open>retryMs\<close> checks
  of the cache and of the queue). A thrown error is \<open>Inl\<close>; its text is not modelled. A number
  argument is the rational value of a finite number (every finite double is rational) or one of
  the special values; durations and times on the JavaScript side are rationals, in milliseconds.
\<close>

type_synonym ms = rat

datatype numArg = NumUndef | NumOther | NumNaN | NumPosInf | NumNegInf | Num rat

definition isInteger :: "rat \<Rightarrow> bool" where
  "isInteger x \<longleftrightarrow> of_int \<lfloor>x\<rfloor> = x"

lemma isInteger_numerals [simp]: "isInteger 0" "isInteger 1" "isInteger (numeral n)" "isInteger (- numeral n)"
  "isInteger (- 1)"
  by (simp_all add: isInteger_def)

datatype optError =
    BadLevel | BadAdapterKind | MissingMember string | BadMember string
  | BadStorage | CodecIsString | CodecNotObject | CodecContradicted | CodecMissing "string list"
  | BadWorkerId | BadRetryMs

type_synonym 'a checked = "optError + 'a"

section \<open>Sizing\<close>

definition clamp :: "nat \<Rightarrow> nat \<Rightarrow> nat \<Rightarrow> nat" where
  "clamp v lo hi = min hi (max lo v)"

text \<open>\<^verbatim>\<open>1 << Math.ceil(Math.log2(x))\<close> for \<^verbatim>\<open>x = max(1024, arena / 512 / 0.75)\<close>: the
  least power of two not below \<open>x\<close>, that is, with \<^verbatim>\<open>arena <= 384 * p\<close>.\<close>

function pow2_from :: "nat \<Rightarrow> nat \<Rightarrow> nat" where
  "pow2_from p arena = (if p = 0 \<or> arena \<le> 384 * p then p else pow2_from (2 * p) arena)"
  by pat_completeness auto
termination
  by (relation "measure (\<lambda>(p, arena). arena - p)") auto

declare pow2_from.simps [simp del]

record sizing =
  arenaBytes :: nat
  l1MaxBytes :: nat
  indexSlots :: nat

text \<open>
  \<open>memPart\<close> is \<^verbatim>\<open>Math.floor(os.totalmem() * 0.01)\<close> and \<open>heapPart\<close>
  \<^verbatim>\<open>Math.floor(heap_size_limit * 0.005)\<close>, readings of the machine.
\<close>

definition autoSize :: "nat \<Rightarrow> nat \<Rightarrow> sizing" where
  "autoSize memPart heapPart =
     (let arena = clamp memPart (16 * 2 ^ 20) (128 * 2 ^ 20);
          l1 = clamp heapPart (512 * 1024) (2 * 2 ^ 20);
          slots = pow2_from 1024 arena
      in \<lparr>arenaBytes = arena, l1MaxBytes = l1, indexSlots = min slots (2 ^ 22)\<rparr>)"

lemma pow2_from_ge: "0 < p \<Longrightarrow> arena \<le> 384 * pow2_from p arena"
proof (induction p arena rule: pow2_from.induct)
  case (1 p arena)
  then show ?case by (cases "arena \<le> 384 * p") (simp_all add: pow2_from.simps [of p arena])
qed

lemma pow2_from_pow: "p = 2 ^ j \<Longrightarrow> \<exists>k. pow2_from p arena = 2 ^ k"
proof (induction p arena arbitrary: j rule: pow2_from.induct)
  case (1 p arena)
  show ?case
  proof (cases "arena \<le> 384 * p")
    case True
    then have "pow2_from p arena = p" by (simp add: pow2_from.simps [of p arena])
    then show ?thesis using "1.prems" by blast
  next
    case False
    have "2 * p = 2 ^ (j + 1)" "0 < p" using "1.prems" by simp_all
    then have "\<exists>k. pow2_from (2 * p) arena = 2 ^ k" using "1.IH" False by blast
    moreover have "pow2_from p arena = pow2_from (2 * p) arena"
      using False \<open>0 < p\<close> by (simp add: pow2_from.simps [of p arena])
    ultimately show ?thesis by simp
  qed
qed

lemma pow2_from_lt: "0 < p \<Longrightarrow> pow2_from p arena \<le> max p (2 * (arena div 384 + 1))"
proof (induction p arena rule: pow2_from.induct)
  case (1 p arena)
  show ?case
  proof (cases "arena \<le> 384 * p")
    case True
    then show ?thesis by (simp add: pow2_from.simps [of p arena])
  next
    case False
    then have "pow2_from (2 * p) arena \<le> max (2 * p) (2 * (arena div 384 + 1))" using 1 by simp
    moreover have "p \<le> arena div 384" using False by (simp add: less_eq_div_iff_mult_less_eq)
    ultimately show ?thesis using False by (simp add: pow2_from.simps [of p arena])
  qed
qed

section \<open>The adapter\<close>

datatype memberKind = MUndefined | MFunction | MOther

datatype adapterArg = AdapterNull | AdapterNotObject | AdapterObject "string \<Rightarrow> memberKind"

definition REQUIRED :: "string list" where
  "REQUIRED = [''get'', ''set'', ''delete'', ''clear'']"

definition OPTIONAL :: "string list" where
  "OPTIONAL = [''has'', ''subscribe'', ''close'']"

fun check_required :: "(string \<Rightarrow> memberKind) \<Rightarrow> string list \<Rightarrow> unit checked" where
  "check_required a [] = Inr ()"
| "check_required a (m # ms) =
     (if a m \<noteq> MFunction then Inl (if a m = MUndefined then MissingMember m else BadMember m)
      else check_required a ms)"

fun check_optional :: "(string \<Rightarrow> memberKind) \<Rightarrow> string list \<Rightarrow> unit checked" where
  "check_optional a [] = Inr ()"
| "check_optional a (m # ms) =
     (if a m \<noteq> MUndefined \<and> a m \<noteq> MFunction then Inl (BadMember m) else check_optional a ms)"

definition assertAdapter :: "adapterArg \<Rightarrow> (string \<Rightarrow> memberKind) checked" where
  "assertAdapter arg =
     (case arg of
        AdapterNull \<Rightarrow> Inl BadAdapterKind
      | AdapterNotObject \<Rightarrow> Inl BadAdapterKind
      | AdapterObject a \<Rightarrow>
          (case check_required a REQUIRED of
             Inl e \<Rightarrow> Inl e
           | Inr _ \<Rightarrow> (case check_optional a OPTIONAL of Inl e \<Rightarrow> Inl e | Inr _ \<Rightarrow> Inr a)))"

lemma check_required_ok: "check_required a ms = Inr u \<longleftrightarrow> (\<forall>m \<in> set ms. a m = MFunction)"
  by (induction ms) auto

lemma check_optional_ok:
  "check_optional a ms = Inr u \<longleftrightarrow> (\<forall>m \<in> set ms. a m = MUndefined \<or> a m = MFunction)"
  by (induction ms) auto


section \<open>Storage and codec options\<close>

text \<open>\<open>SAbsent\<close> is an option that is undefined or null, \<open>SOther\<close> one that is not a string.\<close>

datatype strArg = SAbsent | SStr string | SOther

datatype codecArg = CAbsent | CString string | CNotObject | CObject memberKind memberKind

definition STORAGE_MODES :: "string list" where
  "STORAGE_MODES = [''bytes'', ''direct'', ''safe'', ''primitives'']"

definition noCodecMode :: "string list" where
  "noCodecMode = [''bytes'', ''primitives'']"

record storageArgs =
  saStorage :: strArg
  saValues :: strArg
  saCodec :: codecArg
  saL1DecodedFalse :: bool
  saFreezeFalse :: bool
  saIsolateFalse :: bool
  saHeapFactor :: nat

fun bad_mode :: "strArg \<Rightarrow> bool" where
  "bad_mode SAbsent = False"
| "bad_mode (SStr s) = (s \<notin> set STORAGE_MODES)"
| "bad_mode SOther = True"

fun is_noCodec :: "strArg \<Rightarrow> bool" where
  "is_noCodec (SStr s) = (s \<in> set noCodecMode)"
| "is_noCodec _ = False"

definition missing_halves :: "memberKind \<Rightarrow> memberKind \<Rightarrow> string list" where
  "missing_halves enc dec =
     (if enc = MFunction then [] else [''encode'']) @ (if dec = MFunction then [] else [''decode''])"

definition assertStorageOptions :: "storageArgs \<Rightarrow> unit checked" where
  "assertStorageOptions o' =
     (if bad_mode (saStorage o') \<or> bad_mode (saValues o') then Inl BadStorage
      else (case saCodec o' of
              CAbsent \<Rightarrow> Inr ()
            | CString _ \<Rightarrow> Inl CodecIsString
            | CNotObject \<Rightarrow> Inl CodecNotObject
            | CObject enc dec \<Rightarrow>
                if is_noCodec (saStorage o') \<or> is_noCodec (saValues o') then Inl CodecContradicted
                else if missing_halves enc dec \<noteq> [] then Inl (CodecMissing (missing_halves enc dec))
                else Inr ()))"

datatype codecChoice = NoCodec | UserCodec | V8Codec | JsonCodec

record storageCfg =
  scName :: string
  scNoCodec :: bool
  scCodec :: codecChoice
  scL1Decoded :: bool
  scFreeze :: bool
  scIsolate :: bool
  scHeapFactor :: nat

text \<open>The part of the constructor that turns the accepted options into the storage mode.\<close>

definition resolveStorage :: "storageArgs \<Rightarrow> storageCfg" where
  "resolveStorage o' =
     (let preset = (if saStorage o' \<noteq> SAbsent then saStorage o' else saValues o');
          user = (if saCodec o' = CAbsent then NoCodec else UserCodec);
          codec1 = (if preset = SStr ''direct'' then (if user = NoCodec then V8Codec else user)
                    else if preset = SStr ''safe'' then (if user = NoCodec then JsonCodec else user)
                    else user);
          l1Dec = (if preset = SStr ''safe'' then False else \<not> saL1DecodedFalse o');
          values1 = (if preset = SStr ''bytes'' \<or> preset = SStr ''primitives'' then SStr ''bytes''
                     else saValues o');
          noCodec = (values1 = SStr ''bytes'' \<or> values1 = SStr ''primitives'');
          codec = (if noCodec then NoCodec else codec1)
      in \<lparr>scName = (case preset of
                       SStr s \<Rightarrow> if s = ''primitives'' then ''bytes'' else s
                     | _ \<Rightarrow> if user = NoCodec then ''bytes'' else ''codec''),
          scNoCodec = noCodec,
          scCodec = codec,
          scL1Decoded = l1Dec,
          scFreeze = \<not> saFreezeFalse o',
          scIsolate = \<not> saIsolateFalse o',
          scHeapFactor = (if noCodec \<or> \<not> l1Dec then 1
                          else if saHeapFactor o' \<noteq> 0 then saHeapFactor o'
                          else if codec \<noteq> NoCodec then 3 else 1)\<rparr>)"

lemma resolveStorage_exclusive: "scNoCodec (resolveStorage o') \<Longrightarrow> scCodec (resolveStorage o') = NoCodec"
  by (auto simp: resolveStorage_def Let_def)

lemma resolveStorage_neither:
  assumes "assertStorageOptions o' = Inr ()"
  shows "scCodec (resolveStorage o') = NoCodec \<and> \<not> scNoCodec (resolveStorage o') \<longleftrightarrow>
           saStorage o' = SAbsent \<and> saValues o' = SAbsent \<and> saCodec o' = CAbsent"
  using assms
  by (cases "saStorage o'"; cases "saValues o'"; cases "saCodec o'")
    (auto simp: assertStorageOptions_def resolveStorage_def Let_def STORAGE_MODES_def
      noCodecMode_def split: if_splits)

section \<open>Levels\<close>

text \<open>
  \<open>resolveLevel\<close> reads three facts of the state: whether an adapter is attached, whether the
  store is ready, and whether the primary is dead.
\<close>

definition resolveLevel :: "bool \<Rightarrow> bool \<Rightarrow> bool \<Rightarrow> numArg \<Rightarrow> nat checked" where
  "resolveLevel hasL3 storeReady primaryDead minLevel =
     (case minLevel of
        NumUndef \<Rightarrow> Inr 1
      | Num n \<Rightarrow>
          if \<not> isInteger n \<or> n < 1 \<or> n > 3 then Inl BadLevel
          else (let hasL2 = (\<not> (primaryDead \<or> \<not> storeReady))
                in Inr (if n = 3 then (if hasL3 then 3 else if hasL2 then 2 else 1)
                        else if n = 2 then (if hasL2 then 2 else 1)
                        else 1))
      | _ \<Rightarrow> Inl BadLevel)"

definition willCacheWrite :: "nat \<Rightarrow> bool" where
  "willCacheWrite level = (level < 3)"

definition willCacheRead :: "bool \<Rightarrow> bool \<Rightarrow> nat \<Rightarrow> bool" where
  "willCacheRead storeReady primaryDead level = (level < 3 \<and> storeReady \<and> \<not> primaryDead)"

text \<open>The tiers that exist in a state, the reference for the clamp.\<close>

definition availableLevels :: "bool \<Rightarrow> bool \<Rightarrow> bool \<Rightarrow> nat set" where
  "availableLevels hasL3 storeReady primaryDead =
     {1} \<union> (if storeReady \<and> \<not> primaryDead then {2} else {}) \<union> (if hasL3 then {3} else {})"

section \<open>Worker ids and the retry budget\<close>

datatype widArg = WStr string | WNum numArg

definition digit_char :: "char \<Rightarrow> bool" where
  "digit_char c \<longleftrightarrow> 48 \<le> (of_char c :: nat) \<and> (of_char c :: nat) \<le> 57"

definition digits_value :: "string \<Rightarrow> int" where
  "digits_value s = foldl (\<lambda>n c. 10 * n + (of_char c - 48)) 0 s"

definition attachWorkerId :: "widArg \<Rightarrow> nat checked" where
  "attachWorkerId workerId =
     (case workerId of
        WStr s \<Rightarrow>
          if s \<noteq> [] \<and> list_all digit_char s then
            (if digits_value s < 1 then Inl BadWorkerId else Inr (nat (digits_value s)))
          else Inl BadWorkerId
      | WNum (Num n) \<Rightarrow> if \<not> isInteger n \<or> n < 1 then Inl BadWorkerId else Inr (nat \<lfloor>n\<rfloor>)
      | WNum _ \<Rightarrow> Inl BadWorkerId)"

text \<open>\<^verbatim>\<open>typeof x === 'number' && x > 0 && Number.isFinite(x)\<close>.\<close>

definition positiveFinite :: "numArg \<Rightarrow> bool" where
  "positiveFinite x = (case x of Num n \<Rightarrow> 0 < n | _ \<Rightarrow> False)"

definition check_queue_retryMs :: "numArg \<Rightarrow> unit checked" where
  "check_queue_retryMs x = (if \<not> positiveFinite x then Inl BadRetryMs else Inr ())"

definition check_cache_retryMs :: "bool \<Rightarrow> numArg \<Rightarrow> unit checked" where
  "check_cache_retryMs hasL3 x =
     (if hasL3 \<and> x \<noteq> NumUndef \<and> \<not> positiveFinite x then Inl BadRetryMs else Inr ())"

section \<open>Times to live\<close>

definition TTL_MAX :: ms where "TTL_MAX = 0x7FFFFFFF"

text \<open>
  \<^verbatim>\<open>Math.max(0, Math.min(ttlOpt, 0x7fffffff))\<close> of \<open>set\<close>. NaN, and what coerces to it, stays
  NaN in the source; it is 0 here because every consumer treats it as 0 (\<^verbatim>\<open>ttlMs > 0\<close>,
  \<^verbatim>\<open>op.ttlMs || 0\<close>, and \<^verbatim>\<open>readTtlMs\<close> in the addon).
\<close>

definition clampTtl :: "numArg \<Rightarrow> ms" where
  "clampTtl t =
     (case t of
        Num n \<Rightarrow> max 0 (min n TTL_MAX)
      | NumPosInf \<Rightarrow> TTL_MAX
      | _ \<Rightarrow> 0)"

definition l3Ttl :: "ms \<Rightarrow> numArg \<Rightarrow> ms" where
  "l3Ttl l3TtlMs t =
     (let recTtl = (case t of
                      Num n \<Rightarrow> if n > 0 \<and> n \<le> TTL_MAX then n else if n > TTL_MAX then TTL_MAX else 0
                    | NumPosInf \<Rightarrow> TTL_MAX
                    | _ \<Rightarrow> 0)
      in if l3TtlMs > 0 then (if recTtl \<noteq> 0 then min recTtl l3TtlMs else l3TtlMs) else recTtl)"

text \<open>
  The addon's reading of a time to live (\<^verbatim>\<open>readTtlMs\<close> in \<^verbatim>\<open>src/src/binding.cc\<close>): clamped,
  then cut to a whole number of milliseconds, where 0 means that the entry never expires.
\<close>

definition readTtlMs :: "ms \<Rightarrow> nat" where
  "readTtlMs d = (if \<not> d > 0 then 0 else if d > TTL_MAX then 0x7FFFFFFF else nat \<lfloor>d\<rfloor>)"

section \<open>Properties\<close>

text \<open>An accepted \<^verbatim>\<open>minLevel\<close> that is a whole number is resolved to the highest tier that exists and is
  not above it, and every accepted one is a whole number from 1 to 3 or absent: a call never uses a
  tier that is not there, and never a deeper one than it asked for.\<close>

theorem resolveLevel_highest_available:
  assumes "resolveLevel hasL3 storeReady primaryDead minLevel = Inr k"
  shows "(minLevel = NumUndef \<and> k = 1) \<or>
         (\<exists>n \<in> {1, 2, 3}. minLevel = Num (of_nat n) \<and>
            k = Max {j \<in> availableLevels hasL3 storeReady primaryDead. j \<le> n})"
proof (cases minLevel)
  case (Num n)
  have int: "of_int \<lfloor>n\<rfloor> = n" and r: "1 \<le> n" "n \<le> 3"
    using assms Num by (auto simp: resolveLevel_def isInteger_def split: if_splits)
  have "\<lfloor>n\<rfloor> \<ge> 1" "\<lfloor>n\<rfloor> \<le> 3" using r by (auto simp: le_floor_iff floor_le_iff)
  then have "\<lfloor>n\<rfloor> = 1 \<or> \<lfloor>n\<rfloor> = 2 \<or> \<lfloor>n\<rfloor> = 3" by presburger
  then have "n = 1 \<or> n = 2 \<or> n = 3" using int by (metis of_int_1 of_int_numeral)
  moreover have upto: "{j \<in> S. j \<le> m} = S \<inter> {..m}" for S and m :: nat by auto
  ultimately show ?thesis
    using assms Num unfolding upto availableLevels_def
    by (cases hasL3; cases storeReady; cases primaryDead) (auto simp: resolveLevel_def)
qed (use assms in \<open>auto simp: resolveLevel_def\<close>)

theorem resolveLevel_highest_available_witness:
  "(NumUndef = Num 3 \<and> (1::nat) = 1) \<or> (\<exists>n \<in> {1, 2, 3}. Num 3 = Num (of_nat n) \<and>
      (2::nat) = Max {j \<in> availableLevels False True False. j \<le> n})"
  using resolveLevel_highest_available [of False True False "Num 3" 2]
  by (simp add: resolveLevel_def)

text \<open>The defaults size an index of at most \<open>2 ^ 22\<close> slots, a power of two, with the arena's entries
  filling at most three quarters of it, and the two budgets stay inside their limits whatever the
  machine reports.\<close>

theorem autoSize_bounds:
  "\<exists>k. indexSlots (autoSize memPart heapPart) = 2 ^ k \<and>
       1024 \<le> indexSlots (autoSize memPart heapPart) \<and>
       indexSlots (autoSize memPart heapPart) \<le> 2 ^ 22 \<and>
       arenaBytes (autoSize memPart heapPart) \<le> 384 * indexSlots (autoSize memPart heapPart) \<and>
       arenaBytes (autoSize memPart heapPart) \<in> {16 * 2 ^ 20 .. 128 * 2 ^ 20} \<and>
       l1MaxBytes (autoSize memPart heapPart) \<in> {512 * 1024 .. 2 * 2 ^ 20}"
proof -
  let ?a = "clamp memPart (16 * 2 ^ 20) (128 * 2 ^ 20)"
  have a: "16 * 2 ^ 20 \<le> ?a" "?a \<le> 128 * 2 ^ 20" by (simp_all add: clamp_def)
  have l: "512 * 1024 \<le> clamp heapPart (512 * 1024) (2 * 2 ^ 20)" "clamp heapPart (512 * 1024) (2 * 2 ^ 20) \<le> 2 * 2 ^ 20"
    by (simp_all add: clamp_def)
  obtain k where k: "pow2_from 1024 ?a = 2 ^ k" using pow2_from_pow [of 1024 10 ?a] by auto
  have le: "pow2_from 1024 ?a \<le> 2 ^ 22"
  proof -
    have "?a div 384 \<le> 128 * 2 ^ 20 div 384" using a(2) by (rule div_le_mono)
    then show ?thesis using pow2_from_lt [of 1024 ?a] by simp
  qed
  have ge: "?a \<le> 384 * pow2_from 1024 ?a" by (rule pow2_from_ge) simp
  have "1024 \<le> pow2_from 1024 ?a" using ge a by simp
  then show ?thesis using a l k le ge by (intro exI [of _ k]) (simp add: autoSize_def Let_def min_def)
qed

text \<open>\<^verbatim>\<open>assertAdapter\<close> accepts exactly the objects whose \<open>get\<close>, \<open>set\<close>, \<open>delete\<close> and \<open>clear\<close> are
  functions and whose \<open>has\<close>, \<open>subscribe\<close> and \<open>close\<close> are functions or undefined, and hands back the
  object it was given.\<close>

theorem assertAdapter_accepts:
  "assertAdapter arg = Inr a \<longleftrightarrow>
     arg = AdapterObject a \<and> (\<forall>m \<in> {''get'', ''set'', ''delete'', ''clear''}. a m = MFunction) \<and>
     (\<forall>m \<in> {''has'', ''subscribe'', ''close''}. a m \<in> {MUndefined, MFunction})"
  by (cases arg) (auto simp: assertAdapter_def check_required_ok check_optional_ok REQUIRED_def OPTIONAL_def
      split: sum.splits)

theorem assertAdapter_accepts_witness: "assertAdapter (AdapterObject (\<lambda>_. MFunction)) = Inr (\<lambda>_. MFunction)"
  using assertAdapter_accepts [of "AdapterObject (\<lambda>_. MFunction)" "\<lambda>_. MFunction"] by simp

text \<open>Options the check accepts leave the cache with neither a codec nor the bytes mode exactly when
  none of \<open>storage\<close>, \<open>values\<close> and \<open>codec\<close> is given; the mode is then named \<open>bytes\<close> all the same. In
  every other case one of the two is in force, never both.\<close>

theorem storage_mode_defined:
  assumes "assertStorageOptions o' = Inr ()"
  shows "\<not> (scNoCodec (resolveStorage o') \<and> scCodec (resolveStorage o') \<noteq> NoCodec) \<and>
         (scCodec (resolveStorage o') = NoCodec \<and> \<not> scNoCodec (resolveStorage o') \<longleftrightarrow>
            saStorage o' = SAbsent \<and> saValues o' = SAbsent \<and> saCodec o' = CAbsent) \<and>
         (saStorage o' = SAbsent \<and> saValues o' = SAbsent \<and> saCodec o' = CAbsent \<longrightarrow>
            scName (resolveStorage o') = ''bytes'')"
  using resolveStorage_neither [OF assms] resolveStorage_exclusive [of o']
  by (auto simp: resolveStorage_def Let_def)

theorem storage_mode_defined_witness:
  "\<exists>o'. assertStorageOptions o' = Inr () \<and> saStorage o' = SAbsent \<and>
     \<not> scNoCodec (resolveStorage o') \<and> scCodec (resolveStorage o') = NoCodec"
  using storage_mode_defined
    [of "\<lparr>saStorage = SAbsent, saValues = SAbsent, saCodec = CAbsent, saL1DecodedFalse = False,
          saFreezeFalse = False, saIsolateFalse = False, saHeapFactor = 0\<rparr>"]
  by (intro exI [of _ "\<lparr>saStorage = SAbsent, saValues = SAbsent, saCodec = CAbsent,
        saL1DecodedFalse = False, saFreezeFalse = False, saIsolateFalse = False, saHeapFactor = 0\<rparr>"])
    (simp add: assertStorageOptions_def)

text \<open>The time to live of a shared record brought in from the shared store is never longer than the
  record's own (as the adapter reported it, at most the 31-bit limit) nor than the configured
  ceiling, where each is in force, and it is finite as soon as either is.\<close>

theorem l3Ttl_bounds:
  "(0 < l3TtlMs \<longrightarrow> 0 < l3Ttl l3TtlMs t \<and> l3Ttl l3TtlMs t \<le> l3TtlMs) \<and>
   (0 < clampTtl t \<longrightarrow> 0 < l3Ttl l3TtlMs t \<and> l3Ttl l3TtlMs t \<le> clampTtl t) \<and>
   (l3TtlMs \<le> 0 \<longrightarrow> l3Ttl l3TtlMs t = clampTtl t)"
  by (cases t) (auto simp: l3Ttl_def clampTtl_def TTL_MAX_def Let_def)

theorem l3Ttl_bounds_witness: "0 < l3Ttl 500 (Num 900) \<and> l3Ttl 500 (Num 900) \<le> 500"
  using l3Ttl_bounds [of 500 "Num 900"] by simp

text \<open>A time to live strictly between 0 and 1 millisecond is a deadline for the process's own tier
  and for the shared record, but the arena reads it as 0, which there means that the entry never
  expires.\<close>

theorem submillisecond_ttl_never_expires_in_the_arena:
  assumes "0 < d" "d < 1"
  shows "clampTtl (Num d) = d \<and> l3Ttl 0 (Num d) = d \<and> readTtlMs (clampTtl (Num d)) = 0"
  using assms by (auto simp: clampTtl_def l3Ttl_def readTtlMs_def TTL_MAX_def Let_def min_def)

theorem submillisecond_ttl_never_expires_in_the_arena_witness:
  "clampTtl (Num (1 / 2)) = 1 / 2 \<and> l3Ttl 0 (Num (1 / 2)) = 1 / 2 \<and> readTtlMs (clampTtl (Num (1 / 2))) = 0"
  by (rule submillisecond_ttl_never_expires_in_the_arena) simp_all

end
