(* ===== verification/L3Queue.thy ===== *)
theory L3Queue
  imports Options "HOL-Library.Multiset"
begin

text \<open>
  The per-process queue of operations for L3 (\<^verbatim>\<open>src/src/l3/queue.js\<close>, class \<^verbatim>\<open>L3Queue\<close>).
  A chain is keyed by \<open>Some key\<close>, or \<open>None\<close> for \<^verbatim>\<open>CLEAR_ID\<close>. A promise is a number, handed out by
  the counter \<open>qNext\<close>; a settle function is the list of the promises it resolves, in order, so
  that a coalesced chain of them is a longer list. The activation of \<^verbatim>\<open>#run\<close> on a chain is the
  await point it stands at (\<open>chRun\<close>) with its local variables; \<open>Idle\<close> is a run between two
  awaits, and \<open>WaitWire\<close> a claimed operation that is not yet on the wire. Each operation below is one
  synchronous run of the code between two awaits; the step relation at the end lets them
  interleave in any order the awaits permit.

  Four fields are logs, which the code does not keep and no operation reads: the operations put on
  the wire, retries included (\<open>qWire\<close>, newest first), the promises settled (\<open>qSettled\<close>), and the operations given to
  the two listeners. \<open>qNewest\<close> is the newest operation accepted that concerns a key.
  A listener that calls back into the queue is not modelled.
\<close>

section \<open>Operations, chains, the queue\<close>

datatype opKind = KSet | KDelete | KClear

record qop =
  oKind :: opKind
  oKey :: jsstr
  oValue :: jsval
  oTtl :: ms
  oWillCache :: bool
  oBytes :: int
  oPid :: nat
  oSup :: "nat list"

datatype qrun =
    Idle
  | WaitGate nat
  | WaitWire "nat list"
  | Sending "nat list" ms nat
  | Backoff "nat list" ms nat

record qchain =
  chPending :: "qop option"
  chInflight :: "qop option"
  chSettle :: "nat list"
  chBusy :: bool
  chRun :: qrun

type_synonym chainId = "jsstr option"

record queue =
  qMaxBytes :: int
  qRetryMs :: ms
  qChains :: "(chainId, qchain) jsmap"
  qBytes :: int
  qCount :: int
  qIdle :: "nat list"
  qClosed :: bool
  qClears :: int
  qGate :: "nat option"
  qGateNext :: nat
  qOnWire :: int
  qWireIdle :: "chainId list"
  qShed :: nat
  qFailed :: nat
  qRetried :: nat
  qCoalesced :: nat
  qNext :: nat
  qWire :: "qop list"
  qSettled :: "(nat \<times> bool) list"
  qDrained :: "nat list"
  qOnError :: "qop list"
  qOnShed :: "qop list"
  qNewest :: "(jsstr, nat) jsmap"
  qLastClear :: "nat option"

definition new_queue :: "int \<Rightarrow> ms \<Rightarrow> queue" where
  "new_queue maxBytes retryMs =
     \<lparr>qMaxBytes = maxBytes, qRetryMs = retryMs, qChains = [], qBytes = 0, qCount = 0, qIdle = [],
      qClosed = False, qClears = 0, qGate = None, qGateNext = 0, qOnWire = 0, qWireIdle = [],
      qShed = 0, qFailed = 0, qRetried = 0, qCoalesced = 0, qNext = 0, qWire = [], qSettled = [],
      qDrained = [], qOnError = [], qOnShed = [], qNewest = [], qLastClear = None\<rparr>"

text \<open>The call an operation makes on the adapter; the origin id is a constant of the process.\<close>

datatype adapterCall =
    CallSet jsstr jsval ms bool
  | CallDelete jsstr
  | CallClear

definition apply_call :: "qop \<Rightarrow> adapterCall" where
  "apply_call op =
     (case oKind op of
        KSet \<Rightarrow> CallSet (oKey op) (oValue op) (oTtl op) (oWillCache op)
      | KDelete \<Rightarrow> CallDelete (oKey op)
      | KClear \<Rightarrow> CallClear)"

definition empty_chain :: qchain where
  "empty_chain = \<lparr>chPending = None, chInflight = None, chSettle = [], chBusy = False, chRun = Idle\<rparr>"

definition get_chain :: "chainId \<Rightarrow> queue \<Rightarrow> qchain" where
  "get_chain i q = (case map_of (qChains q) i of None \<Rightarrow> empty_chain | Some c \<Rightarrow> c)"

definition put_chain :: "chainId \<Rightarrow> qchain \<Rightarrow> queue \<Rightarrow> queue" where
  "put_chain i c q = q\<lparr>qChains := AList.update i c (qChains q)\<rparr>"

definition settle_all :: "nat list \<Rightarrow> bool \<Rightarrow> queue \<Rightarrow> queue" where
  "settle_all ps v q = q\<lparr>qSettled := qSettled q @ List.map (\<lambda>p. (p, v)) ps\<rparr>"

definition pending_count :: "queue \<Rightarrow> int" where
  "pending_count q = qCount q"

definition outstandingKind :: "queue \<Rightarrow> jsstr \<Rightarrow> opKind option" where
  "outstandingKind q key =
     (case map_of (qChains q) (Some key) of
        None \<Rightarrow> None
      | Some chain \<Rightarrow>
          (case chPending chain of
             Some op \<Rightarrow> Some (oKind op)
           | None \<Rightarrow> map_option oKind (chInflight chain)))"

section \<open>The clear gate\<close>

definition armGate :: "queue \<Rightarrow> queue" where
  "armGate q =
     (let q1 = q\<lparr>qClears := qClears q + 1\<rparr>
      in if qGate q1 = None then q1\<lparr>qGate := Some (qGateNext q1), qGateNext := qGateNext q1 + 1\<rparr> else q1)"

definition disarmGate :: "queue \<Rightarrow> queue" where
  "disarmGate q =
     (let q1 = q\<lparr>qClears := qClears q - 1\<rparr>
      in if qClears q1 > 0 then q1 else q1\<lparr>qGate := None\<rparr>)"

section \<open>The pump\<close>

text \<open>
  What \<^verbatim>\<open>#run\<close> does once an operation is off the wire: the lines from \<^verbatim>\<open>if (--this.#onWire === 0)\<close>
  to the end of the loop body.
\<close>

definition finish_op :: "chainId \<Rightarrow> qop \<Rightarrow> nat list \<Rightarrow> bool \<Rightarrow> queue \<Rightarrow> queue" where
  "finish_op i op settle outcome q =
     (let q1 = q\<lparr>qOnWire := qOnWire q - 1\<rparr>;
          q2 = (if qOnWire q1 = 0 then q1\<lparr>qWireIdle := []\<rparr> else q1);
          q3 = q2\<lparr>qBytes := qBytes q2 - oBytes op, qCount := qCount q2 - 1\<rparr>;
          q4 = put_chain i ((get_chain i q3)\<lparr>chInflight := None, chRun := Idle\<rparr>) q3;
          q5 = (if i = None then disarmGate (settle_all (oSup op) outcome q4) else q4);
          q6 = settle_all settle outcome q5
      in if qCount q6 = 0 then q6\<lparr>qIdle := [], qDrained := qDrained q6 @ qIdle q6\<rparr> else q6)"

text \<open>The body of \<^verbatim>\<open>#report\<close>, with the counter that always accompanies it.\<close>

definition abandon :: "qop \<Rightarrow> queue \<Rightarrow> queue" where
  "abandon op q = q\<lparr>qFailed := qFailed q + 1, qOnError := qOnError q @ [op]\<rparr>"

text \<open>
  From \<^verbatim>\<open>this.#onWire++\<close> to the await of the first attempt. \<open>tnow\<close> is what \<^verbatim>\<open>now()\<close> answers,
  \<open>None\<close> when it throws: then the operation is abandoned without a call, and the answer \<open>True\<close>
  says that the loop goes round again.
\<close>

definition put_on_wire :: "chainId \<Rightarrow> qop \<Rightarrow> nat list \<Rightarrow> ms \<Rightarrow> queue \<Rightarrow> queue" where
  "put_on_wire i op settle deadline q =
     (put_chain i ((get_chain i q)\<lparr>chRun := Sending settle deadline 0\<rparr>) q)
       \<lparr>qOnWire := qOnWire q + 1, qWire := op # qWire q\<rparr>"

definition start_op :: "chainId \<Rightarrow> qop \<Rightarrow> nat list \<Rightarrow> ms option \<Rightarrow> queue \<Rightarrow> bool \<times> queue" where
  "start_op i op settle tnow q =
     (case tnow of
        None \<Rightarrow> (True, finish_op i op settle False (abandon op (put_on_wire i op settle 0 q)))
      | Some t \<Rightarrow> (False, put_on_wire i op settle (t + qRetryMs q) q))"

text \<open>The end of \<^verbatim>\<open>#run\<close>: the chain is removed.\<close>

definition end_run :: "chainId \<Rightarrow> queue \<Rightarrow> queue" where
  "end_run i q = q\<lparr>qChains := AList.delete i (qChains q)\<rparr>"

text \<open>Taking the pending operation: it is claimed, and not yet on the wire.\<close>

definition claim :: "chainId \<Rightarrow> qop \<Rightarrow> queue \<Rightarrow> queue" where
  "claim i op q =
     (let c = get_chain i q
      in put_chain i (c\<lparr>chPending := None, chSettle := [], chInflight := Some op,
                       chRun := WaitWire (chSettle c)\<rparr>) q)"

lemma start_op_pending:
  "chPending (get_chain i (snd (start_op i op settle tnow q))) = chPending (get_chain i q)"
  by (auto simp: start_op_def put_on_wire_def finish_op_def put_chain_def get_chain_def settle_all_def abandon_def
      disarmGate_def Let_def split: option.splits)

lemma claim_pending: "chPending (get_chain i (claim i op q)) = None"
  by (simp add: claim_def put_chain_def get_chain_def Let_def)

lemma start_claim_pending:
  "(again, q') = start_op i op settle tnow (claim i op q) \<Longrightarrow> chPending (get_chain i q') = None"
  using start_op_pending [of i op settle tnow "claim i op q"] claim_pending [of i op q]
  by (metis snd_conv)

text \<open>The \<^verbatim>\<open>while\<close> loop of \<^verbatim>\<open>#run\<close>, from its head to the next await or to its end.\<close>

function run_loop :: "chainId \<Rightarrow> ms option \<Rightarrow> queue \<Rightarrow> queue" where
  "run_loop i tnow q =
     (case chPending (get_chain i q) of
        None \<Rightarrow> end_run i q
      | Some op \<Rightarrow>
          if i \<noteq> None \<and> qGate q \<noteq> None then
            put_chain i ((get_chain i q)\<lparr>chRun := WaitGate (the (qGate q))\<rparr>) q
          else
            (let settle = chSettle (get_chain i q);
                 q1 = claim i op q
             in if i = None then
                  (if qOnWire q1 = 0 then q1 else q1\<lparr>qWireIdle := qWireIdle q1 @ [i]\<rparr>)
                else
                  (let (again, q2) = start_op i op settle tnow q1
                   in if again then run_loop i tnow q2 else q2)))"
  by pat_completeness auto
termination
  by (relation "measure (\<lambda>(i, t, q). if chPending (get_chain i q) = None then 0 else 1)")
    (simp_all add: start_claim_pending)

declare run_loop.simps [simp del]

section \<open>The awaits of the pump\<close>

text \<open>The gate a run waits on has been released when it is no longer the current one.\<close>

definition gate_open :: "chainId \<Rightarrow> queue \<Rightarrow> bool" where
  "gate_open i q =
     (case chRun (get_chain i q) of WaitGate g \<Rightarrow> qGate q \<noteq> Some g | _ \<Rightarrow> False)"

definition resume_gate :: "chainId \<Rightarrow> ms option \<Rightarrow> queue \<Rightarrow> queue" where
  "resume_gate i tnow q =
     run_loop i tnow (put_chain i ((get_chain i q)\<lparr>chRun := Idle\<rparr>) q)"

definition wire_open :: "chainId \<Rightarrow> queue \<Rightarrow> bool" where
  "wire_open i q =
     (case chRun (get_chain i q) of WaitWire s \<Rightarrow> i \<notin> set (qWireIdle q) | _ \<Rightarrow> False)"

definition resume_wire :: "chainId \<Rightarrow> ms option \<Rightarrow> queue \<Rightarrow> queue" where
  "resume_wire i tnow q =
     (case (chRun (get_chain i q), chInflight (get_chain i q)) of
        (WaitWire settle, Some op) \<Rightarrow>
          (let (again, q1) = start_op i op settle tnow q
           in if again then run_loop i tnow q1 else q1)
      | _ \<Rightarrow> q)"

text \<open>
  An attempt that resolved, and one that rejected (the adapter threw, rejected, or did not settle
  within the deadline). \<open>tcatch\<close> is \<^verbatim>\<open>now()\<close> in the catch, read only where the two tests before it
  leave the question open; a throw there reaches the outer catch.
\<close>

definition attempt_ok :: "chainId \<Rightarrow> ms option \<Rightarrow> queue \<Rightarrow> queue" where
  "attempt_ok i tnow q =
     (case (chRun (get_chain i q), chInflight (get_chain i q)) of
        (Sending settle deadline attempt, Some op) \<Rightarrow> run_loop i tnow (finish_op i op settle True q)
      | _ \<Rightarrow> q)"

definition may_retry :: "bool \<Rightarrow> qop \<Rightarrow> ms \<Rightarrow> ms option \<Rightarrow> bool" where
  "may_retry isClosed op deadline tcatch =
     (\<not> isClosed \<and> (oKind op = KClear \<or> (case tcatch of None \<Rightarrow> False | Some t \<Rightarrow> t < deadline)))"

definition attempt_fail :: "chainId \<Rightarrow> ms option \<Rightarrow> ms option \<Rightarrow> queue \<Rightarrow> queue" where
  "attempt_fail i tcatch tnow q =
     (case (chRun (get_chain i q), chInflight (get_chain i q)) of
        (Sending settle deadline attempt, Some op) \<Rightarrow>
          if may_retry (qClosed q) op deadline tcatch
          then put_chain i ((get_chain i q)\<lparr>chRun := Backoff settle deadline attempt\<rparr>)
                 (q\<lparr>qRetried := qRetried q + 1\<rparr>)
          else run_loop i tnow (finish_op i op settle False (abandon op q))
      | _ \<Rightarrow> q)"

definition backoff_delay :: "nat \<Rightarrow> nat" where
  "backoff_delay attempt = min (50 * (attempt + 1)) 200"

definition backoff_fired :: "chainId \<Rightarrow> queue \<Rightarrow> queue" where
  "backoff_fired i q =
     (case (chRun (get_chain i q), chInflight (get_chain i q)) of
        (Backoff settle deadline attempt, Some op) \<Rightarrow>
          (put_chain i ((get_chain i q)\<lparr>chRun := Sending settle deadline (attempt + 1)\<rparr>) q)
            \<lparr>qWire := op # qWire q\<rparr>
      | _ \<Rightarrow> q)"

section \<open>Pushing\<close>

definition drop_one :: "chainId \<Rightarrow> nat list \<times> queue \<Rightarrow> nat list \<times> queue" where
  "drop_one i sq =
     (let (settles, q) = sq; chain = get_chain i q
      in case chPending chain of
           None \<Rightarrow> sq
         | Some op \<Rightarrow>
             if i = None then sq
             else (settles @ chSettle chain,
                   put_chain i (chain\<lparr>chPending := None, chSettle := []\<rparr>)
                     (q\<lparr>qBytes := qBytes q - oBytes op, qCount := qCount q - 1,
                        qCoalesced := qCoalesced q + 1\<rparr>)))"

definition dropPending :: "queue \<Rightarrow> nat list \<times> queue" where
  "dropPending q = fold drop_one (jskeys (qChains q)) ([], q)"

text \<open>The clear takes its slot: it waits there, or replaces the clear that did.\<close>

definition clear_slot :: "qop \<Rightarrow> queue \<Rightarrow> qop \<times> queue" where
  "clear_slot op q =
     (let q1 = armGate q; chain = get_chain None q
      in case chPending chain of
           Some prev \<Rightarrow>
             (op\<lparr>oSup := oSup prev\<rparr>,
              put_chain None (chain\<lparr>chPending := Some (op\<lparr>oSup := oSup prev\<rparr>), chSettle := chSettle chain @ [oPid op]\<rparr>)
                (disarmGate (q1\<lparr>qCoalesced := qCoalesced q1 + 1, qBytes := qBytes q1 - oBytes prev + oBytes op\<rparr>)))
         | None \<Rightarrow>
             (op\<lparr>oSup := []\<rparr>,
              put_chain None (chain\<lparr>chPending := Some (op\<lparr>oSup := []\<rparr>), chSettle := [oPid op]\<rparr>)
                (q1\<lparr>qBytes := qBytes q1 + oBytes op, qCount := qCount q1 + 1\<rparr>)))"

definition pushClear :: "qop \<Rightarrow> ms option \<Rightarrow> queue \<Rightarrow> queue" where
  "pushClear op tnow q =
     (let (op1, q2) = clear_slot op (q\<lparr>qNewest := [], qLastClear := Some (oPid op)\<rparr>);
          (settles, q3) = dropPending q2;
          q4 = put_chain None
                 ((get_chain None q3)\<lparr>chPending := Some (op1\<lparr>oSup := oSup op1 @ settles\<rparr>)\<rparr>) q3
      in if \<not> chBusy (get_chain None q4)
         then run_loop None tnow (put_chain None ((get_chain None q4)\<lparr>chBusy := True\<rparr>) q4)
         else q4)"

text \<open>
  \<^verbatim>\<open>push\<close>: the promise of the caller is the number \<open>qNext\<close>. A refused operation is settled
  \<^verbatim>\<open>false\<close> at once, and its listener is \<^verbatim>\<open>onShed\<close>.
\<close>

definition push_key :: "qop \<Rightarrow> ms option \<Rightarrow> queue \<Rightarrow> queue" where
  "push_key op tnow q =
     (if qBytes q + oBytes op > qMaxBytes q then
        settle_all [oPid op] False (q\<lparr>qShed := qShed q + 1, qOnShed := qOnShed q @ [op]\<rparr>)
      else
        (let i = Some (oKey op);
             q0 = q\<lparr>qNewest := AList.update (oKey op) (oPid op) (qNewest q)\<rparr>;
             chain = get_chain i q0
         in case chPending chain of
              Some prev \<Rightarrow>
                put_chain i (chain\<lparr>chPending := Some op, chSettle := chSettle chain @ [oPid op]\<rparr>)
                  (q0\<lparr>qBytes := qBytes q0 - oBytes prev + oBytes op, qCoalesced := qCoalesced q0 + 1\<rparr>)
            | None \<Rightarrow>
                (let chain1 = chain\<lparr>chPending := Some op, chSettle := [oPid op]\<rparr>;
                     q1 = q0\<lparr>qBytes := qBytes q0 + oBytes op, qCount := qCount q0 + 1\<rparr>
                 in if \<not> chBusy chain1
                    then run_loop i tnow (put_chain i (chain1\<lparr>chBusy := True\<rparr>) q1)
                    else put_chain i chain1 q1)))"

definition push :: "qop \<Rightarrow> ms option \<Rightarrow> queue \<Rightarrow> nat \<times> queue" where
  "push op0 tnow q =
     (let op = op0\<lparr>oPid := qNext q, oSup := []\<rparr>;
          q0 = q\<lparr>qNext := qNext q + 1\<rparr>
      in (oPid op, if oKind op = KClear then pushClear op tnow q0 else push_key op tnow q0))"

definition queue_close :: "queue \<Rightarrow> queue" where
  "queue_close q = q\<lparr>qClosed := True\<rparr>"

definition queue_drain :: "nat \<Rightarrow> queue \<Rightarrow> queue" where
  "queue_drain w q = (if qCount q = 0 then q\<lparr>qDrained := qDrained q @ [w]\<rparr> else q\<lparr>qIdle := qIdle q @ [w]\<rparr>)"

section \<open>The step relation\<close>

inductive queue_step :: "queue \<Rightarrow> queue \<Rightarrow> bool" where
  push: "0 \<le> oBytes op \<Longrightarrow> queue_step q (snd (push op tnow q))"
| gate: "gate_open i q \<Longrightarrow> queue_step q (resume_gate i tnow q)"
| wire: "wire_open i q \<Longrightarrow> queue_step q (resume_wire i tnow q)"
| ok: "queue_step q (attempt_ok i tnow q)"
| fail: "queue_step q (attempt_fail i tcatch tnow q)"
| backoff: "queue_step q (backoff_fired i q)"
| close: "queue_step q (queue_close q)"
| drain: "queue_step q (queue_drain w q)"

definition queue_reach :: "int \<Rightarrow> ms \<Rightarrow> queue \<Rightarrow> bool" where
  "queue_reach maxBytes retryMs q = queue_step\<^sup>*\<^sup>* (new_queue maxBytes retryMs) q"

end
