(* ===== verification/L3QueueInv.thy ===== *)
theory L3QueueInv
  imports L3Queue
begin

text \<open>
  The invariant of the L3 queue and what follows from it. \<open>accounts\<close>: the byte counter, the count,
  the number on the wire and the promises still to be settled are the totals of the chains.
\<close>

section \<open>Chains\<close>

lemma get_chain_put [simp]: "get_chain j (put_chain i c q) = (if j = i then c else get_chain j q)"
  by (simp add: get_chain_def put_chain_def)

lemma get_chain_cong: "qChains q = qChains q' \<Longrightarrow> get_chain i q = get_chain i q'"
  by (simp add: get_chain_def)

lemma get_chain_frame [simp]:
  "get_chain i (q\<lparr>qBytes := b\<rparr>) = get_chain i q"
  "get_chain i (q\<lparr>qCount := b\<rparr>) = get_chain i q"
  "get_chain i (q\<lparr>qIdle := w\<rparr>) = get_chain i q"
  "get_chain i (q\<lparr>qClosed := e\<rparr>) = get_chain i q"
  "get_chain i (q\<lparr>qClears := b\<rparr>) = get_chain i q"
  "get_chain i (q\<lparr>qGate := g\<rparr>) = get_chain i q"
  "get_chain i (q\<lparr>qGateNext := n\<rparr>) = get_chain i q"
  "get_chain i (q\<lparr>qOnWire := b\<rparr>) = get_chain i q"
  "get_chain i (q\<lparr>qWireIdle := wi\<rparr>) = get_chain i q"
  "get_chain i (q\<lparr>qShed := n\<rparr>) = get_chain i q"
  "get_chain i (q\<lparr>qFailed := n\<rparr>) = get_chain i q"
  "get_chain i (q\<lparr>qRetried := n\<rparr>) = get_chain i q"
  "get_chain i (q\<lparr>qCoalesced := n\<rparr>) = get_chain i q"
  "get_chain i (q\<lparr>qNext := n\<rparr>) = get_chain i q"
  "get_chain i (q\<lparr>qWire := l\<rparr>) = get_chain i q"
  "get_chain i (q\<lparr>qSettled := sl\<rparr>) = get_chain i q"
  "get_chain i (q\<lparr>qDrained := w\<rparr>) = get_chain i q"
  "get_chain i (q\<lparr>qOnError := l\<rparr>) = get_chain i q"
  "get_chain i (q\<lparr>qOnShed := l\<rparr>) = get_chain i q"
  "get_chain i (q\<lparr>qNewest := nw\<rparr>) = get_chain i q"
  "get_chain i (q\<lparr>qLastClear := lc\<rparr>) = get_chain i q"
  by (simp_all add: get_chain_def)

lemma put_chain_frame [simp]:
  "qMaxBytes (put_chain i c q) = qMaxBytes q" "qRetryMs (put_chain i c q) = qRetryMs q"
  "qBytes (put_chain i c q) = qBytes q" "qCount (put_chain i c q) = qCount q"
  "qIdle (put_chain i c q) = qIdle q" "qClosed (put_chain i c q) = qClosed q"
  "qClears (put_chain i c q) = qClears q" "qGate (put_chain i c q) = qGate q"
  "qGateNext (put_chain i c q) = qGateNext q" "qOnWire (put_chain i c q) = qOnWire q"
  "qWireIdle (put_chain i c q) = qWireIdle q" "qNext (put_chain i c q) = qNext q"
  "qWire (put_chain i c q) = qWire q" "qSettled (put_chain i c q) = qSettled q"
  "qDrained (put_chain i c q) = qDrained q" "qNewest (put_chain i c q) = qNewest q"
  "qLastClear (put_chain i c q) = qLastClear q" "qShed (put_chain i c q) = qShed q"
  "qFailed (put_chain i c q) = qFailed q" "qRetried (put_chain i c q) = qRetried q"
  "qCoalesced (put_chain i c q) = qCoalesced q" "qOnError (put_chain i c q) = qOnError q"
  "qOnShed (put_chain i c q) = qOnShed q"
  by (simp_all add: put_chain_def)

definition chOps :: "qchain \<Rightarrow> qop list" where
  "chOps c = (case chPending c of None \<Rightarrow> [] | Some op \<Rightarrow> [op]) @
             (case chInflight c of None \<Rightarrow> [] | Some op \<Rightarrow> [op])"

fun run_settle :: "qrun \<Rightarrow> nat list" where
  "run_settle (WaitWire s) = s"
| "run_settle (Sending s d a) = s"
| "run_settle (Backoff s d a) = s"
| "run_settle _ = []"

fun on_wire :: "qrun \<Rightarrow> bool" where
  "on_wire (Sending s d a) = True"
| "on_wire (Backoff s d a) = True"
| "on_wire _ = False"

definition chBytes :: "qchain \<Rightarrow> int" where
  "chBytes c = sum_list (List.map oBytes (chOps c))"

definition chCount :: "qchain \<Rightarrow> int" where
  "chCount c = int (length (chOps c))"

definition chWire :: "qchain \<Rightarrow> int" where
  "chWire c = (if on_wire (chRun c) then 1 else 0)"

definition chHeld :: "qchain \<Rightarrow> nat multiset" where
  "chHeld c = mset (chSettle c) + mset (run_settle (chRun c)) + mset (concat (List.map oSup (chOps c)))"

lemma empty_chain_totals [simp]:
  "chOps empty_chain = []" "chBytes empty_chain = 0" "chCount empty_chain = 0"
  "chWire empty_chain = 0" "chHeld empty_chain = {#}"
  by (simp_all add: chOps_def chBytes_def chCount_def chWire_def chHeld_def empty_chain_def)

lemmas chain_totals = chOps_def chBytes_def chCount_def chWire_def chHeld_def

definition qsum :: "(qchain \<Rightarrow> 'b::comm_monoid_add) \<Rightarrow> queue \<Rightarrow> 'b" where
  "qsum f q = wsum f (qChains q)"

lemma qsum_put:
  assumes "wf_map (qChains q)" "f empty_chain = 0"
  shows "qsum f (put_chain i c q) + f (get_chain i q) = qsum f q + f c"
  using wsum_update [OF assms(1), of f i c] assms(2)
  by (cases "map_of (qChains q) i") (simp_all add: qsum_def put_chain_def get_chain_def)

lemma qsum_put_int:
  assumes "wf_map (qChains q)" "f empty_chain = 0"
  shows "qsum f (put_chain i c q) = qsum f q + f c - (f (get_chain i q) :: int)"
  using qsum_put [of q f i c, OF assms] by simp

lemma qsum_put_same:
  assumes "wf_map (qChains q)" "f empty_chain = 0" "f c = (f (get_chain i q) :: 'b::cancel_comm_monoid_add)"
  shows "qsum f (put_chain i c q) = qsum f q"
  using qsum_put [of q f i c, OF assms(1,2)] assms(3) by simp

lemma qsum_cong: "qChains q = qChains q' \<Longrightarrow> qsum f q = qsum f q'"
  by (simp add: qsum_def)

lemma qsum_end:
  assumes "wf_map (qChains q)" "f empty_chain = 0" "f (get_chain i q) = (0 :: 'b::cancel_comm_monoid_add)"
  shows "qsum f (end_run i q) = qsum f q"
  using wsum_delete [OF assms(1), of f i] assms(2,3)
  by (cases "map_of (qChains q) i") (simp_all add: qsum_def end_run_def get_chain_def)

lemma get_chain_end [simp]: "get_chain j (end_run i q) = (if j = i then empty_chain else get_chain j q)"
  by (simp add: get_chain_def end_run_def)

section \<open>The accounts\<close>

text \<open>\<open>es\<close> are promises in the hands of the code between two awaits, empty at every await.\<close>

definition accounts :: "nat multiset \<Rightarrow> queue \<Rightarrow> bool" where
  "accounts es q \<longleftrightarrow>
     wf_map (qChains q) \<and>
     qBytes q = qsum chBytes q \<and> qCount q = qsum chCount q \<and> qOnWire q = qsum chWire q \<and>
     mset (List.map fst (qSettled q)) + qsum chHeld q + es = mset [0..<qNext q]"

lemma accounts_put:
  assumes "accounts es q" "qChains q' = qChains (put_chain i c q)"
    and "qBytes q' = qBytes q + chBytes c - chBytes (get_chain i q)"
    and "qCount q' = qCount q + chCount c - chCount (get_chain i q)"
    and "qOnWire q' = qOnWire q + chWire c - chWire (get_chain i q)"
    and "mset (List.map fst (qSettled q')) + chHeld c + es' + mset [0..<qNext q] =
         mset (List.map fst (qSettled q)) + chHeld (get_chain i q) + es + mset [0..<qNext q']"
  shows "accounts es' q'"
proof -
  have w: "wf_map (qChains q)" using assms(1) by (simp add: accounts_def)
  have sum: "qsum f q' = qsum f (put_chain i c q)" for f :: "qchain \<Rightarrow> int"
    using assms(2) by (rule qsum_cong)
  have h: "qsum chHeld q' + chHeld (get_chain i q) = qsum chHeld q + chHeld c"
    using qsum_put [of q chHeld i c] w qsum_cong [OF assms(2), of chHeld] by simp
  have "mset (List.map fst (qSettled q')) + qsum chHeld q' + es' +
          (chHeld (get_chain i q) + mset [0..<qNext q]) =
        (mset (List.map fst (qSettled q')) + chHeld c + es' + mset [0..<qNext q]) + qsum chHeld q"
    using h by (simp add: ac_simps)
  also have "\<dots> = mset [0..<qNext q'] + (chHeld (get_chain i q) + mset [0..<qNext q])"
    using assms(1,6) by (simp add: accounts_def ac_simps)
  finally have "mset (List.map fst (qSettled q')) + qsum chHeld q' + es' = mset [0..<qNext q']"
    by (rule add_right_imp_eq)
  moreover have "wf_map (qChains q')" using w assms(2) by (simp add: put_chain_def)
  ultimately show ?thesis
    using assms(1,3,4,5) w by (simp add: accounts_def sum qsum_put_int)
qed

lemma fst_pair_const [simp]: "fst \<circ> (\<lambda>p. (p, v)) = id"
  by auto

lemma accounts_frame:
  assumes "accounts es q" "qChains q' = qChains q" "qBytes q' = qBytes q" "qCount q' = qCount q"
    "qOnWire q' = qOnWire q" "qSettled q' = qSettled q" "qNext q' = qNext q"
  shows "accounts es q'"
  using assms qsum_cong [OF assms(2), of chBytes] qsum_cong [OF assms(2), of chCount]
    qsum_cong [OF assms(2), of chWire] qsum_cong [OF assms(2), of chHeld]
  by (simp add: accounts_def)

lemma gate_frame [frame_simps, simp]:
  "qChains (armGate q) = qChains q" "qBytes (armGate q) = qBytes q" "qCount (armGate q) = qCount q"
  "qOnWire (armGate q) = qOnWire q" "qSettled (armGate q) = qSettled q" "qNext (armGate q) = qNext q"
  "qWire (armGate q) = qWire q" "qNewest (armGate q) = qNewest q" "qLastClear (armGate q) = qLastClear q"
  "qWireIdle (armGate q) = qWireIdle q" "qMaxBytes (armGate q) = qMaxBytes q" "qIdle (armGate q) = qIdle q"
  "qChains (disarmGate q) = qChains q" "qBytes (disarmGate q) = qBytes q" "qCount (disarmGate q) = qCount q"
  "qOnWire (disarmGate q) = qOnWire q" "qSettled (disarmGate q) = qSettled q" "qNext (disarmGate q) = qNext q"
  "qWire (disarmGate q) = qWire q" "qNewest (disarmGate q) = qNewest q" "qLastClear (disarmGate q) = qLastClear q"
  "qWireIdle (disarmGate q) = qWireIdle q" "qMaxBytes (disarmGate q) = qMaxBytes q" "qIdle (disarmGate q) = qIdle q"
  "get_chain i (armGate q) = get_chain i q" "get_chain i (disarmGate q) = get_chain i q"
  by (simp_all add: armGate_def disarmGate_def Let_def get_chain_def)

lemma claim_accounts:
  assumes "accounts es q" "chPending (get_chain i q) = Some op" "chInflight (get_chain i q) = None"
    "run_settle (chRun (get_chain i q)) = []" "\<not> on_wire (chRun (get_chain i q))"
  shows "accounts es (claim i op q)"
  using assms(2-)
  by (intro accounts_put [OF assms(1), where i = i and
        c = "(get_chain i q)\<lparr>chPending := None, chSettle := [], chInflight := Some op,
               chRun := WaitWire (chSettle (get_chain i q))\<rparr>"])
    (auto simp: claim_def Let_def put_chain_def chain_totals)

lemma put_on_wire_accounts:
  assumes "accounts es q" "chRun (get_chain i q) = WaitWire settle"
  shows "accounts es (put_on_wire i op settle d q)"
  using assms(2)
  by (intro accounts_put [OF assms(1), where i = i and c = "(get_chain i q)\<lparr>chRun := Sending settle d 0\<rparr>"])
    (auto simp: put_on_wire_def put_chain_def chain_totals)

lemma finish_op_chains:
  "qChains (finish_op i op settle v q) = qChains (put_chain i ((get_chain i q)\<lparr>chInflight := None, chRun := Idle\<rparr>) q)"
  by (simp add: finish_op_def Let_def settle_all_def put_chain_def disarmGate_def get_chain_def)

lemma finish_op_fields:
  "qBytes (finish_op i op settle v q) = qBytes q - oBytes op"
  "qCount (finish_op i op settle v q) = qCount q - 1"
  "qOnWire (finish_op i op settle v q) = qOnWire q - 1"
  "qNext (finish_op i op settle v q) = qNext q"
  "qSettled (finish_op i op settle v q) =
     qSettled q @ (if i = None then List.map (\<lambda>p. (p, v)) (oSup op) else []) @ List.map (\<lambda>p. (p, v)) settle"
  "qWire (finish_op i op settle v q) = qWire q"
  "qNewest (finish_op i op settle v q) = qNewest q"
  "qLastClear (finish_op i op settle v q) = qLastClear q"
  "qMaxBytes (finish_op i op settle v q) = qMaxBytes q"
  by (simp_all add: finish_op_def Let_def settle_all_def put_chain_def disarmGate_def)

lemma finish_op_accounts:
  assumes "accounts es q" "chInflight (get_chain i q) = Some op"
    "on_wire (chRun (get_chain i q))" "run_settle (chRun (get_chain i q)) = settle"
    "i \<noteq> None \<Longrightarrow> oSup op = []"
  shows "accounts es (finish_op i op settle v q)"
  using assms(2-)
  by (intro accounts_put [OF assms(1) finish_op_chains])
    (auto simp: finish_op_fields chain_totals split: option.splits simp del: mset_map)

lemma end_run_accounts:
  assumes "accounts es q" "chPending (get_chain i q) = None" "chInflight (get_chain i q) = None"
    "chSettle (get_chain i q) = []" "chRun (get_chain i q) = Idle"
  shows "accounts es (end_run i q)"
proof -
  have z: "chBytes (get_chain i q) = 0" "chCount (get_chain i q) = 0" "chWire (get_chain i q) = 0"
    "chHeld (get_chain i q) = {#}"
    using assms(2-) by (simp_all add: chain_totals)
  have w: "wf_map (qChains q)" using assms(1) by (simp add: accounts_def)
  have "qsum chBytes (end_run i q) = qsum chBytes q" "qsum chCount (end_run i q) = qsum chCount q"
    "qsum chWire (end_run i q) = qsum chWire q" "qsum chHeld (end_run i q) = qsum chHeld q"
    using w z by (auto intro!: qsum_end)
  then show ?thesis using assms(1) by (simp add: accounts_def) (simp add: end_run_def)
qed

lemma set_run_accounts:
  assumes "accounts es q" "run_settle r = run_settle (chRun (get_chain i q))"
    "on_wire r = on_wire (chRun (get_chain i q))"
  shows "accounts es (put_chain i ((get_chain i q)\<lparr>chRun := r\<rparr>) q)"
  using assms(2-)
  by (intro accounts_put [OF assms(1) refl]) (auto simp: chain_totals)

section \<open>The chains, the gate and the wire\<close>

definition is_gate :: "qrun \<Rightarrow> bool" where
  "is_gate r = (case r of WaitGate _ \<Rightarrow> True | _ \<Rightarrow> False)"

definition is_claimed :: "qrun \<Rightarrow> bool" where
  "is_claimed r = (case r of WaitWire _ \<Rightarrow> True | _ \<Rightarrow> False)"

lemma run_kind_simps [simp]:
  "is_gate (WaitGate g)" "\<not> is_gate Idle" "\<not> is_gate (WaitWire s)" "\<not> is_gate (Sending s d a)"
  "\<not> is_gate (Backoff s d a)" "is_claimed (WaitWire s)" "\<not> is_claimed Idle"
  "\<not> is_claimed (WaitGate g)" "\<not> is_claimed (Sending s d a)" "\<not> is_claimed (Backoff s d a)"
  by (simp_all add: is_gate_def is_claimed_def)

definition op_ok :: "chainId \<Rightarrow> qop \<Rightarrow> bool" where
  "op_ok i op \<longleftrightarrow>
     (oKind op = KClear \<longleftrightarrow> i = None) \<and> (\<forall>k. i = Some k \<longrightarrow> oKey op = k \<and> oSup op = []) \<and> 0 \<le> oBytes op"

definition chain_ok :: "chainId \<Rightarrow> qchain \<Rightarrow> bool" where
  "chain_ok i c \<longleftrightarrow>
     (chPending c = None \<longrightarrow> chSettle c = []) \<and> list_all (op_ok i) (chOps c) \<and>
     (chInflight c = None \<longleftrightarrow> chRun c = Idle \<or> is_gate (chRun c))"

definition await_ok :: "chainId \<Rightarrow> qchain \<Rightarrow> bool" where
  "await_ok i c \<longleftrightarrow>
     chBusy c \<and> chRun c \<noteq> Idle \<and> (is_gate (chRun c) \<longrightarrow> i \<noteq> None) \<and> (is_claimed (chRun c) \<longrightarrow> i = None)"

definition gates_ok :: "queue \<Rightarrow> bool" where
  "gates_ok q \<longleftrightarrow> qClears q = chCount (get_chain None q) \<and> (qGate q = None \<longleftrightarrow> qClears q = 0)"

definition wires_ok :: "queue \<Rightarrow> bool" where
  "wires_ok q \<longleftrightarrow>
     (on_wire (chRun (get_chain None q)) \<longrightarrow> qOnWire q = 1) \<and>
     (is_claimed (chRun (get_chain None q)) \<and> None \<notin> set (qWireIdle q) \<longrightarrow> qOnWire q = 0) \<and>
     set (qWireIdle q) \<subseteq> {None} \<and>
     (qWireIdle q \<noteq> [] \<longrightarrow> qOnWire q > 0 \<and> is_claimed (chRun (get_chain None q)))"

definition bound_ok :: "queue \<Rightarrow> bool" where
  "bound_ok q \<longleftrightarrow>
     qBytes q \<le> qMaxBytes q + chBytes (get_chain None q) \<and> (qIdle q \<noteq> [] \<longrightarrow> qCount q \<noteq> 0)"

definition base :: "chainId set \<Rightarrow> nat multiset \<Rightarrow> queue \<Rightarrow> bool" where
  "base ex es q \<longleftrightarrow>
     accounts es q \<and> (\<forall>i. chain_ok i (get_chain i q)) \<and>
     (\<forall>i. i \<notin> ex \<longrightarrow> get_chain i q = empty_chain \<or> await_ok i (get_chain i q)) \<and>
     gates_ok q \<and> wires_ok q \<and> bound_ok q"

lemma empty_chain_simps [simp]:
  "chPending empty_chain = None" "chInflight empty_chain = None" "chSettle empty_chain = []"
  "chBusy empty_chain = False" "chRun empty_chain = Idle"
  by (simp_all add: empty_chain_def)

lemma chain_ok_empty [simp]: "chain_ok i empty_chain"
  by (simp add: chain_ok_def)

lemma not_await_empty [simp]: "\<not> await_ok i empty_chain"
  by (simp add: await_ok_def)

lemma chWire_nonneg [simp]: "0 \<le> chWire c"
  by (simp add: chWire_def)

lemma chCount_nonneg [simp]: "0 \<le> chCount c"
  by (simp add: chCount_def)

lemma chCount_zero_iff: "chCount c = 0 \<longleftrightarrow> chPending c = None \<and> chInflight c = None"
  by (auto simp: chain_totals split: option.splits)

lemma get_chain_mem: "get_chain i q \<noteq> empty_chain \<Longrightarrow> (i, get_chain i q) \<in> set (qChains q)"
  by (auto simp: get_chain_def map_of_SomeD split: option.splits)

lemma chWire_le_onWire:
  assumes "accounts es q"
  shows "chWire (get_chain i q) \<le> qOnWire q" "0 \<le> qOnWire q"
proof -
  show nn: "0 \<le> qOnWire q" using assms by (auto simp: accounts_def qsum_def intro: wsum_nonneg)
  show "chWire (get_chain i q) \<le> qOnWire q"
  proof (cases "get_chain i q = empty_chain")
    case False
    then show ?thesis
      using wsum_mem_le [OF get_chain_mem [OF False], of chWire] assms by (simp add: accounts_def qsum_def)
  qed (use nn in simp)
qed

lemma chBytes_nonneg: "chain_ok i c \<Longrightarrow> 0 \<le> chBytes c"
  by (auto simp: chain_ok_def chBytes_def chOps_def op_ok_def split: option.splits)

lemma onWire_zero: "accounts es q \<Longrightarrow> qOnWire q = 0 \<Longrightarrow> \<not> on_wire (chRun (get_chain i q))"
  using chWire_le_onWire(1) [of es q i] by (auto simp: chWire_def split: if_splits)

lemma chain_pos_count: "accounts es q \<Longrightarrow> chCount (get_chain i q) \<le> qCount q"
proof (cases "get_chain i q = empty_chain")
  case False
  moreover assume "accounts es q"
  ultimately show ?thesis
    using wsum_mem_le [OF get_chain_mem [OF False], of chCount] by (simp add: accounts_def qsum_def)
next
  case True
  moreover assume "accounts es q"
  ultimately show ?thesis by (auto simp: accounts_def qsum_def intro: wsum_nonneg)
qed

lemma count_zero: "accounts es q \<Longrightarrow> qCount q = 0 \<Longrightarrow> chCount (get_chain i q) = 0"
  using chain_pos_count [of es q i] chCount_nonneg [of "get_chain i q"] by linarith

lemma count_nonzero: "accounts es q \<Longrightarrow> qCount q \<noteq> 0 \<Longrightarrow> \<exists>i. chCount (get_chain i q) \<noteq> 0"
proof -
  assume a: "accounts es q" "qCount q \<noteq> 0"
  then obtain i c where m: "(i, c) \<in> set (qChains q)" "chCount c \<noteq> 0"
    using wsum_zero_iff [of chCount "qChains q"] by (auto simp: accounts_def qsum_def)
  moreover have "map_of (qChains q) i = Some c" using a m by (auto simp: accounts_def)
  ultimately show ?thesis by (auto simp: get_chain_def intro!: exI [of _ i])
qed

text \<open>Each piece of the pump keeps the invariant.\<close>

lemma base_accounts: "base ex es q \<Longrightarrow> accounts es q"
  and base_chain: "base ex es q \<Longrightarrow> chain_ok i (get_chain i q)"
  and base_await: "base ex es q \<Longrightarrow> i \<notin> ex \<Longrightarrow> get_chain i q = empty_chain \<or> await_ok i (get_chain i q)"
  and base_gates: "base ex es q \<Longrightarrow> gates_ok q"
  and base_wires: "base ex es q \<Longrightarrow> wires_ok q"
  and base_bound: "base ex es q \<Longrightarrow> bound_ok q"
  by (auto simp: base_def)

lemma baseI:
  assumes "accounts es q" "\<And>i. chain_ok i (get_chain i q)"
    "\<And>i. i \<notin> ex \<Longrightarrow> get_chain i q = empty_chain \<or> await_ok i (get_chain i q)"
    "gates_ok q" "wires_ok q" "bound_ok q"
  shows "base ex es q"
  using assms by (simp add: base_def)

lemma base_frame:
  assumes b: "base ex es q" and c: "qChains q' = qChains q"
    and f: "qBytes q' = qBytes q" "qCount q' = qCount q" "qOnWire q' = qOnWire q"
      "qSettled q' = qSettled q" "qNext q' = qNext q"
    and g: "qClears q' = qClears q" "qGate q' = qGate q" "qWireIdle q' = qWireIdle q" "qIdle q' = qIdle q"
      "qMaxBytes q' = qMaxBytes q"
  shows "base ex es q'"
proof (rule baseI)
  have gc: "get_chain i q' = get_chain i q" for i using c by (rule get_chain_cong)
  show "accounts es q'" by (rule accounts_frame [OF base_accounts [OF b] c f])
  show "chain_ok i (get_chain i q')" for i using base_chain [OF b] by (simp add: gc)
  show "get_chain i q' = empty_chain \<or> await_ok i (get_chain i q')" if "i \<notin> ex" for i
    using base_await [OF b that] by (simp add: gc)
  show "gates_ok q'" using base_gates [OF b] g by (simp add: gates_ok_def gc)
  show "wires_ok q'" using base_wires [OF b] f g by (simp add: wires_ok_def gc)
  show "bound_ok q'" using base_bound [OF b] f g by (simp add: bound_ok_def gc)
qed

lemma claim_fields:
  "qBytes (claim i op q) = qBytes q" "qCount (claim i op q) = qCount q" "qOnWire (claim i op q) = qOnWire q"
  "qClears (claim i op q) = qClears q" "qGate (claim i op q) = qGate q" "qWireIdle (claim i op q) = qWireIdle q"
  "qIdle (claim i op q) = qIdle q" "qMaxBytes (claim i op q) = qMaxBytes q" "qWire (claim i op q) = qWire q"
  "qNewest (claim i op q) = qNewest q" "qLastClear (claim i op q) = qLastClear q" "qNext (claim i op q) = qNext q"
  by (simp_all add: claim_def Let_def)

lemma claim_chain:
  "get_chain j (claim i op q) =
     (if j = i then (get_chain i q)\<lparr>chPending := None, chSettle := [], chInflight := Some op,
                                   chRun := WaitWire (chSettle (get_chain i q))\<rparr>
      else get_chain j q)"
  by (simp add: claim_def Let_def)

lemma claim_base:
  assumes b: "base ex es q" and i: "i \<in> ex" "i \<noteq> None" and p: "chPending (get_chain i q) = Some op"
    and r: "chRun (get_chain i q) = Idle" and n: "chInflight (get_chain i q) = None"
  shows "base ex es (claim i op q)"
proof (rule baseI)
  show "accounts es (claim i op q)"
    using base_accounts [OF b] p n by (rule claim_accounts) (simp_all add: r)
  show "chain_ok j (get_chain j (claim i op q))" for j
    using base_chain [OF b, of j] p by (auto simp: claim_chain chain_ok_def chOps_def)
  show "get_chain j (claim i op q) = empty_chain \<or> await_ok j (get_chain j (claim i op q))" if "j \<notin> ex" for j
    using that i base_await [OF b that] by (auto simp: claim_chain)
  show "gates_ok (claim i op q)" using base_gates [OF b] i by (auto simp: gates_ok_def claim_fields claim_chain)
  show "wires_ok (claim i op q)" using base_wires [OF b] i by (auto simp: wires_ok_def claim_fields claim_chain)
  show "bound_ok (claim i op q)" using base_bound [OF b] i by (auto simp: bound_ok_def claim_fields claim_chain)
qed

lemma claim_clear_base:
  assumes b: "base {None} es q" and p: "chPending (get_chain None q) = Some op" and bs: "chBusy (get_chain None q)"
    and r: "chRun (get_chain None q) = Idle" and n: "chInflight (get_chain None q) = None"
    and q': "q' = (if qOnWire (claim None op q) = 0 then claim None op q
                   else (claim None op q)\<lparr>qWireIdle := qWireIdle (claim None op q) @ [None]\<rparr>)"
  shows "base {} es q'"
proof (rule baseI)
  have a: "accounts es (claim None op q)"
    using base_accounts [OF b] p n by (rule claim_accounts) (simp_all add: r)
  show "accounts es q'" by (rule accounts_frame [OF a]) (simp_all add: q')
  have g: "get_chain j q' = get_chain j (claim None op q)" for j by (simp add: q')
  show "chain_ok j (get_chain j q')" for j
    using base_chain [OF b, of j] p by (auto simp: g claim_chain chain_ok_def chOps_def)
  show "get_chain j q' = empty_chain \<or> await_ok j (get_chain j q')" for j
    using base_await [OF b, of j] bs by (auto simp: g claim_chain await_ok_def)
  show "gates_ok q'"
    using base_gates [OF b] p n by (auto simp: gates_ok_def q' claim_fields claim_chain chCount_def chOps_def)
  have "qWireIdle q = []" using base_wires [OF b] r by (auto simp: wires_ok_def)
  moreover have "0 \<le> qOnWire q" using chWire_le_onWire(2) [OF base_accounts [OF b]] .
  ultimately show "wires_ok q'" by (auto simp: wires_ok_def q' claim_fields claim_chain)
  show "bound_ok q'"
    using base_bound [OF b] p n by (auto simp: bound_ok_def q' claim_fields claim_chain chBytes_def chOps_def)
qed

lemma put_on_wire_fields:
  "qBytes (put_on_wire i op st d q) = qBytes q" "qCount (put_on_wire i op st d q) = qCount q"
  "qOnWire (put_on_wire i op st d q) = qOnWire q + 1" "qClears (put_on_wire i op st d q) = qClears q"
  "qGate (put_on_wire i op st d q) = qGate q" "qWireIdle (put_on_wire i op st d q) = qWireIdle q"
  "qIdle (put_on_wire i op st d q) = qIdle q" "qMaxBytes (put_on_wire i op st d q) = qMaxBytes q"
  "qWire (put_on_wire i op st d q) = op # qWire q" "qNewest (put_on_wire i op st d q) = qNewest q"
  "qLastClear (put_on_wire i op st d q) = qLastClear q" "qNext (put_on_wire i op st d q) = qNext q"
  by (simp_all add: put_on_wire_def)

lemma put_on_wire_chain:
  "get_chain j (put_on_wire i op st d q) =
     (if j = i then (get_chain i q)\<lparr>chRun := Sending st d 0\<rparr> else get_chain j q)"
  by (simp add: put_on_wire_def)

lemma no_clear_run:
  assumes "base ex es q" "qGate q = None"
  shows "chPending (get_chain None q) = None" "chInflight (get_chain None q) = None"
    "\<not> on_wire (chRun (get_chain None q))" "\<not> is_claimed (chRun (get_chain None q))"
proof -
  have "chCount (get_chain None q) = 0" using base_gates [OF assms(1)] assms(2) by (simp add: gates_ok_def)
  then show p: "chPending (get_chain None q) = None" "chInflight (get_chain None q) = None"
    by (simp_all add: chCount_zero_iff)
  then have "chRun (get_chain None q) = Idle \<or> is_gate (chRun (get_chain None q))"
    using base_chain [OF assms(1), of None] by (simp add: chain_ok_def)
  then show "\<not> on_wire (chRun (get_chain None q))" "\<not> is_claimed (chRun (get_chain None q))"
    by (cases "chRun (get_chain None q)"; simp)+
qed

lemma put_on_wire_base:
  assumes b: "base {i} es q" and r: "chRun (get_chain i q) = WaitWire settle" and bs: "chBusy (get_chain i q)"
    and free: "if i = None then qOnWire q = 0 else qGate q = None"
  shows "base {} es (put_on_wire i op settle d q)"
proof (rule baseI)
  note f = put_on_wire_fields put_on_wire_chain
  show "accounts es (put_on_wire i op settle d q)" using base_accounts [OF b] r by (rule put_on_wire_accounts)
  show "chain_ok j (get_chain j (put_on_wire i op settle d q))" for j
    using base_chain [OF b, of j] r by (auto simp: f chain_ok_def chOps_def)
  show "get_chain j (put_on_wire i op settle d q) = empty_chain \<or>
        await_ok j (get_chain j (put_on_wire i op settle d q))" for j
    using base_await [OF b, of j] bs by (auto simp: f await_ok_def)
  show "gates_ok (put_on_wire i op settle d q)"
    using base_gates [OF b] by (auto simp: gates_ok_def f chCount_def chOps_def)
  show "wires_ok (put_on_wire i op settle d q)"
  proof (cases "i = None")
    case True
    then have "qWireIdle q = []" using base_wires [OF b] free by (auto simp: wires_ok_def)
    then show ?thesis using True free by (simp add: wires_ok_def f)
  next
    case False
    then have "\<not> on_wire (chRun (get_chain None q))" "\<not> is_claimed (chRun (get_chain None q))"
      using no_clear_run [OF b] free by simp_all
    then show ?thesis using False base_wires [OF b] by (auto simp: wires_ok_def f)
  qed
  show "bound_ok (put_on_wire i op settle d q)"
    using base_bound [OF b] by (auto simp: bound_ok_def f chBytes_def chOps_def)
qed

lemma finish_op_chain:
  "get_chain j (finish_op i op st v q) =
     (if j = i then (get_chain i q)\<lparr>chInflight := None, chRun := Idle\<rparr> else get_chain j q)"
  using get_chain_cong [OF finish_op_chains, of j i op st v q] by simp

lemma finish_op_gate:
  "qClears (finish_op i op st v q) = (if i = None then qClears q - 1 else qClears q)"
  "qGate (finish_op i op st v q) = (if i = None \<and> qClears q \<le> 1 then None else qGate q)"
  "qWireIdle (finish_op i op st v q) = (if qOnWire q = 1 then [] else qWireIdle q)"
  "qIdle (finish_op i op st v q) = (if qCount q = 1 then [] else qIdle q)"
  by (auto simp: finish_op_def Let_def settle_all_def put_chain_def disarmGate_def)

lemma finish_op_base:
  assumes b: "base ex es q" and i: "i \<in> ex" and p: "chInflight (get_chain i q) = Some op"
    and w: "on_wire (chRun (get_chain i q))" and st: "run_settle (chRun (get_chain i q)) = settle"
  shows "base ex es (finish_op i op settle v q)"
proof (rule baseI)
  note f = finish_op_fields finish_op_chain finish_op_gate
  have ok: "op_ok i op" using base_chain [OF b, of i] p by (simp add: chain_ok_def chOps_def)
  show a: "accounts es (finish_op i op settle v q)"
    using base_accounts [OF b] p w st by (rule finish_op_accounts) (use ok in \<open>auto simp: op_ok_def\<close>)
  show "chain_ok j (get_chain j (finish_op i op settle v q))" for j
    using base_chain [OF b, of j] by (auto simp: f chain_ok_def chOps_def split: option.splits)
  show "get_chain j (finish_op i op settle v q) = empty_chain \<or>
        await_ok j (get_chain j (finish_op i op settle v q))" if "j \<notin> ex" for j
    using that i base_await [OF b that] by (auto simp: f)
  have cnt: "i = None \<Longrightarrow> chCount ((get_chain i q)\<lparr>chInflight := None, chRun := Idle\<rparr>) = chCount (get_chain i q) - 1"
    using p by (auto simp: chain_totals split: option.splits)
  then have "i = None \<Longrightarrow> 1 \<le> chCount (get_chain i q)"
    using chCount_nonneg [of "(get_chain i q)\<lparr>chInflight := None, chRun := Idle\<rparr>"] by simp
  then show "gates_ok (finish_op i op settle v q)"
    using base_gates [OF b] cnt by (cases "i = None") (auto simp: gates_ok_def f)
  have one: "1 \<le> qOnWire q" using chWire_le_onWire(1) [OF base_accounts [OF b], of i] w by (simp add: chWire_def)
  show "wires_ok (finish_op i op settle v q)"
  proof (cases "i = None")
    case True
    have "qOnWire q = 1" "\<not> is_claimed (chRun (get_chain None q))"
      using base_wires [OF b] w True by (auto simp: wires_ok_def is_claimed_def split: qrun.splits)
    then show ?thesis using True by (simp add: wires_ok_def f)
  next
    case False
    have "chWire (get_chain None q) \<le> qOnWire q - 1"
      using chWire_le_onWire(1) [OF a, of None] False by (simp add: f)
    then have "\<not> on_wire (chRun (get_chain None q))"
      using base_wires [OF b] by (auto simp: wires_ok_def chWire_def)
    then show ?thesis using False base_wires [OF b] one by (auto simp: wires_ok_def f)
  qed
  have "0 \<le> oBytes op" using ok by (simp add: op_ok_def)
  moreover have "chBytes ((get_chain i q)\<lparr>chInflight := None, chRun := Idle\<rparr>) = chBytes (get_chain i q) - oBytes op"
    using p by (auto simp: chain_totals split: option.splits)
  ultimately show "bound_ok (finish_op i op settle v q)"
    using base_bound [OF b] by (cases "i = None") (auto simp: bound_ok_def f)
qed

lemma end_run_fields:
  "qBytes (end_run i q) = qBytes q" "qCount (end_run i q) = qCount q" "qOnWire (end_run i q) = qOnWire q"
  "qClears (end_run i q) = qClears q" "qGate (end_run i q) = qGate q" "qWireIdle (end_run i q) = qWireIdle q"
  "qIdle (end_run i q) = qIdle q" "qMaxBytes (end_run i q) = qMaxBytes q" "qWire (end_run i q) = qWire q"
  "qNewest (end_run i q) = qNewest q" "qLastClear (end_run i q) = qLastClear q" "qNext (end_run i q) = qNext q"
  "qSettled (end_run i q) = qSettled q"
  by (simp_all add: end_run_def)

lemma end_run_base:
  assumes b: "base {i} es q" and p: "chPending (get_chain i q) = None"
    and r: "chRun (get_chain i q) = Idle" and n: "chInflight (get_chain i q) = None"
  shows "base {} es (end_run i q)"
proof (rule baseI)
  have st: "chSettle (get_chain i q) = []" using base_chain [OF b, of i] p by (simp add: chain_ok_def)
  show "accounts es (end_run i q)" by (rule end_run_accounts [OF base_accounts [OF b] p n st r])
  show "chain_ok j (get_chain j (end_run i q))" for j using base_chain [OF b, of j] by simp
  show "get_chain j (end_run i q) = empty_chain \<or> await_ok j (get_chain j (end_run i q))" for j
    using base_await [OF b, of j] by simp
  have z: "chCount (get_chain i q) = 0" "chBytes (get_chain i q) = 0"
    using p n by (simp_all add: chain_totals)
  show "gates_ok (end_run i q)" using base_gates [OF b] z by (auto simp: gates_ok_def end_run_fields)
  show "wires_ok (end_run i q)" using base_wires [OF b] r by (auto simp: wires_ok_def end_run_fields)
  show "bound_ok (end_run i q)" using base_bound [OF b] z by (auto simp: bound_ok_def end_run_fields)
qed

lemma set_run_base:
  assumes b: "base ex es q" and k: "i = Some k"
    and r: "chInflight (get_chain i q) = None" "run = Idle \<or> is_gate run" 
    and ex: "run = Idle \<and> i \<in> ex' \<or> is_gate run \<and> chBusy (get_chain i q)" "ex \<subseteq> insert i ex'"
  shows "base ex' es (put_chain i ((get_chain i q)\<lparr>chRun := run\<rparr>) q)"
proof (rule baseI)
  have r0: "chRun (get_chain i q) = Idle \<or> is_gate (chRun (get_chain i q))"
    using base_chain [OF b, of i] r by (simp add: chain_ok_def)
  show "accounts es (put_chain i ((get_chain i q)\<lparr>chRun := run\<rparr>) q)"
    using base_accounts [OF b] r0 r(2)
    by (intro set_run_accounts) (auto simp: is_gate_def split: qrun.splits)
  show "chain_ok j (get_chain j (put_chain i ((get_chain i q)\<lparr>chRun := run\<rparr>) q))" for j
    using base_chain [OF b, of j] r by (auto simp: chain_ok_def chOps_def)
  show "get_chain j (put_chain i ((get_chain i q)\<lparr>chRun := run\<rparr>) q) = empty_chain \<or>
        await_ok j (get_chain j (put_chain i ((get_chain i q)\<lparr>chRun := run\<rparr>) q))" if "j \<notin> ex'" for j
  proof (cases "j = i")
    case True
    then have "is_gate run" "chBusy (get_chain i q)" using that ex(1) by auto
    then show ?thesis using True k by (auto simp: await_ok_def is_gate_def split: qrun.splits)
  next
    case False
    then show ?thesis using that ex(2) base_await [OF b, of j] by auto
  qed
  show "gates_ok (put_chain i ((get_chain i q)\<lparr>chRun := run\<rparr>) q)"
    using base_gates [OF b] k by (simp add: gates_ok_def)
  show "wires_ok (put_chain i ((get_chain i q)\<lparr>chRun := run\<rparr>) q)"
    using base_wires [OF b] k by (simp add: wires_ok_def)
  show "bound_ok (put_chain i ((get_chain i q)\<lparr>chRun := run\<rparr>) q)"
    using base_bound [OF b] k by (simp add: bound_ok_def)
qed

text \<open>The loop, from its head.\<close>

definition at_head :: "chainId \<Rightarrow> queue \<Rightarrow> bool" where
  "at_head i q \<longleftrightarrow>
     chRun (get_chain i q) = Idle \<and> chInflight (get_chain i q) = None \<and> chBusy (get_chain i q)"

lemma start_op_base:
  assumes b: "base {i} es q" and r: "chRun (get_chain i q) = WaitWire settle" and bs: "chBusy (get_chain i q)"
    and p: "chInflight (get_chain i q) = Some op"
    and free: "if i = None then qOnWire q = 0 else qGate q = None"
    and e: "start_op i op settle tnow q = (again, q')"
  shows "if again then base {i} es q' \<and> at_head i q' else base {} es q'"
proof -
  have on: "base {} es (put_on_wire i op settle d q)" for d
    by (rule put_on_wire_base [OF b r bs free])
  show ?thesis
  proof (cases tnow)
    case (Some t)
    then show ?thesis using on e by (auto simp: start_op_def)
  next
    case None
    let ?a = "abandon op (put_on_wire i op settle 0 q)"
    have "base {i} es ?a"
      using base_frame [OF on [of 0], of ?a] by (auto simp: abandon_def base_def)
    moreover have "chInflight (get_chain i ?a) = Some op" "chRun (get_chain i ?a) = Sending settle 0 0"
      "chBusy (get_chain i ?a)"
      using p bs by (simp_all add: abandon_def put_on_wire_chain)
    ultimately have "base {i} es (finish_op i op settle False ?a)" "at_head i (finish_op i op settle False ?a)"
      by (auto intro: finish_op_base simp: at_head_def finish_op_chain)
    then show ?thesis using None e by (auto simp: start_op_def)
  qed
qed

lemma run_loop_key:
  assumes "chPending (get_chain i q) = Some op" "i \<noteq> None" "qGate q = None"
  shows "run_loop i tnow q =
           (let (again, q2) = start_op i op (chSettle (get_chain i q)) tnow (claim i op q)
            in if again then run_loop i tnow q2 else q2)"
  using assms by (subst run_loop.simps) (auto simp: Let_def)

lemma run_loop_clear:
  assumes "chPending (get_chain None q) = Some op"
  shows "run_loop None tnow q =
           (if qOnWire (claim None op q) = 0 then claim None op q
            else (claim None op q)\<lparr>qWireIdle := qWireIdle (claim None op q) @ [None]\<rparr>)"
  using assms by (subst run_loop.simps) (simp add: Let_def)

lemma run_loop_gate:
  assumes "chPending (get_chain i q) = Some op" "i \<noteq> None" "qGate q = Some g"
  shows "run_loop i tnow q = put_chain i ((get_chain i q)\<lparr>chRun := WaitGate g\<rparr>) q"
  using assms by (subst run_loop.simps) auto

lemma run_loop_end: "chPending (get_chain i q) = None \<Longrightarrow> run_loop i tnow q = end_run i q"
  by (subst run_loop.simps) simp

lemma run_loop_base:
  "base {i} es q \<Longrightarrow> at_head i q \<Longrightarrow> base {} es (run_loop i tnow q)"
proof (induction i tnow q rule: run_loop.induct)
  case (1 i tnow q)
  note b = 1(2)
  have h: "chRun (get_chain i q) = Idle" "chInflight (get_chain i q) = None" "chBusy (get_chain i q)"
    using 1(3) by (simp_all add: at_head_def)
  consider (fin) "chPending (get_chain i q) = None"
    | (clear) op where "chPending (get_chain i q) = Some op" "i = None"
    | (wait) op g where "chPending (get_chain i q) = Some op" "i \<noteq> None" "qGate q = Some g"
    | (key) op where "chPending (get_chain i q) = Some op" "i \<noteq> None" "qGate q = None"
    by (cases "chPending (get_chain i q)"; cases "qGate q"; cases "i = None") auto
  then show ?case
  proof cases
    case fin
    then show ?thesis using end_run_base [OF b fin h(1,2)] by (simp add: run_loop_end)
  next
    case clear
    then show ?thesis using claim_clear_base [OF _ _ _ _ _ refl] b h run_loop_clear by simp
  next
    case wait
    then obtain k where k: "i = Some k" by auto
    show ?thesis
      using set_run_base [OF b k, of "WaitGate g" "{}"] h run_loop_gate [OF wait] by simp
  next
    case (key op)
    let ?c = "claim i op q" and ?st = "chSettle (get_chain i q)"
    have bc: "base {i} es ?c" by (rule claim_base [OF b _ key(2,1) h(1,2)]) simp
    have rc: "chRun (get_chain i ?c) = WaitWire ?st" "chBusy (get_chain i ?c)"
      "chInflight (get_chain i ?c) = Some op" using h by (simp_all add: claim_chain)
    have fr: "if i = None then qOnWire ?c = 0 else qGate ?c = None" using key(2,3) by (auto simp: claim_fields)
    obtain again q' where e: "start_op i op ?st tnow ?c = (again, q')" by force
    note s = start_op_base [OF bc rc fr e]
    have g: "\<not> (i \<noteq> None \<and> qGate q \<noteq> None)" using key by simp
    show ?thesis
    proof (cases again)
      case True
      then have "base {} es (run_loop i tnow q')"
        using 1(1) [OF key(1) g refl refl key(2) e [symmetric] refl True] s by simp
      then show ?thesis using run_loop_key [OF key] e True by simp
    next
      case False
      then show ?thesis using run_loop_key [OF key] e s by simp
    qed
  qed
qed

section \<open>The operations\<close>

lemma attempt_end_base:
  assumes b: "base {} {#} q" and r: "chRun (get_chain i q) = Sending settle d a"
    and p: "chInflight (get_chain i q) = Some op"
  shows "base {} {#} (run_loop i tnow (finish_op i op settle v q))"
proof (rule run_loop_base)
  have "base {i} {#} q" using b by (auto simp: base_def)
  then show "base {i} {#} (finish_op i op settle v q)" using p r by (intro finish_op_base) auto
  have "get_chain i q \<noteq> empty_chain" using r by auto
  then have "chBusy (get_chain i q)" using base_await [OF b, of i] by (simp add: await_ok_def)
  then show "at_head i (finish_op i op settle v q)" by (simp add: at_head_def finish_op_chain)
qed

lemma abandon_base: "base ex es q \<Longrightarrow> base ex es (abandon op q)"
  by (erule base_frame) (simp_all add: abandon_def)

lemma attempt_ok_base [wf_intros]: "base {} {#} q \<Longrightarrow> base {} {#} (attempt_ok i tnow q)"
  by (auto simp: attempt_ok_def attempt_end_base split: qrun.splits option.splits)

lemma retried_base: "base ex es q \<Longrightarrow> base ex es (q\<lparr>qRetried := n\<rparr>)"
  by (erule base_frame) simp_all

lemma rewire_base:
  assumes b: "base {} es q" and r: "on_wire (chRun (get_chain i q))" "on_wire run"
    and st: "run_settle run = run_settle (chRun (get_chain i q))"
    and q': "q' = put_chain i ((get_chain i q)\<lparr>chRun := run\<rparr>) q \<or>
             q' = (put_chain i ((get_chain i q)\<lparr>chRun := run\<rparr>) q)\<lparr>qWire := l\<rparr>"
  shows "base {} es q'"
proof -
  let ?q = "put_chain i ((get_chain i q)\<lparr>chRun := run\<rparr>) q"
  have nr: "run \<noteq> Idle" "\<not> is_gate run" "\<not> is_claimed run" using r(2) by (cases run; simp)+
  have nr': "chRun (get_chain i q) \<noteq> Idle" "\<not> is_gate (chRun (get_chain i q))"
    "\<not> is_claimed (chRun (get_chain i q))" using r(1) by (cases "chRun (get_chain i q)"; simp)+
  have "base {} es ?q"
  proof (rule baseI)
    show "accounts es ?q" using base_accounts [OF b] r st by (intro set_run_accounts) auto
    show "chain_ok j (get_chain j ?q)" for j
      using base_chain [OF b, of j] nr nr' by (auto simp: chain_ok_def chOps_def)
    have "get_chain i q \<noteq> empty_chain" using nr' by auto
    then show "get_chain j ?q = empty_chain \<or> await_ok j (get_chain j ?q)" for j
      using base_await [OF b, of j] nr by (auto simp: await_ok_def)
    show "gates_ok ?q" using base_gates [OF b] by (auto simp: gates_ok_def chCount_def chOps_def)
    show "wires_ok ?q" using base_wires [OF b] r nr nr' by (auto simp: wires_ok_def)
    show "bound_ok ?q" using base_bound [OF b] by (auto simp: bound_ok_def chBytes_def chOps_def)
  qed
  moreover from this have "base {} es (?q\<lparr>qWire := l\<rparr>)"
    by (rule base_frame) simp_all
  ultimately show ?thesis using q' by auto
qed

lemma attempt_fail_base [wf_intros]:
  assumes b: "base {} {#} q"
  shows "base {} {#} (attempt_fail i tcatch tnow q)"
proof (cases "\<exists>st d a op. chRun (get_chain i q) = Sending st d a \<and> chInflight (get_chain i q) = Some op")
  case False
  then show ?thesis using b by (auto simp: attempt_fail_def split: qrun.splits option.splits)
next
  case True
  then obtain st d a op where r: "chRun (get_chain i q) = Sending st d a" "chInflight (get_chain i q) = Some op"
    by blast
  show ?thesis
  proof (cases "may_retry (qClosed q) op d tcatch")
    case True
    have "base {} {#} (q\<lparr>qRetried := qRetried q + 1\<rparr>)" using b by (simp add: retried_base)
    from rewire_base [OF this, of i "Backoff st d a"] show ?thesis
      using True r by (simp add: attempt_fail_def)
  next
    case False
    have "base {} {#} (abandon op q)" using b by (simp add: abandon_base)
    from attempt_end_base [OF this, of i st d a op tnow False] show ?thesis
      using False r by (simp add: attempt_fail_def) (simp add: abandon_def)
  qed
qed

lemma backoff_fired_base [wf_intros]: "base {} {#} q \<Longrightarrow> base {} {#} (backoff_fired i q)"
  by (auto simp: backoff_fired_def split: qrun.splits option.splits intro!: rewire_base [OF _ _ _ _ disjI2 [OF refl]])

lemma resume_gate_base [wf_intros]:
  assumes b: "base {} {#} q" and g: "gate_open i q"
  shows "base {} {#} (resume_gate i tnow q)"
proof -
  obtain w where w: "chRun (get_chain i q) = WaitGate w" using g by (auto simp: gate_open_def split: qrun.splits)
  then have n: "chInflight (get_chain i q) = None" using base_chain [OF b, of i] by (simp add: chain_ok_def)
  have "get_chain i q \<noteq> empty_chain" using w by auto
  then have a: "chBusy (get_chain i q)" "i \<noteq> None" using base_await [OF b, of i] w by (auto simp: await_ok_def)
  then obtain k where "i = Some k" by auto
  then have "base {i} {#} (put_chain i ((get_chain i q)\<lparr>chRun := Idle\<rparr>) q)"
    using set_run_base [OF b, of i k Idle "{i}"] n by simp
  then show ?thesis unfolding resume_gate_def
    by (rule run_loop_base) (use n a in \<open>simp add: at_head_def\<close>)
qed

lemma resume_wire_base [wf_intros]:
  assumes b: "base {} {#} q" and g: "wire_open i q"
  shows "base {} {#} (resume_wire i tnow q)"
proof -
  obtain st where w: "chRun (get_chain i q) = WaitWire st" "i \<notin> set (qWireIdle q)"
    using g by (auto simp: wire_open_def split: qrun.splits)
  then obtain op where p: "chInflight (get_chain i q) = Some op"
    using base_chain [OF b, of i] by (auto simp: chain_ok_def)
  have "get_chain i q \<noteq> empty_chain" using w by auto
  then have a: "chBusy (get_chain i q)" "i = None" using base_await [OF b, of i] w by (auto simp: await_ok_def)
  have free: "if i = None then qOnWire q = 0 else qGate q = None"
    using base_wires [OF b] w a by (simp add: wires_ok_def)
  have bi: "base {i} {#} q" using b by (auto simp: base_def)
  obtain again q' where e: "start_op i op st tnow q = (again, q')" by force
  show ?thesis
    using start_op_base [OF bi w(1) a(1) p free e] w p e run_loop_base [of i "{#}" q']
    by (auto simp: resume_wire_def split: if_splits)
qed

text \<open>Pushing an operation on a key. The new promise is in hand until the chain holds it.\<close>

lemma base_next:
  assumes "base {} {#} q"
  shows "base {} {#qNext q#} (q\<lparr>qNext := qNext q + 1\<rparr>)"
proof (rule baseI)
  let ?q = "q\<lparr>qNext := qNext q + 1\<rparr>"
  have "qsum f ?q = qsum f q" for f :: "qchain \<Rightarrow> int" by (simp add: qsum_def)
  moreover have "qsum chHeld ?q = qsum chHeld q" by (simp add: qsum_def)
  ultimately show "accounts {#qNext q#} ?q"
    using base_accounts [OF assms] by (simp add: accounts_def atLeastLessThanSuc)
  show "chain_ok i (get_chain i ?q)" for i using base_chain [OF assms] by simp
  show "get_chain i ?q = empty_chain \<or> await_ok i (get_chain i ?q)" for i using base_await [OF assms] by simp
  show "gates_ok ?q" using base_gates [OF assms] by (simp add: gates_ok_def)
  show "wires_ok ?q" using base_wires [OF assms] by (simp add: wires_ok_def)
  show "bound_ok ?q" using base_bound [OF assms] by (simp add: bound_ok_def)
qed

text \<open>Queueing on the chain of a key: the waiting slot is filled, or its operation replaced.\<close>

lemma enqueue_base:
  assumes b: "base {} {#oPid op#} q" and op: "op_ok (Some k) op" and i: "i = Some k"
    and fits: "qBytes q + oBytes op \<le> qMaxBytes q"
    and c: "c = (get_chain i q)\<lparr>chPending := Some op, chSettle := chSettle (get_chain i q) @ [oPid op], chBusy := True\<rparr>"
    and q': "qChains q' = qChains (put_chain i c q)" "qOnWire q' = qOnWire q" "qSettled q' = qSettled q"
      "qNext q' = qNext q" "qClears q' = qClears q" "qGate q' = qGate q" "qWireIdle q' = qWireIdle q"
      "qIdle q' = qIdle q" "qMaxBytes q' = qMaxBytes q"
      "qBytes q' = qBytes q - (case chPending (get_chain i q) of None \<Rightarrow> 0 | Some p \<Rightarrow> oBytes p) + oBytes op"
      "qCount q' = qCount q + (case chPending (get_chain i q) of None \<Rightarrow> 1 | Some p \<Rightarrow> 0)"
  shows "base (if chBusy (get_chain i q) then {} else {i}) {#} q'"
proof (rule baseI)
  have gc: "get_chain j q' = (if j = i then c else get_chain j q)" for j
    using get_chain_cong [OF q'(1)] by simp
  have pk: "op_ok i p" if "chPending (get_chain i q) = Some p" for p
    using base_chain [OF b, of i] that by (simp add: chain_ok_def chOps_def)
  have opk: "op_ok i op" "oSup op = []" using op i by (simp_all add: op_ok_def)
  show "accounts {#} q'"
    using opk pk i
    by (intro accounts_put [OF base_accounts [OF b] q'(1)])
      (auto simp: c q' chain_totals op_ok_def split: option.splits)
  show "chain_ok j (get_chain j q')" for j
    using base_chain [OF b, of j] opk by (auto simp: gc c chain_ok_def chOps_def)
  show "get_chain j q' = empty_chain \<or> await_ok j (get_chain j q')"
    if "j \<notin> (if chBusy (get_chain i q) then {} else {i})" for j
    using that base_await [OF b, of j] by (auto simp: gc c await_ok_def split: if_splits)
  show "gates_ok q'" using base_gates [OF b] i by (simp add: gates_ok_def gc q')
  show "wires_ok q'" using base_wires [OF b] i by (simp add: wires_ok_def gc q')
  have "0 \<le> oBytes p" if "chPending (get_chain i q) = Some p" for p using pk that by (simp add: op_ok_def)
  moreover have "0 \<le> qCount q" using chain_pos_count [OF base_accounts [OF b], of i] chCount_nonneg order_trans by blast
  ultimately show "bound_ok q'"
    using base_bound [OF b] i fits chBytes_nonneg [OF base_chain [OF b, of None]]
    by (fastforce simp: bound_ok_def gc q' split: option.splits)
qed

lemma settle_base:
  assumes b: "base ex (mset ps + es) q"
    and q': "qChains q' = qChains q" "qBytes q' = qBytes q" "qCount q' = qCount q" "qOnWire q' = qOnWire q"
      "qNext q' = qNext q" "qClears q' = qClears q" "qGate q' = qGate q" "qWireIdle q' = qWireIdle q"
      "qIdle q' = qIdle q" "qMaxBytes q' = qMaxBytes q" "qSettled q' = qSettled q @ List.map (\<lambda>p. (p, v)) ps"
  shows "base ex es q'"
proof (rule baseI)
  have gc: "get_chain i q' = get_chain i q" for i using q'(1) by (rule get_chain_cong)
  show "accounts es q'"
    using base_accounts [OF b] q' qsum_cong [OF q'(1), of chBytes] qsum_cong [OF q'(1), of chCount]
      qsum_cong [OF q'(1), of chWire] qsum_cong [OF q'(1), of chHeld]
    by (simp add: accounts_def ac_simps multiset.map_comp)
  show "chain_ok i (get_chain i q')" for i using base_chain [OF b] by (simp add: gc)
  show "get_chain i q' = empty_chain \<or> await_ok i (get_chain i q')" if "i \<notin> ex" for i
    using base_await [OF b that] by (simp add: gc)
  show "gates_ok q'" using base_gates [OF b] q' by (simp add: gates_ok_def gc)
  show "wires_ok q'" using base_wires [OF b] q' by (simp add: wires_ok_def gc)
  show "bound_ok q'" using base_bound [OF b] q' by (simp add: bound_ok_def gc)
qed

lemma push_key_base:
  assumes b: "base {} {#oPid op#} q" and op: "op_ok (Some (oKey op)) op"
  shows "base {} {#} (push_key op tnow q)"
proof (cases "qBytes q + oBytes op > qMaxBytes q")
  case True
  then have "push_key op tnow q = settle_all [oPid op] False (q\<lparr>qShed := qShed q + 1, qOnShed := qOnShed q @ [op]\<rparr>)"
    by (simp add: push_key_def)
  moreover have "base {} (mset [oPid op] + {#}) q" using b by simp
  from settle_base [OF this, where v = False]
  have "base {} {#} (settle_all [oPid op] False (q\<lparr>qShed := qShed q + 1, qOnShed := qOnShed q @ [op]\<rparr>))"
    by (simp add: settle_all_def)
  ultimately show ?thesis by simp
next
  case False
  then have fits: "qBytes q + oBytes op \<le> qMaxBytes q" by simp
  define i where "i = Some (oKey op)"
  have bz: "get_chain i q = empty_chain \<or> chBusy (get_chain i q)"
    using base_await [OF b, of i] by (auto simp: await_ok_def)
  note eq = enqueue_base [OF b op i_def fits refl]
  show ?thesis
  proof (cases "chPending (get_chain i q)")
    case (Some prev)
    then have busy: "chBusy (get_chain i q)" using bz by auto
    then have c: "(get_chain i q)\<lparr>chPending := Some op, chSettle := chSettle (get_chain i q) @ [oPid op]\<rparr> =
            (get_chain i q)\<lparr>chPending := Some op, chSettle := chSettle (get_chain i q) @ [oPid op], chBusy := True\<rparr>"
      by simp
    have "push_key op tnow q =
        put_chain i ((get_chain i q)\<lparr>chPending := Some op, chSettle := chSettle (get_chain i q) @ [oPid op], chBusy := True\<rparr>)
          (q\<lparr>qNewest := AList.update (oKey op) (oPid op) (qNewest q),
             qBytes := qBytes q - oBytes prev + oBytes op, qCoalesced := qCoalesced q + 1\<rparr>)"
      using False Some unfolding c [symmetric] by (simp add: push_key_def Let_def i_def [symmetric])
    then show ?thesis
      using busy Some eq [of "push_key op tnow q"] by simp (simp add: put_chain_def)
  next
    case None
    let ?q = "put_chain i ((get_chain i q)\<lparr>chPending := Some op, chSettle := [oPid op], chBusy := True\<rparr>)
                (q\<lparr>qNewest := AList.update (oKey op) (oPid op) (qNewest q),
                   qBytes := qBytes q + oBytes op, qCount := qCount q + 1\<rparr>)"
    have st: "chSettle (get_chain i q) = []"
      using base_chain [OF b, of i] None by (simp add: chain_ok_def)
    have e: "base (if chBusy (get_chain i q) then {} else {i}) {#} ?q"
      using eq [of ?q] None st
      by (cases "chBusy (get_chain i q)") (simp_all add: put_chain_def)
    show ?thesis
    proof (cases "chBusy (get_chain i q)")
      case True
      then have c: "(get_chain i q)\<lparr>chPending := Some op, chSettle := [oPid op]\<rparr> =
            (get_chain i q)\<lparr>chPending := Some op, chSettle := [oPid op], chBusy := True\<rparr>" by simp
      have "push_key op tnow q = ?q"
        using False None True unfolding c [symmetric] by (simp add: push_key_def Let_def i_def [symmetric])
      then show ?thesis using e True by simp
    next
      case idle: False
      then have "at_head i ?q" using bz by (auto simp: at_head_def)
      moreover have "push_key op tnow q = run_loop i tnow ?q"
        using False None idle by (simp add: push_key_def Let_def i_def [symmetric])
      ultimately show ?thesis using run_loop_base e idle by simp
    qed
  qed
qed

section \<open>The clear\<close>

lemma drop_one_base:
  assumes "base ex (mset settles + es) q" "drop_one i (settles, q) = (settles', q')"
    and clear: "chPending (get_chain None q) \<noteq> None"
  shows "base ex (mset settles' + es) q'"
proof (cases "i \<noteq> None \<and> chPending (get_chain i q) \<noteq> None")
  case False
  then show ?thesis using assms by (auto simp: drop_one_def Let_def split: option.splits)
next
  case True
  then obtain k op where k: "i = Some k" "chPending (get_chain i q) = Some op" by auto
  let ?c = "(get_chain i q)\<lparr>chPending := None, chSettle := []\<rparr>"
  let ?q = "put_chain i ?c (q\<lparr>qBytes := qBytes q - oBytes op, qCount := qCount q - 1,
                        qCoalesced := qCoalesced q + 1\<rparr>)"
  have e: "settles' = settles @ chSettle (get_chain i q)" "q' = ?q"
    using assms(2) k by (simp_all add: drop_one_def Let_def)
  note b = assms(1)
  have opk: "op_ok i op" using base_chain [OF b, of i] k by (simp add: chain_ok_def chOps_def)
  have a: "accounts (mset (settles @ chSettle (get_chain i q)) + es) ?q"
    using k opk
    by (intro accounts_put [OF base_accounts [OF b], where i = i and c = ?c])
      (auto simp: chain_totals op_ok_def put_chain_def split: option.splits)
  have "chCount (get_chain None ?q) \<noteq> 0" using clear k by (auto simp: chCount_zero_iff)
  then have cnt: "qCount ?q \<noteq> 0" using count_zero [OF a] by blast
  show ?thesis
    unfolding e
  proof (rule baseI)
    show "accounts (mset (settles @ chSettle (get_chain i q)) + es) ?q" by (rule a)
    show "chain_ok j (get_chain j ?q)" for j
      using base_chain [OF b, of j] by (auto simp: chain_ok_def chOps_def)
    show "get_chain j ?q = empty_chain \<or> await_ok j (get_chain j ?q)" if "j \<notin> ex" for j
      using base_await [OF b that] k by (auto simp: await_ok_def)
    show "gates_ok ?q" using base_gates [OF b] k by (simp add: gates_ok_def)
    show "wires_ok ?q" using base_wires [OF b] k by (simp add: wires_ok_def)
    show "bound_ok ?q" using base_bound [OF b] k opk cnt by (simp add: bound_ok_def op_ok_def)
  qed
qed

lemma drop_one_frame:
  assumes "drop_one i (settles, q) = (settles', q')"
  shows "get_chain None q' = get_chain None q" "qNext q' = qNext q" "qOnWire q' = qOnWire q" "qWire q' = qWire q"
    "qNewest q' = qNewest q" "qLastClear q' = qLastClear q" "qGate q' = qGate q"
    "chInflight (get_chain j q') = chInflight (get_chain j q)" "chRun (get_chain j q') = chRun (get_chain j q)"
    "chPending (get_chain j q') = (if j = i \<and> i \<noteq> None then None else chPending (get_chain j q))"
  using assms by (auto simp: drop_one_def Let_def split: option.splits if_splits)

lemma dropPending_fold:
  assumes "base ex (mset settles + es) q" "fold drop_one is (settles, q) = (settles', q')"
    and "chPending (get_chain None q) \<noteq> None"
  shows "base ex (mset settles' + es) q' \<and> get_chain None q' = get_chain None q \<and>
         qNext q' = qNext q \<and> qOnWire q' = qOnWire q \<and> qWire q' = qWire q \<and> qNewest q' = qNewest q \<and>
         qLastClear q' = qLastClear q \<and> qGate q' = qGate q \<and>
         (\<forall>j. chInflight (get_chain j q') = chInflight (get_chain j q) \<and>
              chRun (get_chain j q') = chRun (get_chain j q) \<and>
              chPending (get_chain j q') = (if j \<in> set is \<and> j \<noteq> None then None else chPending (get_chain j q)))"
  using assms
proof (induction "is" arbitrary: settles q)
  case Nil
  then show ?case by simp
next
  case (Cons i "is")
  obtain s1 q1 where d: "drop_one i (settles, q) = (s1, q1)" by force
  note f = drop_one_frame [OF d]
  have "base ex (mset s1 + es) q1" by (rule drop_one_base [OF Cons.prems(1) d Cons.prems(3)])
  moreover have "fold drop_one is (s1, q1) = (settles', q')" using Cons.prems(2) d by simp
  moreover have "chPending (get_chain None q1) \<noteq> None" using Cons.prems(3) f(1) by simp
  ultimately have ih: "base ex (mset settles' + es) q' \<and> get_chain None q' = get_chain None q1 \<and>
         qNext q' = qNext q1 \<and> qOnWire q' = qOnWire q1 \<and> qWire q' = qWire q1 \<and> qNewest q' = qNewest q1 \<and>
         qLastClear q' = qLastClear q1 \<and> qGate q' = qGate q1 \<and>
         (\<forall>j. chInflight (get_chain j q') = chInflight (get_chain j q1) \<and>
              chRun (get_chain j q') = chRun (get_chain j q1) \<and>
              chPending (get_chain j q') = (if j \<in> set is \<and> j \<noteq> None then None else chPending (get_chain j q1)))"
    by (rule Cons.IH)
  then show ?case using f by (auto simp: f(8,9,10))
qed

text \<open>After \<open>dropPending\<close> nothing but the clear is queued.\<close>

lemma dropPending_run:
  assumes b: "base ex es q" and c: "chPending (get_chain None q) \<noteq> None" and d: "dropPending q = (settles, q')"
  shows "base ex (mset settles + es) q'" "get_chain None q' = get_chain None q" "qNext q' = qNext q"
    "qWire q' = qWire q" "qGate q' = qGate q" "qOnWire q' = qOnWire q"
    "chInflight (get_chain j q') = chInflight (get_chain j q)" "chRun (get_chain j q') = chRun (get_chain j q)"
    "chPending (get_chain (Some k) q') = None"
proof -
  have b': "base ex (mset [] + es) q" using b by simp
  note r = dropPending_fold [OF b' d [unfolded dropPending_def] c]
  show "base ex (mset settles + es) q'" "get_chain None q' = get_chain None q" "qNext q' = qNext q"
    "qWire q' = qWire q" "qGate q' = qGate q" "qOnWire q' = qOnWire q"
    "chInflight (get_chain j q') = chInflight (get_chain j q)" "chRun (get_chain j q') = chRun (get_chain j q)"
    using r by blast+
  show "chPending (get_chain (Some k) q') = None"
  proof (cases "Some k \<in> set (jskeys (qChains q))")
    case True
    then show ?thesis using r by simp
  next
    case False
    then have "get_chain (Some k) q = empty_chain"
      by (auto simp: get_chain_def split: option.splits dest: map_of_Some_mem)
    then show ?thesis using r False by simp
  qed
qed

lemma armGate_gate: "qClears (armGate q) = qClears q + 1" "\<exists>g. qGate (armGate q) = Some g"
  "qMaxBytes (armGate q) = qMaxBytes q" "qIdle (armGate q) = qIdle q" "qWireIdle (armGate q) = qWireIdle q"
  by (simp_all add: armGate_def Let_def)

lemma disarmGate_gate: "qClears (disarmGate q) = qClears q - 1"
  "qGate (disarmGate q) = (if qClears q > 1 then qGate q else None)"
  by (simp_all add: disarmGate_def Let_def)

lemma clear_slot_base:
  assumes b: "base {} {#oPid op#} q" and op: "op_ok None op" and e: "clear_slot op q = (op1, q')"
  shows "base {None} {#} q'" "chBusy (get_chain None q) \<Longrightarrow> base {} {#} q'"
    "chPending (get_chain None q') = Some op1" "oPid op1 = oPid op" "op_ok None op1"
    "chInflight (get_chain None q') = chInflight (get_chain None q)"
    "chRun (get_chain None q') = chRun (get_chain None q)"
    "chBusy (get_chain None q') = chBusy (get_chain None q)"
    "get_chain (Some k) q' = get_chain (Some k) q" "qNext q' = qNext q" "qWire q' = qWire q" "qOnWire q' = qOnWire q"
proof -
  define c where "c = (get_chain None q)\<lparr>chPending := Some op1,
    chSettle := (case chPending (get_chain None q) of None \<Rightarrow> [] | Some p \<Rightarrow> chSettle (get_chain None q)) @ [oPid op]\<rparr>"
  have op1: "op1 = op\<lparr>oSup := (case chPending (get_chain None q) of None \<Rightarrow> [] | Some p \<Rightarrow> oSup p)\<rparr>"
    using e by (auto simp: clear_slot_def Let_def split: option.splits)
  have gc: "get_chain j q' = (if j = None then c else get_chain j q)" for j
    using e by (auto simp: clear_slot_def Let_def c_def split: option.splits)
  have qc: "qChains q' = qChains (put_chain None c q)"
    using e by (auto simp: clear_slot_def Let_def c_def put_chain_def split: option.splits)
  have f: "qOnWire q' = qOnWire q" "qSettled q' = qSettled q" "qNext q' = qNext q" "qWireIdle q' = qWireIdle q"
      "qIdle q' = qIdle q" "qMaxBytes q' = qMaxBytes q" "qWire q' = qWire q"
      "qBytes q' = qBytes q - (case chPending (get_chain None q) of None \<Rightarrow> 0 | Some p \<Rightarrow> oBytes p) + oBytes op"
      "qCount q' = qCount q + (case chPending (get_chain None q) of None \<Rightarrow> 1 | Some p \<Rightarrow> 0)"
      "qClears q' = qClears q + (case chPending (get_chain None q) of None \<Rightarrow> 1 | Some p \<Rightarrow> 0)"
    using e by (auto simp: clear_slot_def Let_def armGate_gate disarmGate_gate split: option.splits)
  have st: "chPending (get_chain None q) = None \<Longrightarrow> chSettle (get_chain None q) = []"
    using base_chain [OF b, of None] by (simp add: chain_ok_def)
  have a: "accounts {#} q'"
    using st by (intro accounts_put [OF base_accounts [OF b] qc])
      (auto simp: c_def op1 f chain_totals split: option.splits)
  have cnt0: "0 \<le> qCount q" using chain_pos_count [OF base_accounts [OF b], of None] chCount_nonneg order_trans by blast
  have ok: "chain_ok j (get_chain j q')" for j
    using base_chain [OF b, of j] op by (auto simp: gc c_def op1 chain_ok_def chOps_def op_ok_def)
  have cn: "chPending (get_chain None q) \<noteq> None \<Longrightarrow> 1 \<le> chCount (get_chain None q)"
    by (auto simp: chCount_def chOps_def)
  have g: "gates_ok q'"
  proof (cases "chPending (get_chain None q)")
    case None
    then have "qGate q' \<noteq> None" using e by (auto simp: clear_slot_def Let_def armGate_gate)
    moreover have "qClears q' = chCount c"
      using None base_gates [OF b] by (simp add: f gates_ok_def c_def chCount_def chOps_def)
    ultimately show ?thesis using chCount_zero_iff [of c] by (auto simp: gates_ok_def gc c_def)
  next
    case (Some p)
    then have "qClears q \<ge> 1" using base_gates [OF b] cn by (simp add: gates_ok_def)
    then have "qGate q' \<noteq> None"
      using e Some by (auto simp: clear_slot_def Let_def disarmGate_gate armGate_gate)
    moreover have "qClears q' = chCount c"
      using Some base_gates [OF b] by (simp add: f gates_ok_def c_def chCount_def chOps_def)
    ultimately show ?thesis using chCount_zero_iff [of c] by (auto simp: gates_ok_def gc c_def)
  qed
  have w: "wires_ok q'" using base_wires [OF b] by (simp add: wires_ok_def gc f c_def)
  have bd: "bound_ok q'"
    using base_bound [OF b] cnt0
    by (auto simp: bound_ok_def gc f c_def op1 chBytes_def chOps_def split: option.splits)
  show "base {None} {#} q'"
    by (rule baseI [OF a ok _ g w bd]) (use base_await [OF b] in \<open>auto simp: gc\<close>)
  show "base {} {#} q'" if "chBusy (get_chain None q)"
    by (rule baseI [OF a ok _ g w bd])
      (use base_await [OF b] base_await [OF b, of None] that in \<open>auto simp: gc c_def await_ok_def\<close>)
  show "chPending (get_chain None q') = Some op1" "oPid op1 = oPid op" "op_ok None op1"
    "chInflight (get_chain None q') = chInflight (get_chain None q)"
    "chRun (get_chain None q') = chRun (get_chain None q)"
    "chBusy (get_chain None q') = chBusy (get_chain None q)"
    "get_chain (Some k) q' = get_chain (Some k) q" "qNext q' = qNext q" "qWire q' = qWire q" "qOnWire q' = qOnWire q"
    using op by (simp_all add: gc c_def op1 f op_ok_def)
qed

lemma pushClear_split:
  obtains op1 q2 settles q3 where "clear_slot op (q\<lparr>qNewest := [], qLastClear := Some (oPid op)\<rparr>) = (op1, q2)"
    "dropPending q2 = (settles, q3)"
    "pushClear op tnow q =
       (let q4 = put_chain None ((get_chain None q3)\<lparr>chPending := Some (op1\<lparr>oSup := oSup op1 @ settles\<rparr>)\<rparr>) q3
        in if \<not> chBusy (get_chain None q4)
           then run_loop None tnow (put_chain None ((get_chain None q4)\<lparr>chBusy := True\<rparr>) q4)
           else q4)"
  by (metis (no_types, lifting) case_prod_conv pushClear_def surj_pair Let_def)

lemma superseded_base:
  assumes b: "base ex (mset settles) q" and p: "chPending (get_chain None q) = Some op"
    and c: "c = (get_chain None q)\<lparr>chPending := Some (op\<lparr>oSup := oSup op @ settles\<rparr>)\<rparr> \<or>
            c = (get_chain None q)\<lparr>chPending := Some (op\<lparr>oSup := oSup op @ settles\<rparr>), chBusy := True\<rparr>"
  shows "base ex {#} (put_chain None c q)"
proof (rule baseI)
  have pk: "op_ok None op" using base_chain [OF b, of None] p by (simp add: chain_ok_def chOps_def)
  show "accounts {#} (put_chain None c q)"
    using p c by (intro accounts_put [OF base_accounts [OF b] refl]) (auto simp: chain_totals)
  show "chain_ok j (get_chain j (put_chain None c q))" for j
    using base_chain [OF b, of j] p c pk by (auto simp: chain_ok_def chOps_def op_ok_def)
  show "get_chain j (put_chain None c q) = empty_chain \<or> await_ok j (get_chain j (put_chain None c q))"
    if "j \<notin> ex" for j
    using base_await [OF b that] c p by (auto simp: await_ok_def)
  show "gates_ok (put_chain None c q)" using base_gates [OF b] c p by (auto simp: gates_ok_def chCount_def chOps_def)
  show "wires_ok (put_chain None c q)" using base_wires [OF b] c by (auto simp: wires_ok_def)
  show "bound_ok (put_chain None c q)" using base_bound [OF b] c p by (auto simp: bound_ok_def chBytes_def chOps_def)
qed

lemma pushClear_base:
  assumes b: "base {} {#oPid op#} q" and op: "op_ok None op"
  shows "base {} {#} (pushClear op tnow q)"
proof -
  let ?q0 = "q\<lparr>qNewest := [], qLastClear := Some (oPid op)\<rparr>"
  have b0: "base {} {#oPid op#} ?q0" using b by (rule base_frame) simp_all
  obtain op1 q2 settles q3 where e: "clear_slot op ?q0 = (op1, q2)" "dropPending q2 = (settles, q3)"
    and pc: "pushClear op tnow q =
       (let q4 = put_chain None ((get_chain None q3)\<lparr>chPending := Some (op1\<lparr>oSup := oSup op1 @ settles\<rparr>)\<rparr>) q3
        in if \<not> chBusy (get_chain None q4)
           then run_loop None tnow (put_chain None ((get_chain None q4)\<lparr>chBusy := True\<rparr>) q4)
           else q4)"
    by (rule pushClear_split)
  note s = clear_slot_base [OF b0 op e(1)]
  have p2: "chPending (get_chain None q2) \<noteq> None" using s(3) by simp
  show ?thesis
  proof (cases "chBusy (get_chain None q)")
    case True
    have "base {} {#} q2" using s(2) True by simp
    note d = dropPending_run [OF this p2 e(2)]
    have "pushClear op tnow q =
        put_chain None ((get_chain None q3)\<lparr>chPending := Some (op1\<lparr>oSup := oSup op1 @ settles\<rparr>)\<rparr>) q3"
      using pc True s(8) d(2) by (simp add: Let_def)
    then show ?thesis using superseded_base [of "{}" settles q3 op1] d(1,2) s(3) by simp
  next
    case False
    note d = dropPending_run [OF s(1) p2 e(2)]
    let ?c = "(get_chain None q3)\<lparr>chPending := Some (op1\<lparr>oSup := oSup op1 @ settles\<rparr>), chBusy := True\<rparr>"
    have eq: "pushClear op tnow q = run_loop None tnow (put_chain None ?c (put_chain None
        ((get_chain None q3)\<lparr>chPending := Some (op1\<lparr>oSup := oSup op1 @ settles\<rparr>)\<rparr>) q3))"
      using pc False s(8) d(2) by (simp add: Let_def)
    have two: "put_chain None ?c (put_chain None
        ((get_chain None q3)\<lparr>chPending := Some (op1\<lparr>oSup := oSup op1 @ settles\<rparr>)\<rparr>) q3) = put_chain None ?c q3"
      by (simp add: put_chain_def)
    have b4: "base {None} {#} (put_chain None ?c q3)"
      using superseded_base [of "{None}" settles q3 op1 ?c] d(1,2) s(3) by simp
    have "get_chain None q = empty_chain" using base_await [OF b, of None] False by (auto simp: await_ok_def)
    then have "at_head None (put_chain None ?c q3)" using s(6,7) d(2) by (simp add: at_head_def)
    then show ?thesis using run_loop_base [OF b4] eq two by simp
  qed
qed

lemma push_base [wf_intros]:
  assumes b: "base {} {#} q" and n: "0 \<le> oBytes op"
  shows "base {} {#} (snd (push op tnow q))"
proof -
  let ?op = "op\<lparr>oPid := qNext q, oSup := []\<rparr>"
  have b1: "base {} {#oPid ?op#} (q\<lparr>qNext := qNext q + 1\<rparr>)" using base_next [OF b] by simp
  show ?thesis
  proof (cases "oKind op = KClear")
    case True
    then have "op_ok None ?op" using n by (simp add: op_ok_def)
    from pushClear_base [OF b1 this] show ?thesis using True by (simp add: push_def Let_def)
  next
    case False
    then have "op_ok (Some (oKey ?op)) ?op" using n by (simp add: op_ok_def)
    from push_key_base [OF b1 this] show ?thesis using False by (simp add: push_def Let_def)
  qed
qed

lemma queue_step_base: "queue_step q q' \<Longrightarrow> base {} {#} q \<Longrightarrow> base {} {#} q'"
proof (induction rule: queue_step.induct)
  case (close q)
  then show ?case by (rule base_frame) (simp_all add: queue_close_def)
next
  case (drain q w)
  show ?case
  proof (cases "qCount q = 0")
    case True
    show ?thesis by (rule base_frame [OF drain]) (simp_all add: queue_drain_def True)
  next
    case False
    then have "queue_drain w q = q\<lparr>qIdle := qIdle q @ [w]\<rparr>" by (simp add: queue_drain_def)
    moreover have "base {} {#} (q\<lparr>qIdle := qIdle q @ [w]\<rparr>)" (is "base _ _ ?q")
    proof (rule baseI)
      show "accounts {#} ?q" by (rule accounts_frame [OF base_accounts [OF drain]]) simp_all
      show "chain_ok i (get_chain i ?q)" for i using base_chain [OF drain] by simp
      show "get_chain i ?q = empty_chain \<or> await_ok i (get_chain i ?q)" for i using base_await [OF drain] by simp
      show "gates_ok ?q" using base_gates [OF drain] by (simp add: gates_ok_def)
      show "wires_ok ?q" using base_wires [OF drain] by (simp add: wires_ok_def)
      show "bound_ok ?q" using base_bound [OF drain] False by (simp add: bound_ok_def)
    qed
    ultimately show ?thesis by simp
  qed
qed (auto intro: wf_intros)

lemma new_queue_base: "0 \<le> maxBytes \<Longrightarrow> base {} {#} (new_queue maxBytes retryMs)"
  by (simp add: base_def accounts_def new_queue_def qsum_def get_chain_def gates_ok_def wires_ok_def bound_ok_def)

definition fresh_queue :: "queue \<Rightarrow> bool" where
  "fresh_queue q \<longleftrightarrow> (\<exists>maxBytes retryMs. 0 \<le> maxBytes \<and> q = new_queue maxBytes retryMs)"

interpretation lq: step_invariant queue_step fresh_queue "base {} {#}"
  by unfold_locales (auto simp: fresh_queue_def new_queue_base intro: queue_step_base)

lemma reach_base:
  assumes "queue_reach maxBytes retryMs q" "0 \<le> maxBytes"
  shows "base {} {#} q"
  using assms lq.inv_reached unfolding queue_reach_def fresh_queue_def by blast

end
