(* ===== verification/L3QueueOrder.thy ===== *)
theory L3QueueOrder
  imports L3QueueInv
begin

text \<open>
  What the adapter sees last. For every key the newest operation accepted that concerns it (one on
  the key, or a clear) is either not yet on the wire, or it is the last one put on the wire that
  concerns the key: two writes of a key never overtake each other, a clear is never overtaken by
  a write accepted before it, and never overtakes a write accepted after it. \<open>ordered\<close> is the
  invariant that carries this, over the pending, claimed and sent operations of the chains.
\<close>

definition chUnsent :: "qchain \<Rightarrow> qop set" where
  "chUnsent c = set_option (chPending c) \<union> (if is_claimed (chRun c) then set_option (chInflight c) else {})"

definition unsent_for :: "jsstr \<Rightarrow> queue \<Rightarrow> nat set" where
  "unsent_for k q = oPid ` (chUnsent (get_chain (Some k) q) \<union> chUnsent (get_chain None q))"

definition newest_for :: "jsstr \<Rightarrow> queue \<Rightarrow> nat option" where
  "newest_for k q = (case map_of (qNewest q) k of Some i \<Rightarrow> Some i | None \<Rightarrow> qLastClear q)"

definition concerns :: "jsstr \<Rightarrow> qop \<Rightarrow> bool" where
  "concerns k op \<longleftrightarrow> oKind op = KClear \<or> oKey op = k"

definition last_on_wire :: "jsstr \<Rightarrow> queue \<Rightarrow> nat option" where
  "last_on_wire k q = map_option oPid (List.find (concerns k) (qWire q))"

definition ord_newest :: "queue \<Rightarrow> bool" where
  "ord_newest q \<longleftrightarrow>
     (\<forall>k i. newest_for k q = Some i \<longrightarrow> i \<in> unsent_for k q \<or> (last_on_wire k q = Some i \<and> unsent_for k q = {}))"

definition ord_keys :: "queue \<Rightarrow> bool" where
  "ord_keys q \<longleftrightarrow>
     (\<forall>k op. chPending (get_chain (Some k) q) = Some op \<longrightarrow> map_of (qNewest q) k = Some (oPid op)) \<and>
     (\<forall>k i. map_of (qNewest q) k = Some i \<longrightarrow> i < qNext q \<and> (\<forall>l. qLastClear q = Some l \<longrightarrow> l < i))"

definition ord_clears :: "queue \<Rightarrow> bool" where
  "ord_clears q \<longleftrightarrow>
     (\<forall>op. chPending (get_chain None q) = Some op \<longrightarrow> qLastClear q = Some (oPid op)) \<and>
     (\<forall>op. chInflight (get_chain None q) = Some op \<longrightarrow>
        (\<exists>l. qLastClear q = Some l \<and>
             (if chPending (get_chain None q) = None then l = oPid op else oPid op < l))) \<and>
     (\<forall>l. qLastClear q = Some l \<longrightarrow> l < qNext q)"

definition ord_wire :: "queue \<Rightarrow> bool" where
  "ord_wire q \<longleftrightarrow>
     (\<forall>i op k. on_wire (chRun (get_chain i q)) \<and> chInflight (get_chain i q) = Some op \<and> concerns k op \<longrightarrow>
        last_on_wire k q = Some (oPid op))"

definition ordered :: "queue \<Rightarrow> bool" where
  "ordered q \<longleftrightarrow> ord_newest q \<and> ord_keys q \<and> ord_clears q \<and> ord_wire q"

text \<open>The invariant reads of a chain only its two slots and where its operation stands.\<close>

definition same_view :: "queue \<Rightarrow> queue \<Rightarrow> bool" where
  "same_view q q' \<longleftrightarrow>
     (\<forall>i. chPending (get_chain i q') = chPending (get_chain i q) \<and>
          chInflight (get_chain i q') = chInflight (get_chain i q) \<and>
          is_claimed (chRun (get_chain i q')) = is_claimed (chRun (get_chain i q)) \<and>
          on_wire (chRun (get_chain i q')) = on_wire (chRun (get_chain i q))) \<and>
     qNewest q' = qNewest q \<and> qLastClear q' = qLastClear q \<and> qNext q' = qNext q \<and> qWire q' = qWire q"

lemma ordered_view:
  assumes "ordered q" "same_view q q'"
  shows "ordered q'"
proof -
  have u: "chUnsent (get_chain i q') = chUnsent (get_chain i q)" for i
    using assms(2) by (simp add: chUnsent_def same_view_def)
  have n: "unsent_for k q' = unsent_for k q" "newest_for k q' = newest_for k q"
    "last_on_wire k q' = last_on_wire k q" for k
    using assms(2)
    by (simp_all add: unsent_for_def u newest_for_def last_on_wire_def same_view_def cong: option.case_cong)
  show ?thesis
    using assms unfolding ordered_def ord_newest_def ord_keys_def ord_clears_def ord_wire_def n same_view_def
    by simp
qed

lemma orderedD:
  assumes "ordered q"
  shows "newest_for k q = Some i \<Longrightarrow> i \<in> unsent_for k q \<or> (last_on_wire k q = Some i \<and> unsent_for k q = {})"
    and "chPending (get_chain (Some k) q) = Some op \<Longrightarrow> map_of (qNewest q) k = Some (oPid op)"
    and "map_of (qNewest q) k = Some i \<Longrightarrow> qLastClear q = Some l \<Longrightarrow> l < i"
    and "map_of (qNewest q) k = Some i \<Longrightarrow> i < qNext q"
    and "chPending (get_chain None q) = Some op \<Longrightarrow> qLastClear q = Some (oPid op)"
    and "chInflight (get_chain None q) = Some op \<Longrightarrow>
           \<exists>l. qLastClear q = Some l \<and> (if chPending (get_chain None q) = None then l = oPid op else oPid op < l)"
    and "qLastClear q = Some l \<Longrightarrow> l < qNext q"
    and "on_wire (chRun (get_chain j q)) \<Longrightarrow> chInflight (get_chain j q) = Some op \<Longrightarrow> concerns k op \<Longrightarrow>
           last_on_wire k q = Some (oPid op)"
proof -
  have a: "ord_newest q" "ord_keys q" "ord_clears q" "ord_wire q" using assms by (simp_all add: ordered_def)
  show "newest_for k q = Some i \<Longrightarrow> i \<in> unsent_for k q \<or> (last_on_wire k q = Some i \<and> unsent_for k q = {})"
    using a(1) by (simp add: ord_newest_def)
  show "chPending (get_chain (Some k) q) = Some op \<Longrightarrow> map_of (qNewest q) k = Some (oPid op)"
    "map_of (qNewest q) k = Some i \<Longrightarrow> qLastClear q = Some l \<Longrightarrow> l < i"
    "map_of (qNewest q) k = Some i \<Longrightarrow> i < qNext q"
    using a(2) by (simp_all add: ord_keys_def)
  show "chPending (get_chain None q) = Some op \<Longrightarrow> qLastClear q = Some (oPid op)"
    "chInflight (get_chain None q) = Some op \<Longrightarrow>
       \<exists>l. qLastClear q = Some l \<and> (if chPending (get_chain None q) = None then l = oPid op else oPid op < l)"
    "qLastClear q = Some l \<Longrightarrow> l < qNext q"
    using a(3) unfolding ord_clears_def by blast+
  show "on_wire (chRun (get_chain j q)) \<Longrightarrow> chInflight (get_chain j q) = Some op \<Longrightarrow> concerns k op \<Longrightarrow>
          last_on_wire k q = Some (oPid op)"
    using a(4) unfolding ord_wire_def by blast
qed

lemma unsent_pending: "chPending (get_chain (Some k) q) = Some op \<Longrightarrow> oPid op \<in> unsent_for k q"
  and unsent_clear: "chPending (get_chain None q) = Some op \<Longrightarrow> oPid op \<in> unsent_for k q"
  by (simp_all add: unsent_for_def chUnsent_def)

lemma last_on_wire_Cons:
  "qWire q' = op # qWire q \<Longrightarrow>
   last_on_wire k q' = (if concerns k op then Some (oPid op) else last_on_wire k q)"
  by (simp add: last_on_wire_def)

section \<open>The pump\<close>

lemma claim_ordered:
  assumes o: "ordered q" and p: "chPending (get_chain i q) = Some op" and n: "chInflight (get_chain i q) = None"
    and r: "chRun (get_chain i q) = Idle"
  shows "ordered (claim i op q)"
proof -
  have u: "chUnsent (get_chain j (claim i op q)) = chUnsent (get_chain j q)" for j
    using p n r by (auto simp: claim_chain chUnsent_def)
  have f: "unsent_for k (claim i op q) = unsent_for k q" "newest_for k (claim i op q) = newest_for k q"
    "last_on_wire k (claim i op q) = last_on_wire k q" for k
    by (simp_all add: unsent_for_def u newest_for_def last_on_wire_def claim_fields cong: option.case_cong)
  have "ord_newest (claim i op q)" using o by (simp add: ordered_def ord_newest_def f)
  moreover have "ord_keys (claim i op q)" using o by (auto simp: ordered_def ord_keys_def claim_fields claim_chain)
  moreover have "ord_clears (claim i op q)"
    using o orderedD(5) [OF o, of op] p by (auto simp: ordered_def ord_clears_def claim_fields claim_chain)
  moreover have "ord_wire (claim i op q)" using o unfolding ordered_def ord_wire_def f by (auto simp: claim_chain)
  ultimately show ?thesis by (simp add: ordered_def)
qed

text \<open>The claimed operation goes on the wire: nothing else that concerns its keys is left unsent.\<close>

lemma put_on_wire_ordered:
  assumes o: "ordered q" and b: "base {i} es q" and r: "chRun (get_chain i q) = WaitWire settle"
    and p: "chInflight (get_chain i q) = Some op" "i = None \<or> chPending (get_chain i q) = None"
    and free: "if i = None then qOnWire q = 0 else qGate q = None"
  shows "ordered (put_on_wire i op settle d q)"
proof -
  let ?q = "put_on_wire i op settle d q"
  have ok: "op_ok i op" using base_chain [OF b, of i] p by (simp add: chain_ok_def chOps_def)
  have cl: "\<not> is_claimed (chRun (get_chain (Some k) q))" if "i \<noteq> Some k" for k
    using base_await [OF b, of "Some k"] that by (auto simp: await_ok_def)
  have lw: "last_on_wire k ?q = (if concerns k op then Some (oPid op) else last_on_wire k q)" for k
    by (rule last_on_wire_Cons) (simp add: put_on_wire_fields)
  have nw: "newest_for k ?q = newest_for k q" for k
    by (simp add: newest_for_def put_on_wire_fields cong: option.case_cong)
  have un: "unsent_for k ?q = unsent_for k q" if "\<not> concerns k op" for k
    using that ok by (cases i) (auto simp: unsent_for_def put_on_wire_chain concerns_def op_ok_def)
  have us: "oPid op \<in> unsent_for k q" if "concerns k op" for k
    using that ok r p by (cases i) (auto simp: unsent_for_def chUnsent_def concerns_def op_ok_def)
  have sub: "unsent_for k q \<subseteq> insert (oPid op) (unsent_for k ?q)" for k
    using r p by (auto simp: unsent_for_def chUnsent_def put_on_wire_chain)
  have none: "unsent_for k ?q = {}" if k: "concerns k op" and new: "newest_for k q = Some (oPid op)" for k
  proof (cases i)
    case None
    have l: "\<exists>l. qLastClear q = Some l \<and> (if chPending (get_chain None q) = None then l = oPid op else oPid op < l)"
      using orderedD(6) [OF o] p None by simp
    have "chPending (get_chain (Some k) q) = None"
    proof (rule ccontr)
      assume "chPending (get_chain (Some k) q) \<noteq> None"
      then obtain p' where p': "map_of (qNewest q) k = Some p'" using orderedD(2) [OF o] by blast
      then have "p' = oPid op" using new by (simp add: newest_for_def)
      then show False using l orderedD(3) [OF o p'] by (auto split: if_splits)
    qed
    moreover have "chPending (get_chain None q) = None"
    proof (rule ccontr)
      assume "chPending (get_chain None q) \<noteq> None"
      then obtain l where "qLastClear q = Some l" "oPid op < l" using l by auto
      then show False using new orderedD(3) [OF o, of k "oPid op" l] by (auto simp: newest_for_def split: option.splits)
    qed
    ultimately show ?thesis using None cl [of k] by (simp add: unsent_for_def chUnsent_def put_on_wire_chain)
  next
    case (Some k')
    then have "oKey op = k'" "oKind op \<noteq> KClear" using ok by (simp_all add: op_ok_def)
    then have "k' = k" using k by (simp add: concerns_def)
    then show ?thesis
      using Some p no_clear_run [OF b] free
      by (simp add: unsent_for_def chUnsent_def put_on_wire_chain)
  qed
  have "ord_newest ?q"
    unfolding ord_newest_def
  proof (intro allI impI)
    fix k j
    assume "newest_for k ?q = Some j"
    then have new: "newest_for k q = Some j" by (simp add: nw)
    show "j \<in> unsent_for k ?q \<or> (last_on_wire k ?q = Some j \<and> unsent_for k ?q = {})"
    proof (cases "concerns k op")
      case False
      then show ?thesis using orderedD(1) [OF o new] by (simp add: un lw)
    next
      case True
      have "j \<in> unsent_for k q" using orderedD(1) [OF o new] us [OF True] by auto
      then show ?thesis using True sub [of k] none [OF True] new by (auto simp: lw)
    qed
  qed
  moreover have "ord_keys ?q" using o by (auto simp: ordered_def ord_keys_def put_on_wire_fields put_on_wire_chain)
  moreover have "ord_clears ?q" using o by (auto simp: ordered_def ord_clears_def put_on_wire_fields put_on_wire_chain)
  moreover have "ord_wire ?q"
    unfolding ord_wire_def
  proof (intro allI impI, elim conjE)
    fix j op' k
    assume w: "on_wire (chRun (get_chain j ?q))" "chInflight (get_chain j ?q) = Some op'" "concerns k op'"
    show "last_on_wire k ?q = Some (oPid op')"
    proof (cases "j = i")
      case True
      then have "op' = op" using w(2) p by (simp add: put_on_wire_chain)
      then show ?thesis using lw [of k] w(3) by simp
    next
      case False
      then have w': "on_wire (chRun (get_chain j q))" "chInflight (get_chain j q) = Some op'"
        using w by (simp_all add: put_on_wire_chain)
      have "\<not> concerns k op"
      proof (cases i)
        case None
        then show ?thesis using onWire_zero [OF base_accounts [OF b]] free w' by auto
      next
        case (Some k')
        have "j \<noteq> None" using no_clear_run(3) [OF b] free Some w'(1) by (cases "j = None") simp_all
        then obtain k2 where "j = Some k2" by auto
        then show ?thesis
          using Some False w(3) ok base_chain [OF b, of j] w'
          by (auto simp: concerns_def op_ok_def chain_ok_def chOps_def)
      qed
      then show ?thesis using orderedD(8) [OF o w' w(3)] by (simp add: lw)
    qed
  qed
  ultimately show ?thesis by (simp add: ordered_def)
qed

lemma finish_op_ordered:
  assumes o: "ordered q" and w: "on_wire (chRun (get_chain i q))"
  shows "ordered (finish_op i op settle v q)"
proof -
  let ?q = "finish_op i op settle v q"
  have nc: "\<not> is_claimed (chRun (get_chain i q))" using w by (cases "chRun (get_chain i q)") simp_all
  have u: "chUnsent (get_chain j ?q) = chUnsent (get_chain j q)" for j
    using nc by (auto simp: finish_op_chain chUnsent_def)
  have f: "unsent_for k ?q = unsent_for k q" "newest_for k ?q = newest_for k q"
    "last_on_wire k ?q = last_on_wire k q" for k
    by (simp_all add: unsent_for_def u newest_for_def last_on_wire_def finish_op_fields cong: option.case_cong)
  have "ord_newest ?q" using o by (simp add: ordered_def ord_newest_def f)
  moreover have "ord_keys ?q" using o by (auto simp: ordered_def ord_keys_def finish_op_fields finish_op_chain)
  moreover have "ord_clears ?q" using o by (auto simp: ordered_def ord_clears_def finish_op_fields finish_op_chain)
  moreover have "ord_wire ?q" using o unfolding ordered_def ord_wire_def f by (auto simp: finish_op_chain)
  ultimately show ?thesis by (simp add: ordered_def)
qed

lemma abandon_view: "same_view q (abandon op q)"
  by (simp add: same_view_def abandon_def)

lemma start_op_ordered:
  assumes o: "ordered q" and b: "base {i} es q" and r: "chRun (get_chain i q) = WaitWire settle"
    and p: "chInflight (get_chain i q) = Some op" "i = None \<or> chPending (get_chain i q) = None"
    and free: "if i = None then qOnWire q = 0 else qGate q = None"
  shows "ordered (snd (start_op i op settle tnow q))"
proof -
  have on: "ordered (put_on_wire i op settle d q)" for d
    by (rule put_on_wire_ordered [OF o b r p free])
  show ?thesis
  proof (cases tnow)
    case None
    let ?a = "abandon op (put_on_wire i op settle 0 q)"
    have "ordered ?a" by (rule ordered_view [OF on abandon_view])
    moreover have "on_wire (chRun (get_chain i ?a))" by (simp add: abandon_def put_on_wire_chain)
    ultimately show ?thesis using None by (simp add: start_op_def finish_op_ordered)
  qed (use on in \<open>simp add: start_op_def\<close>)
qed

lemma run_loop_ordered:
  "base {i} es q \<Longrightarrow> at_head i q \<Longrightarrow> ordered q \<Longrightarrow> ordered (run_loop i tnow q)"
proof (induction i tnow q rule: run_loop.induct)
  case (1 i tnow q)
  note b = 1(2) and o = 1(4)
  have h: "chRun (get_chain i q) = Idle" "chInflight (get_chain i q) = None" "chBusy (get_chain i q)"
    using 1(3) by (simp_all add: at_head_def)
  consider (fin) "chPending (get_chain i q) = None"
    | (clear) op where "chPending (get_chain i q) = Some op" "i = None"
    | (wait) op g where "chPending (get_chain i q) = Some op" "i \<noteq> None" "qGate q = Some g"
    | (key) op where "chPending (get_chain i q) = Some op" "i \<noteq> None" "qGate q = None"
    by (cases "chPending (get_chain i q)"; cases "qGate q"; cases "i = None") auto
  then show ?case
  proof cases
    case fin
    have "same_view q (end_run i q)" using fin h by (simp add: same_view_def end_run_fields)
    then show ?thesis using ordered_view [OF o] by (simp add: run_loop_end fin)
  next
    case clear
    have "ordered (claim None op q)" using claim_ordered [OF o, of None op] clear h by simp
    moreover have "same_view (claim None op q) ((claim None op q)\<lparr>qWireIdle := w\<rparr>)" for w
      by (simp add: same_view_def)
    ultimately show ?thesis using run_loop_clear clear ordered_view by simp
  next
    case wait
    have "same_view q (put_chain i ((get_chain i q)\<lparr>chRun := WaitGate g\<rparr>) q)" for g
      using h by (simp add: same_view_def)
    then show ?thesis using ordered_view [OF o] run_loop_gate [OF wait] by simp
  next
    case (key op)
    let ?c = "claim i op q" and ?st = "chSettle (get_chain i q)"
    have bc: "base {i} es ?c" by (rule claim_base [OF b _ key(2,1) h(1,2)]) simp
    have oc: "ordered ?c" by (rule claim_ordered [OF o key(1) h(2,1)])
    have rc: "chRun (get_chain i ?c) = WaitWire ?st" "chBusy (get_chain i ?c)"
      "chInflight (get_chain i ?c) = Some op" "chPending (get_chain i ?c) = None"
      using h by (simp_all add: claim_chain)
    have fr: "if i = None then qOnWire ?c = 0 else qGate ?c = None" using key(2,3) by (auto simp: claim_fields)
    obtain again q' where e: "start_op i op ?st tnow ?c = (again, q')" by force
    have oq: "ordered q'" using start_op_ordered [OF oc bc rc(1,3) _ fr, of tnow] rc(4) e by simp
    note s = start_op_base [OF bc rc(1,2,3) fr e]
    have g: "\<not> (i \<noteq> None \<and> qGate q \<noteq> None)" using key by simp
    show ?thesis
    proof (cases again)
      case True
      then have "ordered (run_loop i tnow q')"
        using 1(1) [OF key(1) g refl refl key(2) e [symmetric] refl True] s oq by simp
      then show ?thesis using run_loop_key [OF key] e True by simp
    next
      case False
      then show ?thesis using run_loop_key [OF key] e oq by simp
    qed
  qed
qed

section \<open>The awaits\<close>

lemma attempt_end_ordered:
  assumes b: "base {} {#} q" and o: "ordered q" and r: "chRun (get_chain i q) = Sending settle d a"
    and p: "chInflight (get_chain i q) = Some op"
  shows "ordered (run_loop i tnow (finish_op i op settle v q))"
proof (rule run_loop_ordered)
  have "base {i} {#} q" using b by (auto simp: base_def)
  then show "base {i} {#} (finish_op i op settle v q)" using p r by (intro finish_op_base) auto
  have "get_chain i q \<noteq> empty_chain" using r by auto
  then have "chBusy (get_chain i q)" using base_await [OF b, of i] by (simp add: await_ok_def)
  then show "at_head i (finish_op i op settle v q)" by (simp add: at_head_def finish_op_chain)
  show "ordered (finish_op i op settle v q)" using o r by (intro finish_op_ordered) auto
qed

lemma attempt_ok_ordered: "base {} {#} q \<Longrightarrow> ordered q \<Longrightarrow> ordered (attempt_ok i tnow q)"
  by (auto simp: attempt_ok_def attempt_end_ordered split: qrun.splits option.splits)

lemma attempt_fail_ordered:
  assumes b: "base {} {#} q" and o: "ordered q"
  shows "ordered (attempt_fail i tcatch tnow q)"
proof (cases "\<exists>st d a op. chRun (get_chain i q) = Sending st d a \<and> chInflight (get_chain i q) = Some op")
  case False
  then show ?thesis using o by (auto simp: attempt_fail_def split: qrun.splits option.splits)
next
  case True
  then obtain st d a op where r: "chRun (get_chain i q) = Sending st d a" "chInflight (get_chain i q) = Some op"
    by blast
  show ?thesis
  proof (cases "may_retry (qClosed q) op d tcatch")
    case True
    have "same_view q (put_chain i ((get_chain i q)\<lparr>chRun := Backoff st d a\<rparr>) (q\<lparr>qRetried := qRetried q + 1\<rparr>))"
      using r by (simp add: same_view_def)
    then show ?thesis using True r ordered_view [OF o] by (simp add: attempt_fail_def)
  next
    case False
    have ba: "base {} {#} (abandon op q)" using b by (simp add: abandon_base)
    have oa: "ordered (abandon op q)" by (rule ordered_view [OF o abandon_view])
    from attempt_end_ordered [OF ba oa, of i st d a op tnow False] show ?thesis
      using False r by (simp add: attempt_fail_def) (simp add: abandon_def)
  qed
qed

lemma backoff_fired_ordered:
  assumes o: "ordered q"
  shows "ordered (backoff_fired i q)"
proof (cases "\<exists>st d a op. chRun (get_chain i q) = Backoff st d a \<and> chInflight (get_chain i q) = Some op")
  case False
  then show ?thesis using o by (auto simp: backoff_fired_def split: qrun.splits option.splits)
next
  case True
  then obtain st d a op where r: "chRun (get_chain i q) = Backoff st d a" "chInflight (get_chain i q) = Some op"
    by blast
  let ?q = "(put_chain i ((get_chain i q)\<lparr>chRun := Sending st d (a + 1)\<rparr>) q)\<lparr>qWire := op # qWire q\<rparr>"
  have e: "backoff_fired i q = ?q" using r by (simp add: backoff_fired_def)
  have lw: "last_on_wire k ?q = last_on_wire k q" for k
    using orderedD(8) [OF o, of i op k] r by (auto simp: last_on_wire_def)
  have u: "chUnsent (get_chain j ?q) = chUnsent (get_chain j q)" for j using r by (simp add: chUnsent_def)
  have f: "unsent_for k ?q = unsent_for k q" for k by (simp only: unsent_for_def u)
  moreover have "newest_for k ?q = newest_for k q" for k by (simp add: newest_for_def cong: option.case_cong)
  ultimately have f: "unsent_for k ?q = unsent_for k q" "newest_for k ?q = newest_for k q" for k by blast+
  have "ord_newest ?q" unfolding ord_newest_def f lw using o by (simp add: ordered_def ord_newest_def)
  moreover have "ord_keys ?q" using o by (auto simp: ordered_def ord_keys_def)
  moreover have "ord_clears ?q" using o by (auto simp: ordered_def ord_clears_def)
  moreover have "ord_wire ?q"
    using o r orderedD(8) [OF o, of i op] unfolding ordered_def ord_wire_def lw by auto
  ultimately show ?thesis by (simp add: e ordered_def)
qed

lemma resume_gate_ordered:
  assumes b: "base {} {#} q" and o: "ordered q" and g: "gate_open i q"
  shows "ordered (resume_gate i tnow q)"
proof -
  obtain w where w: "chRun (get_chain i q) = WaitGate w" using g by (auto simp: gate_open_def split: qrun.splits)
  then have n: "chInflight (get_chain i q) = None" using base_chain [OF b, of i] by (simp add: chain_ok_def)
  have "get_chain i q \<noteq> empty_chain" using w by auto
  then have a: "chBusy (get_chain i q)" "i \<noteq> None" using base_await [OF b, of i] w by (auto simp: await_ok_def)
  then obtain k where "i = Some k" by auto
  then have "base {i} {#} (put_chain i ((get_chain i q)\<lparr>chRun := Idle\<rparr>) q)"
    using set_run_base [OF b, of i k Idle "{i}"] n by simp
  moreover have "same_view q (put_chain i ((get_chain i q)\<lparr>chRun := Idle\<rparr>) q)"
    using w by (simp add: same_view_def)
  ultimately show ?thesis
    unfolding resume_gate_def using ordered_view [OF o] n a
    by (intro run_loop_ordered) (simp_all add: at_head_def)
qed

lemma resume_wire_ordered:
  assumes b: "base {} {#} q" and o: "ordered q" and g: "wire_open i q"
  shows "ordered (resume_wire i tnow q)"
proof -
  obtain st where w: "chRun (get_chain i q) = WaitWire st" "i \<notin> set (qWireIdle q)"
    using g by (auto simp: wire_open_def split: qrun.splits)
  then obtain op where p: "chInflight (get_chain i q) = Some op"
    using base_chain [OF b, of i] by (auto simp: chain_ok_def)
  have "get_chain i q \<noteq> empty_chain" using w by auto
  then have a: "chBusy (get_chain i q)" "i = None" using base_await [OF b, of i] w by (auto simp: await_ok_def)
  have free: "if i = None then qOnWire q = 0 else qGate q = None"
    using base_wires [OF b] w a by (simp add: wires_ok_def)
  have bi: "base {i} {#} q" using b by (auto simp: base_def)
  obtain again q' where e: "start_op i op st tnow q = (again, q')" by force
  have "ordered q'" using start_op_ordered [OF o bi w(1) p _ free, of tnow] a e by simp
  then show ?thesis
    using start_op_base [OF bi w(1) a(1) p free e] w p e run_loop_ordered [of i "{#}" q']
    by (auto simp: resume_wire_def split: if_splits)
qed

section \<open>Pushing\<close>

lemma enqueue_ordered:
  assumes o: "ordered q" and pid: "oPid op < qNext q" "\<And>l. qLastClear q = Some l \<Longrightarrow> l < oPid op"
    and v: "\<And>j. get_chain j q' = (if j = Some k then c else get_chain j q)"
    and c: "chPending c = Some op" "chInflight c = chInflight (get_chain (Some k) q)"
      "is_claimed (chRun c) = is_claimed (chRun (get_chain (Some k) q))"
      "on_wire (chRun c) = on_wire (chRun (get_chain (Some k) q))"
    and n: "qNewest q' = AList.update k (oPid op) (qNewest q)" "qLastClear q' = qLastClear q"
      "qNext q' = qNext q" "qWire q' = qWire q"
  shows "ordered q'"
proof -
  have lw: "last_on_wire j q' = last_on_wire j q" for j by (simp add: last_on_wire_def n)
  have nw: "newest_for j q' = (if j = k then Some (oPid op) else newest_for j q)" for j
    by (simp add: newest_for_def n cong: option.case_cong)
  have u: "unsent_for j q' = unsent_for j q" if "j \<noteq> k" for j
    using that by (simp add: unsent_for_def v)
  have "oPid op \<in> unsent_for k q'" using c by (simp add: unsent_for_def v chUnsent_def)
  then have "ord_newest q'"
    using o by (auto simp: ordered_def ord_newest_def nw lw u)
  moreover have "ord_keys q'" using o pid c by (auto simp: ordered_def ord_keys_def v n)
  moreover have "ord_clears q'" using o by (simp add: ordered_def ord_clears_def v n)
  moreover have "ord_wire q'" using o c unfolding ordered_def ord_wire_def lw by (auto simp: v)
  ultimately show ?thesis by (simp add: ordered_def)
qed

lemma push_key_ordered:
  assumes b: "base {} {#oPid op#} q" and o: "ordered q" and op: "op_ok (Some (oKey op)) op"
    and pid: "oPid op < qNext q" "\<And>l. qLastClear q = Some l \<Longrightarrow> l < oPid op"
  shows "ordered (push_key op tnow q)"
proof (cases "qBytes q + oBytes op > qMaxBytes q")
  case True
  have "same_view q (push_key op tnow q)"
    using True by (simp add: push_key_def settle_all_def same_view_def)
  then show ?thesis by (rule ordered_view [OF o])
next
  case False
  then have fits: "qBytes q + oBytes op \<le> qMaxBytes q" by simp
  define i where "i = Some (oKey op)"
  have bz: "get_chain i q = empty_chain \<or> chBusy (get_chain i q)"
    using base_await [OF b, of i] by (auto simp: await_ok_def)
  show ?thesis
  proof (cases "chPending (get_chain i q)")
    case (Some prev)
    show ?thesis
      by (rule enqueue_ordered [OF o pid, where k = "oKey op" and
            c = "(get_chain i q)\<lparr>chPending := Some op, chSettle := chSettle (get_chain i q) @ [oPid op]\<rparr>"])
        (use False Some in \<open>auto simp: push_key_def Let_def i_def\<close>)
  next
    case None
    have st: "chSettle (get_chain i q) = []"
      using base_chain [OF b, of i] None by (simp add: chain_ok_def)
    show ?thesis
    proof (cases "chBusy (get_chain i q)")
      case True
      show ?thesis
        by (rule enqueue_ordered [OF o pid, where k = "oKey op" and
              c = "(get_chain i q)\<lparr>chPending := Some op, chSettle := [oPid op]\<rparr>"])
          (use False None True in \<open>auto simp: push_key_def Let_def i_def\<close>)
    next
      case idle: False
      let ?q = "put_chain i ((get_chain i q)\<lparr>chPending := Some op, chSettle := [oPid op], chBusy := True\<rparr>)
                  (q\<lparr>qNewest := AList.update (oKey op) (oPid op) (qNewest q),
                     qBytes := qBytes q + oBytes op, qCount := qCount q + 1\<rparr>)"
      have "base {i} {#} ?q"
        using enqueue_base [OF b op i_def fits refl, of ?q] None st idle
        by simp (simp add: put_chain_def)
      moreover have "at_head i ?q" using bz idle by (auto simp: at_head_def)
      moreover have "ordered ?q"
        by (rule enqueue_ordered [OF o pid, where k = "oKey op" and
              c = "(get_chain i q)\<lparr>chPending := Some op, chSettle := [oPid op], chBusy := True\<rparr>"])
          (auto simp: i_def)
      moreover have "push_key op tnow q = run_loop i tnow ?q"
        using False None idle by (simp add: push_key_def Let_def i_def [symmetric])
      ultimately show ?thesis using run_loop_ordered by simp
    qed
  qed
qed

text \<open>After a clear is accepted it is the newest for every key, and it is not on the wire yet.\<close>

lemma clear_ordered:
  assumes o: "ordered q" and pid: "oPid op = oPid op1" "oPid op < qNext q'" "\<And>l. qLastClear q = Some l \<Longrightarrow> l < oPid op"
    and v: "\<And>j. chInflight (get_chain j q') = chInflight (get_chain j q)"
      "\<And>j. chRun (get_chain j q') = chRun (get_chain j q)" "\<And>k. chPending (get_chain (Some k) q') = None"
      "chPending (get_chain None q') = Some op1"
    and n: "qNewest q' = []" "qLastClear q' = Some (oPid op)" "qWire q' = qWire q"
  shows "ordered q'"
proof -
  have lw: "last_on_wire j q' = last_on_wire j q" for j by (simp add: last_on_wire_def n)
  have "oPid op \<in> unsent_for k q'" for k using v pid by (simp add: unsent_for_def chUnsent_def)
  then have "ord_newest q'" by (simp add: ord_newest_def newest_for_def n)
  moreover have "ord_keys q'" using v n by (simp add: ord_keys_def)
  moreover have "ord_clears q'"
    using o orderedD(6) [OF o] v n pid by (fastforce simp: ord_clears_def split: if_splits)
  moreover have "ord_wire q'" using o unfolding ordered_def ord_wire_def lw by (simp add: v)
  ultimately show ?thesis by (simp add: ordered_def)
qed

lemma pushClear_ordered:
  assumes b: "base {} {#oPid op#} q" and o: "ordered q" and op: "op_ok None op"
    and pid: "oPid op < qNext q" "\<And>l. qLastClear q = Some l \<Longrightarrow> l < oPid op"
  shows "ordered (pushClear op tnow q)"
proof -
  let ?q0 = "q\<lparr>qNewest := [], qLastClear := Some (oPid op)\<rparr>"
  have b0: "base {} {#oPid op#} ?q0" using b by (rule base_frame) simp_all
  obtain op1 q2 settles q3 where e: "clear_slot op ?q0 = (op1, q2)" "dropPending q2 = (settles, q3)"
    and pc: "pushClear op tnow q =
       (let q4 = put_chain None ((get_chain None q3)\<lparr>chPending := Some (op1\<lparr>oSup := oSup op1 @ settles\<rparr>)\<rparr>) q3
        in if \<not> chBusy (get_chain None q4)
           then run_loop None tnow (put_chain None ((get_chain None q4)\<lparr>chBusy := True\<rparr>) q4)
           else q4)"
    by (rule pushClear_split)
  note s = clear_slot_base [OF b0 op e(1)]
  have p2: "chPending (get_chain None q2) \<noteq> None" using s(3) by simp
  have bx: "base (if chBusy (get_chain None q) then {} else {None}) {#} q2" using s(1,2) by simp
  note d = dropPending_run [OF bx p2 e(2)]
  let ?op = "op1\<lparr>oSup := oSup op1 @ settles\<rparr>"
  have log: "qNewest q3 = []" "qLastClear q3 = Some (oPid op)"
  proof -
    have "qNewest q2 = []" "qLastClear q2 = Some (oPid op)"
      using e(1) by (auto simp: clear_slot_def Let_def split: option.splits)
    then show "qNewest q3 = []" "qLastClear q3 = Some (oPid op)"
      using dropPending_fold [of _ "[]" "{#}" q2 "jskeys (qChains q2)" settles q3] bx e(2) p2
      by (auto simp: dropPending_def)
  qed
  have run: "chInflight (get_chain j q3) = chInflight (get_chain j q)"
    "chRun (get_chain j q3) = chRun (get_chain j q)" for j
    using d(7,8) [of j] s(6,7) s(9) by (cases j; simp)+
  have ord: "ordered (put_chain None c q3)"
    if c: "chPending c = Some ?op" "chInflight c = chInflight (get_chain None q3)" "chRun c = chRun (get_chain None q3)"
    for c
    by (rule clear_ordered [OF o, of op ?op])
      (use pid s(4,10,11) d(3,4,9) run log c in \<open>auto\<close>)
  show ?thesis
  proof (cases "chBusy (get_chain None q)")
    case True
    then have "pushClear op tnow q = put_chain None ((get_chain None q3)\<lparr>chPending := Some ?op\<rparr>) q3"
      using pc s(8) d(2) by (simp add: Let_def)
    then show ?thesis using ord [of "(get_chain None q3)\<lparr>chPending := Some ?op\<rparr>"] by simp
  next
    case False
    let ?c = "(get_chain None q3)\<lparr>chPending := Some ?op, chBusy := True\<rparr>"
    have eq: "pushClear op tnow q = run_loop None tnow (put_chain None ?c (put_chain None
        ((get_chain None q3)\<lparr>chPending := Some ?op\<rparr>) q3))"
      using pc False s(8) d(2) by (simp add: Let_def)
    have two: "put_chain None ?c (put_chain None ((get_chain None q3)\<lparr>chPending := Some ?op\<rparr>) q3) =
        put_chain None ?c q3"
      by (simp add: put_chain_def)
    have b4: "base {None} {#} (put_chain None ?c q3)"
      using superseded_base [of "{None}" settles q3 op1 ?c] d(1,2) s(3) False by simp
    have "get_chain None q = empty_chain" using base_await [OF b, of None] False by (auto simp: await_ok_def)
    then have "at_head None (put_chain None ?c q3)" using s(6,7) d(2) by (simp add: at_head_def)
    then show ?thesis using run_loop_ordered [OF b4] ord [of ?c] eq two by simp
  qed
qed

lemma next_ordered:
  assumes o: "ordered q"
  shows "ordered (q\<lparr>qNext := qNext q + 1\<rparr>)"
proof -
  let ?q = "q\<lparr>qNext := qNext q + 1\<rparr>"
  have f: "unsent_for k ?q = unsent_for k q" "newest_for k ?q = newest_for k q"
    "last_on_wire k ?q = last_on_wire k q" for k
    by (simp_all add: unsent_for_def newest_for_def last_on_wire_def cong: option.case_cong)
  show ?thesis
    using o unfolding ordered_def ord_newest_def ord_wire_def f
    by (auto simp: ord_keys_def ord_clears_def less_SucI)
qed

lemma push_ordered:
  assumes b: "base {} {#} q" and o: "ordered q" and n: "0 \<le> oBytes op"
  shows "ordered (snd (push op tnow q))"
proof -
  let ?op = "op\<lparr>oPid := qNext q, oSup := []\<rparr>" and ?q = "q\<lparr>qNext := qNext q + 1\<rparr>"
  have b1: "base {} {#oPid ?op#} ?q" using base_next [OF b] by simp
  have o1: "ordered ?q" by (rule next_ordered [OF o])
  have pid: "oPid ?op < qNext ?q" "\<And>l. qLastClear ?q = Some l \<Longrightarrow> l < oPid ?op"
    using orderedD(7) [OF o] by simp_all
  show ?thesis
  proof (cases "oKind op = KClear")
    case True
    then have "op_ok None ?op" using n by (simp add: op_ok_def)
    from pushClear_ordered [OF b1 o1 this pid] show ?thesis using True by (simp add: push_def Let_def)
  next
    case False
    then have "op_ok (Some (oKey ?op)) ?op" using n by (simp add: op_ok_def)
    from push_key_ordered [OF b1 o1 this pid] show ?thesis using False by (simp add: push_def Let_def)
  qed
qed

lemma queue_step_ordered: "queue_step q q' \<Longrightarrow> base {} {#} q \<Longrightarrow> ordered q \<Longrightarrow> ordered q'"
proof (induction rule: queue_step.induct)
  case (close q)
  have "same_view q (queue_close q)" by (simp add: same_view_def queue_close_def)
  then show ?case by (rule ordered_view [OF close(2)])
next
  case (drain q w)
  have "same_view q (queue_drain w q)" by (simp add: same_view_def queue_drain_def)
  then show ?case by (rule ordered_view [OF drain(2)])
qed (auto intro: push_ordered resume_gate_ordered resume_wire_ordered attempt_ok_ordered
    attempt_fail_ordered backoff_fired_ordered)

lemma new_queue_ordered: "ordered (new_queue maxBytes retryMs)"
  by (simp add: ordered_def ord_newest_def ord_keys_def ord_clears_def ord_wire_def new_queue_def
      get_chain_def newest_for_def)

interpretation lo: strengthened_invariant queue_step fresh_queue "base {} {#}" ordered
  by unfold_locales (auto simp: fresh_queue_def new_queue_ordered intro: queue_step_ordered)

lemma reach_ordered:
  assumes "queue_reach maxBytes retryMs q" "0 \<le> maxBytes"
  shows "base {} {#} q \<and> ordered q"
  using assms lo.both.inv_reached unfolding queue_reach_def fresh_queue_def by blast

end
