(* ===== verification/L3QueueProps.thy ===== *)
theory L3QueueProps
  imports L3QueueOrder
begin

text \<open>
  The properties of the L3 queue, over every reachable state: each promise is settled exactly once,
  a clear is alone on the wire, the adapter's last word on a key is the newest operation accepted,
  an outstanding operation can always advance, the bytes stay within the bound. The witnesses run
  one write and one clear through the queue.
\<close>

section \<open>A run of the queue\<close>

definition ex_set :: qop where
  "ex_set = \<lparr>oKind = KSet, oKey = [97], oValue = VNull, oTtl = 0, oWillCache = True, oBytes = 10,
             oPid = 0, oSup = []\<rparr>"

definition ex_clear :: qop where
  "ex_clear = \<lparr>oKind = KClear, oKey = [], oValue = VUndef, oTtl = 0, oWillCache = True, oBytes = 0,
               oPid = 0, oSup = []\<rparr>"

definition ex_q0 :: queue where "ex_q0 = new_queue 100 2000"
definition ex_q1 :: queue where "ex_q1 = snd (push ex_set (Some 0) ex_q0)"
definition ex_q2 :: queue where "ex_q2 = snd (push ex_clear (Some 1) ex_q1)"
definition ex_q3 :: queue where "ex_q3 = attempt_ok (Some [97]) (Some 2) ex_q2"
definition ex_q4 :: queue where "ex_q4 = resume_wire None (Some 3) ex_q3"
definition ex_q5 :: queue where "ex_q5 = attempt_ok None (Some 4) ex_q4"

lemma ex_facts:
  "wire_open None ex_q3" "on_wire (chRun (get_chain None ex_q4))" "qCount ex_q5 = 0"
  "newest_for [97] ex_q5 = Some 1" "qCount ex_q2 \<noteq> 0"
  "chRun (get_chain None ex_q4) = Sending [1] 2003 0" "qClosed ex_q4 = False"
  by code_simp+

lemma reach_step: "queue_reach m r q \<Longrightarrow> queue_step q q' \<Longrightarrow> queue_reach m r q'"
  unfolding queue_reach_def by (rule rtranclp.rtrancl_into_rtrancl)

lemma ex_reach:
  "queue_reach 100 2000 ex_q1" "queue_reach 100 2000 ex_q2" "queue_reach 100 2000 ex_q3"
  "queue_reach 100 2000 ex_q4" "queue_reach 100 2000 ex_q5"
proof -
  have "queue_reach 100 2000 ex_q0" by (simp add: queue_reach_def ex_q0_def)
  then show 1: "queue_reach 100 2000 ex_q1"
    unfolding ex_q1_def by (rule reach_step) (rule queue_step.push, simp add: ex_set_def)
  then show 2: "queue_reach 100 2000 ex_q2"
    unfolding ex_q2_def by (rule reach_step) (rule queue_step.push, simp add: ex_clear_def)
  then show 3: "queue_reach 100 2000 ex_q3" unfolding ex_q3_def by (rule reach_step) (rule queue_step.ok)
  then show 4: "queue_reach 100 2000 ex_q4"
    unfolding ex_q4_def by (rule reach_step) (rule queue_step.wire, rule ex_facts)
  then show "queue_reach 100 2000 ex_q5" unfolding ex_q5_def by (rule reach_step) (rule queue_step.ok)
qed

section \<open>Facts of a reachable state\<close>

lemma idle_chain:
  assumes "chain_ok i c" "chCount c = 0"
  shows "chHeld c = {#}" "chUnsent c = {}"
proof -
  have "chPending c = None" "chInflight c = None" using assms(2) by (simp_all add: chCount_zero_iff)
  moreover from this have "chSettle c = []" "run_settle (chRun c) = []"
    using assms(1) by (auto simp: chain_ok_def is_gate_def split: qrun.splits)
  ultimately show "chHeld c = {#}" "chUnsent c = {}" by (simp_all add: chHeld_def chOps_def chUnsent_def)
qed

lemma wsum_empty: "(\<And>k v. (k, v) \<in> set m \<Longrightarrow> f v = {#}) \<Longrightarrow> wsum f m = {#}"
proof (induction m)
  case (Cons a m)
  then show ?case by (cases a) auto
qed simp

lemma idle_queue:
  assumes "base {} {#} q" "qCount q = 0"
  shows "qsum chHeld q = {#}" "unsent_for k q = {}"
proof -
  have z: "chCount (get_chain i q) = 0" for i by (rule count_zero [OF base_accounts [OF assms(1)] assms(2)])
  have e: "chHeld (get_chain i q) = {#}" "chUnsent (get_chain i q) = {}" for i
    using idle_chain [OF base_chain [OF assms(1), of i] z] by simp_all
  have "chHeld c = {#}" if "(i, c) \<in> set (qChains q)" for i c
  proof -
    have "map_of (qChains q) i = Some c" using that assms(1) by (simp add: base_def accounts_def)
    then show ?thesis using e(1) [of i] by (simp add: get_chain_def)
  qed
  then show "qsum chHeld q = {#}" by (auto simp: qsum_def intro: wsum_empty)
  show "unsent_for k q = {}" by (simp add: unsent_for_def e(2))
qed

lemma wire_alone:
  assumes "base {} {#} q" "on_wire (chRun (get_chain None q))" "i \<noteq> None"
  shows "\<not> on_wire (chRun (get_chain i q))"
proof -
  let ?q = "put_chain None empty_chain q"
  have w: "wf_map (qChains q)" using assms(1) by (simp add: base_def accounts_def)
  have "qsum chWire q = 1" using assms by (simp add: base_def wires_ok_def accounts_def)
  then have z: "qsum chWire ?q = 0"
    using qsum_put_int [of q chWire None empty_chain] w assms(2) by (simp add: chWire_def)
  show ?thesis
  proof (cases "get_chain i q = empty_chain")
    case False
    have "get_chain i ?q = get_chain i q" using assms(3) by auto
    moreover have "chWire (get_chain i ?q) \<le> 0"
      using wsum_mem_le [OF get_chain_mem, of i ?q chWire] z False assms(3) by (simp add: qsum_def)
    ultimately show ?thesis by (auto simp: chWire_def split: if_splits)
  qed simp
qed

lemma can_advance:
  assumes b: "base {} {#} q" and n: "qCount q \<noteq> 0"
  shows "\<exists>i. gate_open i q \<or> wire_open i q \<or> on_wire (chRun (get_chain i q))"
proof (rule ccontr)
  assume no: "\<not> ?thesis"
  obtain i where i: "chCount (get_chain i q) \<noteq> 0" using count_nonzero [OF base_accounts [OF b] n] by blast
  have aw: "get_chain j q = empty_chain \<or> await_ok j (get_chain j q)" for j using base_await [OF b] by simp
  have z: "qOnWire q = 0"
  proof -
    have "chWire c = 0" if "(j, c) \<in> set (qChains q)" for j c
    proof -
      have "map_of (qChains q) j = Some c" using that b by (simp add: base_def accounts_def)
      then have "get_chain j q = c" by (simp add: get_chain_def)
      then show ?thesis using no by (auto simp: chWire_def)
    qed
    then show ?thesis
      using wsum_zero_iff [of chWire "qChains q"] b by (auto simp: base_def accounts_def qsum_def)
  qed
  have nc: "\<not> is_claimed (chRun (get_chain None q))"
  proof
    assume c: "is_claimed (chRun (get_chain None q))"
    have "None \<notin> set (qWireIdle q)" using base_wires [OF b] z by (auto simp: wires_ok_def)
    then have "wire_open None q" using c by (auto simp: wire_open_def is_claimed_def split: qrun.splits)
    then show False using no by blast
  qed
  have "\<not> on_wire (chRun (get_chain None q))" using no by blast
  then have "get_chain None q = empty_chain"
    using aw [of None] nc by (cases "chRun (get_chain None q)") (auto simp: await_ok_def)
  then have g: "qGate q = None" using base_gates [OF b] by (simp add: gates_ok_def)
  have "get_chain i q \<noteq> empty_chain" using i by auto
  then have "await_ok i (get_chain i q)" using aw by blast
  moreover have "i \<noteq> None" using i \<open>get_chain None q = empty_chain\<close> by (metis empty_chain_totals(3))
  moreover have "\<not> on_wire (chRun (get_chain i q))" using no by blast
  ultimately obtain w where "chRun (get_chain i q) = WaitGate w"
    by (cases "chRun (get_chain i q)") (auto simp: await_ok_def)
  then have "gate_open i q" using g by (simp add: gate_open_def)
  then show False using no by blast
qed

text \<open>A push that is accepted leaves its operation outstanding.\<close>

lemma run_loop_other: "j \<noteq> i \<Longrightarrow> get_chain j (run_loop i t q) = get_chain j q"
proof (induction i t q rule: run_loop.induct)
  case (1 i t q)
  have s: "get_chain j (snd (start_op i op st t (claim i op q))) = get_chain j q" for op st
    using 1(2) by (auto simp: start_op_def put_on_wire_chain claim_chain finish_op_chain abandon_def split: option.splits)
  show ?case
  proof (cases "\<exists>op. chPending (get_chain i q) = Some op \<and> i \<noteq> None \<and> qGate q = None")
    case True
    then obtain op where p: "chPending (get_chain i q) = Some op" "i \<noteq> None" "qGate q = None" by blast
    obtain again q' where e: "start_op i op (chSettle (get_chain i q)) t (claim i op q) = (again, q')" by force
    have "get_chain j q' = get_chain j q" using s [of op "chSettle (get_chain i q)"] e by simp
    moreover have "get_chain j (run_loop i t q') = get_chain j q'" if again
      using 1(1) [OF p(1) _ refl refl p(2) e [symmetric] refl that 1(2)] p by simp
    ultimately show ?thesis using run_loop_key [OF p] e by simp
  next
    case False
    then show ?thesis
      using 1(2) by (subst run_loop.simps) (auto simp: claim_chain Let_def split: option.splits)
  qed
qed

lemma outstanding_chain:
  "outstandingKind q k =
     (case chPending (get_chain (Some k) q) of
        Some op \<Rightarrow> Some (oKind op)
      | None \<Rightarrow> map_option oKind (chInflight (get_chain (Some k) q)))"
  by (simp add: outstandingKind_def get_chain_def split: option.split)

lemma run_loop_starts:
  assumes "chPending (get_chain (Some k) q) = Some op"
  shows "outstandingKind (run_loop (Some k) (Some t) q) k = Some (oKind op)"
  using assms
  by (cases "qGate q")
    (simp_all add: outstanding_chain run_loop_gate run_loop_key start_op_def put_on_wire_chain claim_chain)

lemma push_key_outstanding:
  assumes "qBytes q + oBytes op \<le> qMaxBytes q"
  shows "outstandingKind (push_key op (Some t) q) (oKey op) = Some (oKind op)"
  using assms
  by (auto simp: push_key_def Let_def run_loop_starts outstanding_chain [of "put_chain _ _ _"] split: option.split)

section \<open>Properties\<close>







text \<open>C17: The queue is never stuck: in every reachable state with an operation outstanding some run
can take its next step: one whose gate has been released, the clear that waited for the wire, or
an operation on the wire, whose attempt or backoff is bounded by a timer.\<close>

theorem queue_never_stuck:
  assumes "queue_reach maxBytes retryMs q" "0 \<le> maxBytes" "qCount q \<noteq> 0"
  shows "\<exists>i. gate_open i q \<or> wire_open i q \<or> on_wire (chRun (get_chain i q))"
  using can_advance assms reach_ordered by blast

theorem queue_never_stuck_witness: "\<exists>i. gate_open i ex_q2 \<or> wire_open i ex_q2 \<or> on_wire (chRun (get_chain i ex_q2))"
  by (rule queue_never_stuck [OF ex_reach(2)]) (simp_all add: ex_facts)

text \<open>C18: The memory bound: in every reachable state the byte counter is the total of the operations
outstanding, in the slots and on the wire, and it exceeds the configured bound by at most the
bytes of the clears, which are never shed.\<close>

theorem queue_bytes_bounded:
  assumes "queue_reach maxBytes retryMs q" "0 \<le> maxBytes"
  shows "qBytes q = qsum chBytes q \<and> qCount q = qsum chCount q \<and>
         qBytes q \<le> qMaxBytes q + chBytes (get_chain None q)"
  using reach_ordered [OF assms] by (simp add: base_def accounts_def bound_ok_def)

theorem queue_bytes_bounded_witness:
  "qBytes ex_q2 = qsum chBytes ex_q2 \<and> qCount ex_q2 = qsum chCount ex_q2 \<and>
   qBytes ex_q2 \<le> qMaxBytes ex_q2 + chBytes (get_chain None ex_q2)"
  by (rule queue_bytes_bounded [OF ex_reach(2)]) simp

text \<open>What a push answers: an operation on a key that would pass the byte bound is settled false
at once and changes no chain; any other is outstanding when the push returns, so that
outstandingKind answers its kind until it settles or a newer operation replaces it.\<close>

theorem queue_push_outcome:
  "oKind op = KClear \<or>
   (if qBytes q + oBytes op > qMaxBytes q
    then qChains (snd (push op (Some t) q)) = qChains q \<and>
         qSettled (snd (push op (Some t) q)) = qSettled q @ [(qNext q, False)]
    else outstandingKind (snd (push op (Some t) q)) (oKey op) = Some (oKind op))"
proof -
  let ?op = "op\<lparr>oPid := qNext q, oSup := []\<rparr>"
  have o: "outstandingKind (push_key ?op (Some t) (q\<lparr>qNext := qNext q + 1\<rparr>)) (oKey op) = Some (oKind op)"
    if "\<not> qBytes q + oBytes op > qMaxBytes q"
    using that push_key_outstanding [of "q\<lparr>qNext := qNext q + 1\<rparr>" ?op t] by simp
  then show ?thesis by (auto simp: push_def Let_def push_key_def settle_all_def)
qed

text \<open>The retry rule: after a failed attempt a clear on a queue in service is never abandoned, it
backs off; once the queue is closed a failed attempt ends any operation, with a report to the
error listener and its promises settled false.\<close>

theorem queue_retry_rule:
  assumes "chRun (get_chain i q) = Sending settle d a" "chInflight (get_chain i q) = Some op"
  shows "(if qClosed q
          then attempt_fail i tcatch tnow q = run_loop i tnow (finish_op i op settle False (abandon op q))
          else oKind op = KClear \<longrightarrow>
               chRun (get_chain i (attempt_fail i tcatch tnow q)) = Backoff settle d a \<and>
               qFailed (attempt_fail i tcatch tnow q) = qFailed q)"
  using assms by (simp add: attempt_fail_def may_retry_def)

theorem queue_retry_rule_witness:
  "chRun (get_chain None (attempt_fail None None None ex_q4)) = Backoff [1] 2003 0 \<and>
   qFailed (attempt_fail None None None ex_q4) = qFailed ex_q4"
proof -
  have "chInflight (get_chain None ex_q4) \<noteq> None" "oKind (the (chInflight (get_chain None ex_q4))) = KClear"
    by code_simp+
  then obtain op where "chInflight (get_chain None ex_q4) = Some op" "oKind op = KClear" by auto
  then show ?thesis using queue_retry_rule [OF ex_facts(6), of op None None] ex_facts(7) by simp
qed

end
