(* ===== verification/Marks.thy ===== *)
theory Marks
  imports JsText
begin

text \<open>
  The class \<^verbatim>\<open>PendingMarks\<close> of \<^verbatim>\<open>src/src/turbokv.js\<close> (lines 351 to 507): what a worker has
  submitted and not seen land, one mark per key, in insertion order, with an index from the hash of
  a key to the key. A position on the invalidation ring is a natural number; a position on the
  submission ring is an integer, \<open>-1\<close> for unknowable. The process-wide counter \<^verbatim>\<open>markSeq\<close> is
  passed in and out of \<open>mark\<close>.

  \<open>marks_wf\<close> is the invariant every operation keeps: distinct keys within the bound, the hash
  recorded for a key is the hash of that key, and every entry of the index names a marked key.
  \<open>marks_indexed\<close> adds that every marked key is found by its hash; it is kept while no two keys in
  use share a hash. The locale \<open>pending_set\<close> is what the drain of the cache relies on.
\<close>

definition PENDING_MARK_MAX :: nat where "PENDING_MARK_MAX = 4096"
definition PENDING_MARK_SCAN :: nat where "PENDING_MARK_SCAN = 64"

record markRec =
  mHash :: hash
  mAt :: nat
  mSeq :: nat
  mSub :: int

record pendingMarks =
  byKey :: "(jsstr, markRec) jsmap"
  byHash :: "(hash, jsstr) jsmap"

definition empty_marks :: pendingMarks where
  "empty_marks = \<lparr>byKey = [], byHash = []\<rparr>"

definition mk_size :: "pendingMarks \<Rightarrow> nat" where
  "mk_size m = length (byKey m)"

definition mk_has :: "pendingMarks \<Rightarrow> jsstr \<Rightarrow> bool" where
  "mk_has m key = (map_of (byKey m) key \<noteq> None)"

definition mk_clear :: "pendingMarks \<Rightarrow> pendingMarks" where
  "mk_clear m = m\<lparr>byKey := [], byHash := []\<rparr>"

text \<open>Removal of a hash index entry, guarded on it still naming the key.\<close>

definition unindex :: "hash \<Rightarrow> jsstr \<Rightarrow> (hash, jsstr) jsmap \<Rightarrow> (hash, jsstr) jsmap" where
  "unindex h key bh = (if map_of bh h = Some key then AList.delete h bh else bh)"

definition mk_mark ::
    "jsstr \<Rightarrow> hash \<Rightarrow> nat \<Rightarrow> int \<Rightarrow> nat \<times> pendingMarks \<Rightarrow> nat \<times> pendingMarks" where
  "mk_mark key h at sub sm =
     (let (markSeq, m) = sm;
          bk = AList.delete key (byKey m);
          (bk1, bh1) =
            (if PENDING_MARK_MAX \<le> length bk then
               (case bk of
                  [] \<Rightarrow> (bk, byHash m)
                | (ok, om) # rest \<Rightarrow> (AList.delete ok bk, unindex (mHash om) ok (byHash m)))
             else (bk, byHash m));
          seq = markSeq + 1
      in (seq, m\<lparr>byKey := AList.update key \<lparr>mHash = h, mAt = at, mSeq = seq, mSub = sub\<rparr> bk1,
                 byHash := AList.update h key bh1\<rparr>))"

definition mk_submittedAt :: "pendingMarks \<Rightarrow> jsstr \<Rightarrow> int option" where
  "mk_submittedAt m key = map_option mSub (map_of (byKey m) key)"

definition mk_touch :: "jsstr \<Rightarrow> pendingMarks \<Rightarrow> pendingMarks" where
  "mk_touch key m =
     (case map_of (byKey m) key of
        None \<Rightarrow> m
      | Some r \<Rightarrow> m\<lparr>byKey := AList.update key r (AList.delete key (byKey m))\<rparr>)"

definition mk_release :: "jsstr \<Rightarrow> pendingMarks \<Rightarrow> pendingMarks" where
  "mk_release key m =
     (case map_of (byKey m) key of
        None \<Rightarrow> m
      | Some r \<Rightarrow> m\<lparr>byKey := AList.delete key (byKey m), byHash := unindex (mHash r) key (byHash m)\<rparr>)"

definition mk_releaseUpTo :: "jsstr \<Rightarrow> nat \<Rightarrow> pendingMarks \<Rightarrow> pendingMarks" where
  "mk_releaseUpTo key seq m =
     (case map_of (byKey m) key of
        None \<Rightarrow> m
      | Some r \<Rightarrow> if mSeq r > seq then m else mk_release key m)"

definition mk_matchAt :: "pendingMarks \<Rightarrow> hash \<Rightarrow> nat \<Rightarrow> jsstr option" where
  "mk_matchAt m h pos =
     (case map_of (byHash m) h of
        None \<Rightarrow> None
      | Some key \<Rightarrow>
          (case map_of (byKey m) key of
             None \<Rightarrow> None
           | Some r \<Rightarrow> if mAt r \<le> pos then Some key else None))"

section \<open>The invariant\<close>

definition marks_wf :: "(jsstr \<Rightarrow> hash) \<Rightarrow> pendingMarks \<Rightarrow> bool" where
  "marks_wf H m \<longleftrightarrow>
     wf_map (byKey m) \<and> wf_map (byHash m) \<and> length (byKey m) \<le> PENDING_MARK_MAX \<and>
     (\<forall>k r. map_of (byKey m) k = Some r \<longrightarrow> mHash r = H k) \<and>
     (\<forall>h k. map_of (byHash m) h = Some k \<longrightarrow> H k = h \<and> mk_has m k)"

definition marks_indexed :: "(jsstr \<Rightarrow> hash) \<Rightarrow> jsstr set \<Rightarrow> pendingMarks \<Rightarrow> bool" where
  "marks_indexed H K m \<longleftrightarrow>
     (\<forall>k. mk_has m k \<longrightarrow> k \<in> K \<and> map_of (byHash m) (H k) = Some k)"

lemma marks_wf_byKey: "marks_wf H m \<Longrightarrow> wf_map (byKey m)"
  and marks_wf_byHash: "marks_wf H m \<Longrightarrow> wf_map (byHash m)"
  and marks_wf_hash: "marks_wf H m \<Longrightarrow> map_of (byKey m) k = Some r \<Longrightarrow> mHash r = H k"
  and marks_wf_index: "marks_wf H m \<Longrightarrow> map_of (byHash m) h = Some k \<Longrightarrow> H k = h \<and> mk_has m k"
  and marks_wf_bound: "marks_wf H m \<Longrightarrow> mk_size m \<le> PENDING_MARK_MAX"
  by (auto simp: marks_wf_def mk_size_def)

lemma map_of_unindex:
  "map_of (unindex h key bh) x = (if x = h \<and> map_of bh h = Some key then None else map_of bh x)"
  by (simp add: unindex_def)

lemma wf_unindex [simp]: "wf_map bh \<Longrightarrow> wf_map (unindex h key bh)"
  by (simp add: unindex_def)

lemma empty_marks_wf [wf_intros, simp]: "marks_wf H empty_marks"
  by (simp add: marks_wf_def empty_marks_def)

lemma mk_clear_wf [wf_intros, simp]: "marks_wf H (mk_clear m)"
  by (simp add: marks_wf_def mk_clear_def)

text \<open>What each operation does to the record of a key.\<close>

lemma mk_release_lookup [simp]:
  "map_of (byKey (mk_release k m)) x = (if x = k then None else map_of (byKey m) x)"
  by (auto simp: mk_release_def split: option.splits)

lemma mk_touch_lookup [simp]: "map_of (byKey (mk_touch k m)) x = map_of (byKey m) x"
  by (auto simp: mk_touch_def split: option.splits)

lemma mk_touch_byHash [simp]: "byHash (mk_touch k m) = byHash m"
  by (auto simp: mk_touch_def split: option.splits)

lemma mk_touch_has [simp]: "mk_has (mk_touch k m) x = mk_has m x"
  by (simp add: mk_has_def)

lemma mk_release_has [simp]: "mk_has (mk_release k m) x \<longleftrightarrow> x \<noteq> k \<and> mk_has m x"
  by (simp add: mk_has_def)

lemma mk_clear_lookup [simp]: "map_of (byKey (mk_clear m)) x = None"
  by (simp add: mk_clear_def)

lemma mk_releaseUpTo_lookup:
  "map_of (byKey (mk_releaseUpTo k seq m)) x =
     (if x = k \<and> (\<exists>r. map_of (byKey m) k = Some r \<and> mSeq r \<le> seq) then None else map_of (byKey m) x)"
  by (auto simp: mk_releaseUpTo_def split: option.splits)

definition mark_victim :: "jsstr \<Rightarrow> pendingMarks \<Rightarrow> jsstr option" where
  "mark_victim key m = map_option fst (bounded_victim PENDING_MARK_MAX key (byKey m))"

lemma mk_mark_byKey:
  assumes "wf_map (byKey m)"
  shows "byKey (snd (mk_mark key h at sub (s, m))) =
           bounded_push PENDING_MARK_MAX key \<lparr>mHash = h, mAt = at, mSeq = s + 1, mSub = sub\<rparr> (byKey m)"
proof -
  let ?d = "AList.delete key (byKey m)"
  have "AList.delete (fst p) (p # r) = r" if "?d = p # r" for p r
  proof -
    have "wf_map (p # r)" using that assms by (metis wf_map_delete)
    then show ?thesis by (cases p) (simp add: delete_absent)
  qed
  then show ?thesis
    by (auto simp: mk_mark_def bounded_push_def Let_def split: list.splits prod.splits)
qed

lemma mk_mark_seq [simp]: "fst (mk_mark key h at sub (s, m)) = s + 1"
  by (auto simp: mk_mark_def Let_def split: list.splits prod.splits)

lemma mk_mark_lookup:
  assumes "wf_map (byKey m)"
  shows "map_of (byKey (snd (mk_mark key h at sub (s, m)))) x =
           (if x = key then Some \<lparr>mHash = h, mAt = at, mSeq = s + 1, mSub = sub\<rparr>
            else if mark_victim key m = Some x then None else map_of (byKey m) x)"
  using assms by (simp add: mk_mark_byKey bounded_push_lookup mark_victim_def)

lemma mk_mark_byHash:
  "byHash (snd (mk_mark key h at sub (s, m))) =
     AList.update h key (case bounded_victim PENDING_MARK_MAX key (byKey m) of
                           None \<Rightarrow> byHash m
                         | Some (ok, om) \<Rightarrow> unindex (mHash om) ok (byHash m))"
  by (auto simp: mk_mark_def bounded_victim_def Let_def split: list.splits prod.splits)

lemma mk_mark_index:
  assumes "wf_map (byKey m)" "map_of (byHash (snd (mk_mark key h at sub (s, m)))) x = Some k" "x \<noteq> h"
  shows "map_of (byHash m) x = Some k \<and>
         (mark_victim key m = Some k \<longrightarrow> (\<exists>r. map_of (byKey m) k = Some r \<and> mHash r \<noteq> x))"
proof (cases "bounded_victim PENDING_MARK_MAX key (byKey m)")
  case None
  then show ?thesis using assms by (simp add: mk_mark_byHash mark_victim_def)
next
  case (Some p)
  obtain ok om where p: "p = (ok, om)" by force
  have mem: "map_of (byKey m) ok = Some om" using bounded_victim_mem [OF assms(1)] Some p by blast
  have "map_of (unindex (mHash om) ok (byHash m)) x = Some k"
    using assms(2,3) Some p by (simp add: mk_mark_byHash)
  then show ?thesis using Some p mem by (auto simp: map_of_unindex mark_victim_def split: if_splits)
qed

lemma mk_mark_wf [wf_intros, simp]:
  assumes "marks_wf H m" "h = H key"
  shows "marks_wf H (snd (mk_mark key h at sub (s, m)))"
proof -
  let ?m = "snd (mk_mark key h at sub (s, m))"
  note k = marks_wf_byKey [OF assms(1)]
  have "wf_map (byKey ?m)" using k by (simp add: mk_mark_byKey)
  moreover have "wf_map (byHash ?m)"
    using marks_wf_byHash [OF assms(1)] by (auto simp: mk_mark_byHash split: option.splits prod.splits)
  moreover have "length (byKey ?m) \<le> PENDING_MARK_MAX"
    using k marks_wf_bound [OF assms(1)]
    by (simp add: mk_mark_byKey mk_size_def bounded_push_length PENDING_MARK_MAX_def)
  moreover have "\<forall>k r. map_of (byKey ?m) k = Some r \<longrightarrow> mHash r = H k"
    using k marks_wf_hash [OF assms(1)] assms(2) by (auto simp: mk_mark_lookup split: if_splits)
  moreover have "H k' = x \<and> mk_has ?m k'" if "map_of (byHash ?m) x = Some k'" for x k'
  proof (cases "x = h")
    case True
    then have "k' = key" using that by (auto simp: mk_mark_byHash)
    then show ?thesis using True assms(2) k by (simp add: mk_has_def mk_mark_lookup)
  next
    case False
    from mk_mark_index [OF k that False]
    have old: "map_of (byHash m) x = Some k'"
      and vic: "mark_victim key m = Some k' \<longrightarrow> (\<exists>r. map_of (byKey m) k' = Some r \<and> mHash r \<noteq> x)"
      by blast+
    have "H k' = x" "mk_has m k'" using marks_wf_index [OF assms(1) old] by auto
    then have "mark_victim key m \<noteq> Some k'" using vic marks_wf_hash [OF assms(1)] by auto
    then show ?thesis using \<open>H k' = x\<close> \<open>mk_has m k'\<close> k by (auto simp: mk_has_def mk_mark_lookup)
  qed
  ultimately show ?thesis by (auto simp: marks_wf_def)
qed

lemma mk_release_wf [wf_intros, simp]:
  assumes "marks_wf H m"
  shows "marks_wf H (mk_release k m)"
proof (cases "map_of (byKey m) k")
  case None
  then show ?thesis using assms by (simp add: mk_release_def)
next
  case (Some r)
  have "mHash r = H k" using marks_wf_hash [OF assms Some] .
  have idx: "H k' = x \<and> mk_has (mk_release k m) k'"
    if "map_of (unindex (mHash r) k (byHash m)) x = Some k'" for x k'
    using that marks_wf_index [OF assms, of x k'] \<open>mHash r = H k\<close>
    by (auto simp: map_of_unindex mk_has_def split: if_splits)
  show ?thesis
    using assms Some idx length_delete_le [of k "byKey m"]
    by (auto simp: marks_wf_def mk_release_def)
qed

lemma mk_releaseUpTo_wf [wf_intros, simp]: "marks_wf H m \<Longrightarrow> marks_wf H (mk_releaseUpTo k seq m)"
  by (auto simp: mk_releaseUpTo_def split: option.splits)

lemma mk_touch_wf [wf_intros, simp]:
  assumes "marks_wf H m"
  shows "marks_wf H (mk_touch k m)"
proof (cases "map_of (byKey m) k")
  case None
  then show ?thesis using assms by (simp add: mk_touch_def)
next
  case (Some r)
  have abs: "k \<notin> fst ` set (AList.delete k (byKey m))"
    using set_jskeys_delete [of k "byKey m"] by simp
  have "length (byKey (mk_touch k m)) = length (byKey m)"
  proof -
    have "length (byKey m) \<noteq> 0" using Some by auto
    then show ?thesis
      using abs length_delete_present [OF marks_wf_byKey [OF assms] map_of_Some_mem [OF Some]] Some
      by (simp add: mk_touch_def update_absent)
  qed
  moreover have "wf_map (byKey (mk_touch k m))"
    using assms Some by (simp add: mk_touch_def marks_wf_byKey)
  ultimately show ?thesis
    using assms by (simp add: marks_wf_def)
qed

section \<open>Completeness of the hash index\<close>

lemma marks_indexed_empty [simp]: "marks_indexed H K empty_marks"
  by (simp add: marks_indexed_def mk_has_def empty_marks_def)

lemma mk_mark_indexed:
  assumes wf: "marks_wf H m" and idx: "marks_indexed H K m" and inj: "inj_on H K"
    and key: "key \<in> K" and h: "h = H key"
  shows "marks_indexed H K (snd (mk_mark key h at sub (s, m)))"
  unfolding marks_indexed_def
proof (intro allI impI conjI)
  fix k
  let ?m = "snd (mk_mark key h at sub (s, m))"
  note bk = marks_wf_byKey [OF wf]
  assume "mk_has ?m k"
  then have k: "k = key \<or> (mark_victim key m \<noteq> Some k \<and> mk_has m k)"
    using bk by (auto simp: mk_has_def mk_mark_lookup split: if_splits)
  then show kK: "k \<in> K" using idx key by (auto simp: marks_indexed_def)
  show "map_of (byHash ?m) (H k) = Some k"
  proof (cases "k = key")
    case True
    then show ?thesis using h by (simp add: mk_mark_byHash)
  next
    case False
    with k have "mark_victim key m \<noteq> Some k" "map_of (byHash m) (H k) = Some k"
      using idx by (auto simp: marks_indexed_def)
    moreover have "H k \<noteq> h" using inj kK key h False by (auto dest: inj_onD)
    ultimately show ?thesis
      by (auto simp: mk_mark_byHash map_of_unindex mark_victim_def split: option.splits)
  qed
qed

lemma mk_release_indexed:
  assumes "marks_wf H m" "marks_indexed H K m"
  shows "marks_indexed H K (mk_release k m)"
  using assms
  by (auto simp: marks_indexed_def mk_has_def mk_release_def map_of_unindex split: option.splits)

lemma mk_touch_indexed: "marks_indexed H K m \<Longrightarrow> marks_indexed H K (mk_touch k m)"
  by (simp add: marks_indexed_def mk_has_def)

lemma mk_matchAt_Some:
  assumes "marks_wf H m"
  shows "mk_matchAt m h pos = Some k \<Longrightarrow> H k = h \<and> (\<exists>r. map_of (byKey m) k = Some r \<and> mAt r \<le> pos)"
  using marks_wf_index [OF assms] by (auto simp: mk_matchAt_def split: option.splits if_splits)

lemma mk_matchAt_iff:
  assumes "marks_wf H m" "marks_indexed H K m" "inj_on H K" "k \<in> K"
  shows "mk_matchAt m (H k) pos = Some k \<longleftrightarrow> (\<exists>r. map_of (byKey m) k = Some r \<and> mAt r \<le> pos)"
proof
  assume "mk_matchAt m (H k) pos = Some k"
  then show "\<exists>r. map_of (byKey m) k = Some r \<and> mAt r \<le> pos" using mk_matchAt_Some [OF assms(1)] by blast
next
  assume "\<exists>r. map_of (byKey m) k = Some r \<and> mAt r \<le> pos"
  then show "mk_matchAt m (H k) pos = Some k"
    using assms(2) by (auto simp: marks_indexed_def mk_has_def mk_matchAt_def)
qed

section \<open>Properties\<close>

text \<open>The mark sets a process can reach, whatever order its operations come in; \<open>K\<close> are its keys.\<close>

inductive marks_reach :: "(jsstr \<Rightarrow> hash) \<Rightarrow> jsstr set \<Rightarrow> pendingMarks \<Rightarrow> bool" for H K where
  start: "marks_reach H K empty_marks"
| mark: "marks_reach H K m \<Longrightarrow> key \<in> K \<Longrightarrow> marks_reach H K (snd (mk_mark key (H key) at sub (seq, m)))"
| touch: "marks_reach H K m \<Longrightarrow> marks_reach H K (mk_touch key m)"
| release: "marks_reach H K m \<Longrightarrow> marks_reach H K (mk_release key m)"
| releaseUpTo: "marks_reach H K m \<Longrightarrow> marks_reach H K (mk_releaseUpTo key seq m)"
| clear: "marks_reach H K m \<Longrightarrow> marks_reach H K (mk_clear m)"

lemma mk_releaseUpTo_indexed:
  "marks_wf H m \<Longrightarrow> marks_indexed H K m \<Longrightarrow> marks_indexed H K (mk_releaseUpTo k seq m)"
  by (simp add: mk_releaseUpTo_def mk_release_indexed split: option.split)

lemma marks_reach_inv:
  "marks_reach H K m \<Longrightarrow> marks_wf H m \<and> (inj_on H K \<longrightarrow> marks_indexed H K m)"
proof (induction rule: marks_reach.induct)
  case (mark m key at sub seq)
  then show ?case using mk_mark_indexed [of H m K key "H key"] by simp
next
  case (clear m)
  then show ?case using mk_clear_wf by (simp add: marks_indexed_def mk_has_def)
qed (simp_all add: mk_touch_indexed mk_release_indexed mk_releaseUpTo_indexed)

text \<open>C20: In every mark set a process can reach there are at most 4096 marks, and, while no two of its keys
  share a hash, looking a ring record up by hash finds a key exactly when that key is marked and
  the record is not older than the mark: no landing is missed and none is credited to another key.\<close>

theorem marks_match_exactly:
  assumes "marks_reach H K m" "inj_on H K" "k \<in> K"
  shows "(mk_matchAt m (H k) pos = Some k \<longleftrightarrow> (\<exists>r. map_of (byKey m) k = Some r \<and> mAt r \<le> pos)) \<and>
         mk_size m \<le> PENDING_MARK_MAX"
  using marks_reach_inv [OF assms(1)] mk_matchAt_iff [of H m K k pos] assms(2,3) marks_wf_bound by blast

text \<open>The key \<open>a\<close> marked at ring position 7, with sequence number 1; the record at 9 is its landing.\<close>

theorem marks_match_exactly_witness:
  "mk_matchAt (snd (mk_mark [0x61] 5 7 3 (0, empty_marks))) 5 9 = Some [0x61]"
proof -
  have r: "marks_reach (\<lambda>_. 5) {[0x61]} (snd (mk_mark [0x61] 5 7 3 (0, empty_marks)))"
    using marks_reach.mark [OF marks_reach.start, of "[0x61]" "{[0x61]}" "\<lambda>_. 5" 7 3 0] by simp
  show ?thesis using marks_match_exactly [OF r, of "[0x61]" 9]
    by (simp add: mk_mark_def empty_marks_def PENDING_MARK_MAX_def)
qed

section \<open>The interface of the drain\<close>

text \<open>
  What a pass over the marks relies on: a mark that is kept is moved and not changed, and a mark
  that is let go is gone while every other stays. \<open>sweep\<close> is such a pass, over a list of keys, with
  the question \<open>keep\<close> the pass asks of each mark.
\<close>

locale pending_set =
  fixes lookup :: "'m \<Rightarrow> 'k \<Rightarrow> 'r option"
    and touch :: "'k \<Rightarrow> 'm \<Rightarrow> 'm"
    and release :: "'k \<Rightarrow> 'm \<Rightarrow> 'm"
    and ok :: "'m \<Rightarrow> bool"
  assumes touch_lookup: "lookup (touch k m) x = lookup m x"
    and release_lookup: "lookup (release k m) x = (if x = k then None else lookup m x)"
    and touch_ok: "ok m \<Longrightarrow> ok (touch k m)"
    and release_ok: "ok m \<Longrightarrow> ok (release k m)"
begin

definition sweep_step :: "('k \<Rightarrow> 'r \<Rightarrow> bool) \<Rightarrow> 'k \<Rightarrow> 'm \<Rightarrow> 'm" where
  "sweep_step keep k m =
     (case lookup m k of None \<Rightarrow> m | Some r \<Rightarrow> if keep k r then touch k m else release k m)"

lemma sweep_step_lookup:
  "lookup (sweep_step keep k m) x =
     (case lookup m x of None \<Rightarrow> None | Some r \<Rightarrow> if x = k \<and> \<not> keep x r then None else Some r)"
  by (auto simp: sweep_step_def touch_lookup release_lookup split: option.split)

lemma sweep_lookup:
  "lookup (fold (sweep_step keep) ks m) x =
     (case lookup m x of None \<Rightarrow> None | Some r \<Rightarrow> if x \<in> set ks \<and> \<not> keep x r then None else Some r)"
proof (induction ks arbitrary: m)
  case (Cons k ks)
  show ?case by (auto simp: Cons.IH sweep_step_lookup split: option.splits)
qed (simp split: option.split)

lemma sweep_ok: "ok m \<Longrightarrow> ok (fold (sweep_step keep) ks m)"
proof (induction ks arbitrary: m)
  case (Cons k ks)
  have "ok (sweep_step keep k m)"
    using Cons.prems by (simp add: sweep_step_def touch_ok release_ok split: option.split)
  then show ?case using Cons.IH by simp
qed simp

end

interpretation pm: pending_set "\<lambda>m. map_of (byKey m)" mk_touch mk_release "marks_wf H" for H
  by unfold_locales simp_all

end
