(* ===== verification/L1.thy ===== *)
theory L1
  imports Options
begin

text \<open>
  The per-process tier (\<^verbatim>\<open>src/src/turbokv.js\<close>, lines 1475 to 1588): the map \<^verbatim>\<open>#l1\<close> with its
  retained iterator \<^verbatim>\<open>#l1Iter\<close>, the hash index \<^verbatim>\<open>#byHash\<close>, the byte counter, and the
  operations \<open>l1Put\<close>, \<open>oldestEntry\<close>, \<open>l1Drop\<close> and \<open>onGc\<close>. A JavaScript map iterator is live: it
  is the number of live entries before it, so a deletion ahead of the entry it would visit next
  moves it. A byte count is \<open>None\<close> for NaN, which a bytes-mode scalar produces when the cache was
  opened without any storage option, and NaN absorbs.

  The lemmas show that the retained iterator always answers with the entry a fresh one would,
  that the eviction loop stops with the budget met or the map empty after at most sixteen
  reprieves, and that the counter is the sum of the entries' bytes.
\<close>

definition L1_SECOND_CHANCE_BUDGET :: nat where "L1_SECOND_CHANCE_BUDGET = 16"

type_synonym jsbytes = "int option"

definition nadd :: "jsbytes \<Rightarrow> jsbytes \<Rightarrow> jsbytes" where
  "nadd a b = (case (a, b) of (Some x, Some y) \<Rightarrow> Some (x + y) | _ \<Rightarrow> None)"

definition nsub :: "jsbytes \<Rightarrow> jsbytes \<Rightarrow> jsbytes" where
  "nsub a b = (case (a, b) of (Some x, Some y) \<Rightarrow> Some (x - y) | _ \<Rightarrow> None)"

definition ngt :: "jsbytes \<Rightarrow> int \<Rightarrow> bool" where
  "ngt a b = (case a of Some x \<Rightarrow> x > b | None \<Rightarrow> False)"

record l1Entry =
  eV :: jsval
  eBytes :: jsbytes
  eHits :: nat
  eExp :: ms
  eHash :: "hash option"
  eOwnAt :: int

record l1State =
  l1Map :: "(jsstr, l1Entry) jsmap"
  l1Iter :: "nat option"
  l1Bytes :: jsbytes
  l1ByHash :: "(hash option, jsstr) jsmap"

definition l1_empty :: l1State where
  "l1_empty = \<lparr>l1Map = [], l1Iter = None, l1Bytes = Some 0, l1ByHash = []\<rparr>"

text \<open>The configuration the tier reads.\<close>

record l1Cfg =
  cNoCodec :: bool
  cHeapFactor :: nat
  cL1Max :: int
  cGuardMax :: rat
  cGuardShed :: rat

section \<open>The heap cost of a primitive\<close>

text \<open>The finite value of 64 IEEE bits, and \<^verbatim>\<open>PrimBytes\<close> of \<^verbatim>\<open>src/src/binding.cc\<close>.\<close>

definition numValue :: "64 word \<Rightarrow> rat" where
  "numValue w =
     (let e = unat (and (drop_bit 52 w) 0x7FF);
          m = unat (and w 0x000FFFFFFFFFFFFF);
          mag = (if e = 0 then of_nat m / 2 ^ 1074
                 else if e \<ge> 1075 then of_nat (2 ^ 52 + m) * 2 ^ (e - 1075)
                 else of_nat (2 ^ 52 + m) / 2 ^ (1075 - e))
      in if and w 0x8000000000000000 \<noteq> 0 then - mag else mag)"

definition numSmi :: "64 word \<Rightarrow> bool" where
  "numSmi w = (and w 0x7FF0000000000000 \<noteq> 0x7FF0000000000000 \<and> isInteger (numValue w) \<and>
               - 1073741824 \<le> numValue w \<and> numValue w \<le> 1073741823)"

function nwords :: "nat \<Rightarrow> nat" where
  "nwords n = (if n = 0 then 0 else 1 + nwords (n div 2 ^ 64))"
  by pat_completeness auto
termination
  by (relation "measure id") auto

declare nwords.simps [simp del]

definition round8 :: "nat \<Rightarrow> nat" where
  "round8 n = (n + 7) div 8 * 8"

definition primBytes :: "jsval \<Rightarrow> nat" where
  "primBytes v =
     (case v of
        VStr s \<Rightarrow> round8 (16 + (if byteLength s = length s then length s else 2 * length s))
      | VNum w \<Rightarrow> if numSmi w then 0 else 16
      | VBuf b \<Rightarrow> length b + 96
      | VView b \<Rightarrow> length b + 96
      | VBigInt n \<Rightarrow> 16 + nwords (nat \<bar>n\<bar>) * 8
      | _ \<Rightarrow> 0)"

text \<open>
  The cost \<^verbatim>\<open>#l1Put\<close> charges: \<open>encodedLen\<close> is the encoded length the caller passes, \<open>None\<close>
  when it is undefined (\<^verbatim>\<open>enc.length\<close> of a number, a boolean, a bigint).
\<close>

definition entryBytes :: "l1Cfg \<Rightarrow> jsstr \<Rightarrow> jsval \<Rightarrow> nat option \<Rightarrow> jsbytes" where
  "entryBytes c key v encodedLen =
     (if cNoCodec c then Some (int (primBytes v + primBytes (VStr key) + 64))
      else map_option (\<lambda>n. int ((length key + n + 64) * cHeapFactor c)) encodedLen)"

section \<open>The map and its live iterator\<close>

definition key_index :: "'k \<Rightarrow> ('k, 'v) jsmap \<Rightarrow> nat" where
  "key_index k m = length (takeWhile (\<lambda>p. fst p \<noteq> k) m)"

definition l1_delete :: "jsstr \<Rightarrow> l1State \<Rightarrow> l1State" where
  "l1_delete k s =
     s\<lparr>l1Map := AList.delete k (l1Map s),
       l1Iter := (case l1Iter s of
                    None \<Rightarrow> None
                  | Some n \<Rightarrow> Some (if key_index k (l1Map s) < n \<and> k \<in> fst ` set (l1Map s) then n - 1 else n))\<rparr>"

definition l1_set :: "jsstr \<Rightarrow> l1Entry \<Rightarrow> l1State \<Rightarrow> l1State" where
  "l1_set k e s = s\<lparr>l1Map := AList.update k e (l1Map s)\<rparr>"

definition unhash :: "l1Entry \<Rightarrow> l1State \<Rightarrow> l1State" where
  "unhash e s = (if eHash e \<noteq> None then s\<lparr>l1ByHash := AList.delete (eHash e) (l1ByHash s)\<rparr> else s)"

text \<open>
  \<^verbatim>\<open>#oldestEntry\<close>: two attempts, the second from a new iterator. \<open>next_entry\<close> is one
  \<^verbatim>\<open>next()\<close>; a finished iterator is dropped.
\<close>

definition next_entry :: "l1State \<Rightarrow> (jsstr \<times> l1Entry) option \<times> l1State" where
  "next_entry s =
     (let n = (case l1Iter s of None \<Rightarrow> 0 | Some n \<Rightarrow> n)
      in if n < length (l1Map s) then (Some (l1Map s ! n), s\<lparr>l1Iter := Some (n + 1)\<rparr>)
         else (None, s\<lparr>l1Iter := None\<rparr>))"

definition oldestEntry :: "l1State \<Rightarrow> (jsstr \<times> l1Entry) option \<times> l1State" where
  "oldestEntry s =
     (case next_entry s of
        (Some p, s1) \<Rightarrow> (Some p, s1)
      | (None, s1) \<Rightarrow> next_entry s1)"

lemma next_entry_map [frame_simps, simp]: "l1Map (snd (next_entry s)) = l1Map s"
  by (simp add: next_entry_def Let_def)

lemma oldestEntry_map [frame_simps, simp]: "l1Map (snd (oldestEntry s)) = l1Map s"
  by (auto simp: oldestEntry_def split: prod.splits option.splits) (metis next_entry_map snd_conv)+

lemma next_entry_mem: "fst (next_entry s) = Some p \<Longrightarrow> p \<in> set (l1Map s)"
  by (auto simp: next_entry_def Let_def split: if_splits)

lemma oldestEntry_mem: "fst (oldestEntry s) = Some p \<Longrightarrow> p \<in> set (l1Map s)"
  using next_entry_mem [of s p] next_entry_mem [of "snd (next_entry s)" p]
  by (auto simp: oldestEntry_def split: prod.splits option.splits)

section \<open>Eviction\<close>

lemma length_delete_lt: "k \<in> fst ` set m \<Longrightarrow> length (AList.delete k m) < length m"
proof (induction m)
  case (Cons a m)
  show ?case
  proof (cases "fst a = k")
    case True
    then show ?thesis using length_delete_le [of k m] by (cases a) (simp add: less_Suc_eq_le)
  next
    case False
    then show ?thesis using Cons by (cases a) auto
  qed
qed simp

lemma length_update_le: "length (AList.update k v m) \<le> Suc (length m)"
  by (induction m) auto

lemma oldestEntry_shrinks:
  assumes "oldestEntry s = (Some (k, e), s1)"
  shows "length (l1Map (l1_delete k s1)) < length (l1Map s)"
    and "length (l1Map (l1_set k e' (l1_delete k s1))) \<le> length (l1Map s)"
proof -
  have m: "l1Map s1 = l1Map s" using oldestEntry_map [of s] assms by simp
  have "(k, e) \<in> set (l1Map s)" using oldestEntry_mem [of s] assms by simp
  then have "length (AList.delete k (l1Map s)) < length (l1Map s)" by (force intro: length_delete_lt)
  then show "length (l1Map (l1_delete k s1)) < length (l1Map s)"
    and "length (l1Map (l1_set k e' (l1_delete k s1))) \<le> length (l1Map s)"
    using m length_update_le [of k e' "AList.delete k (l1Map s)"]
    by (simp_all add: l1_delete_def l1_set_def)
qed

lemma unhash_map [frame_simps, simp]: "l1Map (unhash e s) = l1Map s"
  by (simp add: unhash_def)

text \<open>
  One round of the \<^verbatim>\<open>while\<close> loop of \<^verbatim>\<open>#l1Put\<close>, and the loop. A round answers \<open>Inl\<close> when the
  map is empty (the \<^verbatim>\<open>break\<close>), and otherwise the reprieves left and the state.
\<close>

definition evict_round :: "nat \<Rightarrow> l1State \<Rightarrow> l1State + nat \<times> l1State" where
  "evict_round reprieves s =
     (case oldestEntry s of
        (None, s1) \<Rightarrow> Inl s1
      | (Some (k, e), s1) \<Rightarrow>
          (let s2 = l1_delete k s1
           in if eHits e > 1 \<and> reprieves > 0
              then Inr (reprieves - 1, l1_set k (e\<lparr>eHits := 1\<rparr>) s2)
              else Inr (reprieves, unhash e (s2\<lparr>l1Bytes := nsub (l1Bytes s2) (eBytes e)\<rparr>))))"

lemma evict_round_measure:
  assumes "evict_round reprieves s = Inr (r', s')"
  shows "length (l1Map s') + r' < length (l1Map s) + reprieves"
proof -
  obtain k e s1 where o: "oldestEntry s = (Some (k, e), s1)"
    using assms by (auto simp: evict_round_def split: prod.splits option.splits)
  note sh = oldestEntry_shrinks [OF o]
  show ?thesis
  proof (cases "eHits e > 1 \<and> reprieves > 0")
    case True
    then have "r' = reprieves - 1" "length (l1Map s') \<le> length (l1Map s)"
      using assms o sh(2) [of "e\<lparr>eHits := 1\<rparr>"] by (auto simp: evict_round_def Let_def)
    then show ?thesis using True by linarith
  next
    case False
    then have "r' = reprieves" "l1Map s' = l1Map (l1_delete k s1)"
      using assms o by (auto simp: evict_round_def Let_def)
    then show ?thesis using sh(1) by simp
  qed
qed

function evict_loop :: "int \<Rightarrow> nat \<Rightarrow> l1State \<Rightarrow> l1State" where
  "evict_loop l1Max reprieves s =
     (if \<not> ngt (l1Bytes s) l1Max then s
      else (case evict_round reprieves s of
              Inl s' \<Rightarrow> s'
            | Inr (r', s') \<Rightarrow> evict_loop l1Max r' s'))"
  by pat_completeness auto
termination
  by (relation "measure (\<lambda>(l1Max, reprieves, s). length (l1Map s) + reprieves)")
    (auto dest: evict_round_measure)

declare evict_loop.simps [simp del]

definition l1Put ::
    "l1Cfg \<Rightarrow> jsstr \<Rightarrow> jsval \<Rightarrow> hash option \<Rightarrow> nat option \<Rightarrow> ms \<Rightarrow> int \<Rightarrow> l1State \<Rightarrow> l1State" where
  "l1Put c key v h encodedLen expiresAt ownAt s =
     (let bytes = entryBytes c key v encodedLen;
          s1 = (case map_of (l1Map s) key of
                  None \<Rightarrow> s
                | Some prev \<Rightarrow> s\<lparr>l1Bytes := nsub (l1Bytes s) (eBytes prev)\<rparr>);
          s2 = l1_set key \<lparr>eV = v, eBytes = bytes, eHits = 1, eExp = expiresAt, eHash = h, eOwnAt = ownAt\<rparr> s1;
          s3 = s2\<lparr>l1ByHash := AList.update h key (l1ByHash s2), l1Bytes := nadd (l1Bytes s2) bytes\<rparr>
      in evict_loop (cL1Max c) L1_SECOND_CHANCE_BUDGET s3)"

definition l1Drop :: "jsstr \<Rightarrow> l1State \<Rightarrow> l1State" where
  "l1Drop key s =
     (case map_of (l1Map s) key of
        None \<Rightarrow> s
      | Some e \<Rightarrow> unhash e (l1_delete key (s\<lparr>l1Bytes := nsub (l1Bytes s) (eBytes e)\<rparr>)))"

text \<open>\<^verbatim>\<open>#dropCachedValues\<close>.\<close>

definition l1_clear :: "l1State \<Rightarrow> l1State" where
  "l1_clear s = \<lparr>l1Map = [], l1Iter = None, l1Bytes = Some 0, l1ByHash = []\<rparr>"

text \<open>
  The shedding loop of \<^verbatim>\<open>#onGc\<close>, over a fresh iterator: it deletes the entry it visits, so the
  next one is again the first. \<open>nle\<close> is \<^verbatim>\<open>this.#l1Bytes <= target\<close>, false on NaN.
\<close>

definition nle :: "jsbytes \<Rightarrow> rat option \<Rightarrow> bool" where
  "nle a t = (case (a, t) of (Some x, Some y) \<Rightarrow> of_int x \<le> y | _ \<Rightarrow> False)"

fun shed_loop :: "rat option \<Rightarrow> (jsstr \<times> l1Entry) list \<Rightarrow> l1State \<Rightarrow> l1State" where
  "shed_loop target [] s = s"
| "shed_loop target ((k, e) # rest) s =
     (if nle (l1Bytes s) target then s
      else shed_loop target rest
             (unhash e (l1_delete k (s\<lparr>l1Bytes := nsub (l1Bytes s) (eBytes e)\<rparr>))))"

definition onGc :: "l1Cfg \<Rightarrow> nat \<Rightarrow> nat \<Rightarrow> l1State \<Rightarrow> l1State \<times> bool" where
  "onGc c used limit s =
     (let liveHeapFraction = (of_nat used / of_nat limit :: rat)
      in if liveHeapFraction < cGuardMax c then (s, False)
         else (let target = map_option (\<lambda>b. of_int b * (1 - cGuardShed c)) (l1Bytes s)
               in (shed_loop target (l1Map s) s, True)))"

section \<open>The invariant\<close>

text \<open>
  \<open>bsum\<close> is the total of the entries' costs, and \<open>l1_inv\<close> the invariant of the tier: distinct
  keys, a retained iterator that stands at the front, a counter that is NaN or that total, and a
  hash index whose defined hashes name resident keys with that hash.
\<close>

definition bsum :: "(jsstr, l1Entry) jsmap \<Rightarrow> jsbytes" where
  "bsum m = foldr nadd (List.map (eBytes \<circ> snd) m) (Some 0)"

definition l1_counted :: "l1State \<Rightarrow> bool" where
  "l1_counted s \<longleftrightarrow> l1Bytes s = None \<or> l1Bytes s = bsum (l1Map s)"

definition l1_hashed :: "(jsstr \<Rightarrow> hash option) \<Rightarrow> l1State \<Rightarrow> bool" where
  "l1_hashed H s \<longleftrightarrow>
     wf_map (l1ByHash s) \<and>
     (\<forall>k e. map_of (l1Map s) k = Some e \<longrightarrow> eHash e = H k) \<and>
     (\<forall>h k. map_of (l1ByHash s) (Some h) = Some k \<longrightarrow> H k = Some h \<and> map_of (l1Map s) k \<noteq> None)"

definition l1_inv :: "(jsstr \<Rightarrow> hash option) \<Rightarrow> l1State \<Rightarrow> bool" where
  "l1_inv H s \<longleftrightarrow> wf_map (l1Map s) \<and> l1Iter s \<in> {None, Some 0} \<and> l1_counted s \<and> l1_hashed H s"

lemma nadd_simps [simp]:
  "nadd None b = None" "nadd a None = None" "nadd (Some x) (Some y) = Some (x + y)"
  "nsub None b = None" "nsub a None = None" "nsub (Some x) (Some y) = Some (x - y)"
  by (auto simp: nadd_def nsub_def split: option.splits)

lemma ngt_simps [simp]: "ngt None b = False" "ngt (Some x) b = (x > b)"
  by (simp_all add: ngt_def)

lemma nadd_assoc: "nadd (nadd a b) c = nadd a (nadd b c)"
  by (cases a; cases b; cases c) auto

lemma nadd_comm: "nadd a b = nadd b a"
  by (cases a; cases b) auto

lemma nadd_zero [simp]: "nadd (Some 0) a = a" "nadd a (Some 0) = a"
  by (cases a; simp)+

lemma nadd_None_iff: "nadd a b = None \<longleftrightarrow> a = None \<or> b = None"
  by (cases a; cases b) auto

lemma bsum_simps [simp]: "bsum [] = Some 0" "bsum ((k, e) # m) = nadd (eBytes e) (bsum m)"
  by (simp_all add: bsum_def)

lemma bsum_append: "bsum (m @ m') = nadd (bsum m) (bsum m')"
  by (induction m) (auto simp: nadd_assoc)

lemma nsub_nadd: "nadd a b = Some n \<Longrightarrow> nsub (nadd a b) a = b"
  by (cases a; cases b) auto

lemma bsum_delete:
  assumes "wf_map m" "map_of m k = Some e" "bsum m \<noteq> None"
  shows "bsum (AList.delete k m) = nsub (bsum m) (eBytes e)"
  using assms
proof (induction m)
  case (Cons a m)
  obtain k' e' where a: "a = (k', e')" by force
  show ?case
  proof (cases "k' = k")
    case True
    then have "AList.delete k m = m" using Cons.prems a by (auto intro: delete_absent)
    then show ?thesis using True Cons.prems a by (cases "eBytes e"; cases "bsum m") auto
  next
    case False
    then show ?thesis
      using Cons a by (cases "eBytes e'"; cases "bsum m"; cases "eBytes e") (auto simp: nadd_None_iff)
  qed
qed simp

lemma bsum_None_mem: "map_of m k = Some e \<Longrightarrow> eBytes e = None \<Longrightarrow> bsum m = None"
  by (induction m) (auto simp: nadd_None_iff split: if_splits)

lemma l1_counted_delete:
  assumes "wf_map (l1Map s)" "l1_counted s" "map_of (l1Map s) k = Some e"
  shows "l1_counted (l1_delete k (s\<lparr>l1Bytes := nsub (l1Bytes s) (eBytes e)\<rparr>))"
  using assms bsum_delete [OF assms(1,3)] bsum_None_mem [OF assms(3)]
  by (cases "bsum (l1Map s)") (auto simp: l1_counted_def l1_delete_def)

text \<open>The retained iterator answers what a fresh one would: the first entry.\<close>

lemma oldestEntry_front:
  assumes "l1Iter s \<in> {None, Some 0}"
  shows "oldestEntry s =
           (case l1Map s of [] \<Rightarrow> (None, s\<lparr>l1Iter := None\<rparr>) | p # _ \<Rightarrow> (Some p, s\<lparr>l1Iter := Some 1\<rparr>))"
  using assms
  by (auto simp: oldestEntry_def next_entry_def Let_def split: list.splits)

lemma l1_delete_first [simp]:
  assumes "wf_map ((k, e) # m)"
  shows "l1_delete k (s\<lparr>l1Map := (k, e) # m, l1Iter := Some (Suc 0)\<rparr>) = s\<lparr>l1Map := m, l1Iter := Some 0\<rparr>"
  using assms by (simp add: l1_delete_def key_index_def delete_absent)

lemma evict_round_front:
  assumes "l1Iter s \<in> {None, Some 0}" "l1Map s = (k, e) # m" "wf_map (l1Map s)"
  shows "evict_round r s =
           (if eHits e > 1 \<and> r > 0
            then Inr (r - 1, s\<lparr>l1Map := m @ [(k, e\<lparr>eHits := 1\<rparr>)], l1Iter := Some 0\<rparr>)
            else Inr (r, unhash e (s\<lparr>l1Map := m, l1Iter := Some 0, l1Bytes := nsub (l1Bytes s) (eBytes e)\<rparr>)))"
proof -
  have "s\<lparr>l1Iter := Some (Suc 0)\<rparr> = s\<lparr>l1Map := (k, e) # m, l1Iter := Some (Suc 0)\<rparr>"
    using assms(2) by simp
  then have d: "l1_delete k (s\<lparr>l1Iter := Some (Suc 0)\<rparr>) = s\<lparr>l1Map := m, l1Iter := Some 0\<rparr>"
    using l1_delete_first [of k e m s] assms by metis
  have k: "k \<notin> fst ` set m" using assms by auto
  show ?thesis
    using oldestEntry_front [OF assms(1)] assms(2) d k
    by (simp add: evict_round_def Let_def l1_set_def update_absent)
qed

lemma evict_round_empty:
  assumes "l1Iter s \<in> {None, Some 0}" "l1Map s = []"
  shows "evict_round r s = Inl (s\<lparr>l1Iter := None\<rparr>)"
  using oldestEntry_front [OF assms(1)] assms(2) by (simp add: evict_round_def)

lemma l1_hashed_drop:
  assumes "l1_hashed H s" "wf_map (l1Map s)" "map_of (l1Map s) k = Some e"
    and "l1Map s' = AList.delete k (l1Map s)" "l1ByHash s' = l1ByHash s"
  shows "l1_hashed H (unhash e s')"
proof -
  have e: "eHash e = H k" using assms(1,3) by (auto simp: l1_hashed_def)
  have "H x = Some h \<and> map_of (l1Map (unhash e s')) x \<noteq> None"
    if "map_of (l1ByHash (unhash e s')) (Some h) = Some x" for h x
  proof -
    have "map_of (l1ByHash s) (Some h) = Some x" "eHash e = None \<or> eHash e \<noteq> Some h"
      using that assms(5) by (auto simp: unhash_def split: if_splits)
    moreover from this have "H x = Some h" "map_of (l1Map s) x \<noteq> None"
      using assms(1) by (auto simp: l1_hashed_def)
    ultimately show ?thesis using e assms(4) by auto
  qed
  moreover have "wf_map (l1ByHash (unhash e s'))"
    using assms(1,5) by (simp add: l1_hashed_def unhash_def)
  moreover have "eHash e' = H x" if "map_of (l1Map (unhash e s')) x = Some e'" for x e'
    using that assms(1,4) by (simp add: l1_hashed_def split: if_splits)
  ultimately show ?thesis unfolding l1_hashed_def by blast
qed

lemma l1_delete_iter: "l1Iter s \<in> {None, Some 0} \<Longrightarrow> l1Iter (l1_delete k s) \<in> {None, Some 0}"
  by (auto simp: l1_delete_def)

lemma unhash_frame [frame_simps, simp]:
  "l1Iter (unhash e s) = l1Iter s" "l1Bytes (unhash e s) = l1Bytes s"
  by (simp_all add: unhash_def)

lemma l1_delete_byHash [frame_simps, simp]: "l1ByHash (l1_delete k s) = l1ByHash s"
  by (simp add: l1_delete_def)

lemma l1_delete_map [simp]: "l1Map (l1_delete k s) = AList.delete k (l1Map s)"
  by (simp add: l1_delete_def)

text \<open>Taking an entry out, with its cost: the common part of a drop, an eviction and a shed.\<close>

definition l1_take :: "jsstr \<Rightarrow> l1Entry \<Rightarrow> l1State \<Rightarrow> l1State" where
  "l1_take k e s = unhash e (l1_delete k (s\<lparr>l1Bytes := nsub (l1Bytes s) (eBytes e)\<rparr>))"

lemma l1_take_map [simp]: "l1Map (l1_take k e s) = AList.delete k (l1Map s)"
  by (simp add: l1_take_def)

lemma l1_counted_frame: "l1Map s' = l1Map s \<Longrightarrow> l1Bytes s' = l1Bytes s \<Longrightarrow> l1_counted s' = l1_counted s"
  by (simp add: l1_counted_def)

lemma l1_hashed_frame: "l1Map s' = l1Map s \<Longrightarrow> l1ByHash s' = l1ByHash s \<Longrightarrow> l1_hashed H s' = l1_hashed H s"
  by (simp add: l1_hashed_def)

lemma l1_hashed_cong:
  assumes "l1ByHash s' = l1ByHash s"
    and "\<And>k. map_option eHash (map_of (l1Map s') k) = map_option eHash (map_of (l1Map s) k)"
  shows "l1_hashed H s' = l1_hashed H s"
proof -
  have a: "map_of (l1Map s') k = None \<longleftrightarrow> map_of (l1Map s) k = None" for k
    using assms(2) [of k] by (metis option.map_disc_iff)
  have b: "(\<forall>k e. map_of (l1Map t) k = Some e \<longrightarrow> eHash e = H k) \<longleftrightarrow>
           (\<forall>k. pred_option (\<lambda>h. h = H k) (map_option eHash (map_of (l1Map t) k)))" for t
    by (auto simp: pred_option_def)
  show ?thesis unfolding l1_hashed_def b assms(1) using a assms(2) by simp
qed

lemma l1_take_inv [wf_intros]:
  assumes "l1_inv H s" "map_of (l1Map s) k = Some e"
  shows "l1_inv H (l1_take k e s)"
proof -
  have w: "wf_map (l1Map s)" "l1Iter s \<in> {None, Some 0}" "l1_counted s" "l1_hashed H s"
    using assms(1) by (auto simp: l1_inv_def)
  have "l1_counted (l1_take k e s)"
    using l1_counted_delete [OF w(1,3) assms(2)]
      l1_counted_frame [of "l1_take k e s" "l1_delete k (s\<lparr>l1Bytes := nsub (l1Bytes s) (eBytes e)\<rparr>)"]
    by (simp add: l1_take_def)
  moreover have "l1_hashed H (l1_take k e s)"
    unfolding l1_take_def by (rule l1_hashed_drop [OF w(4,1) assms(2)]) simp_all
  moreover have "l1Iter (l1_take k e s) \<in> {None, Some 0}"
    using l1_delete_iter [of "s\<lparr>l1Bytes := nsub (l1Bytes s) (eBytes e)\<rparr>" k] w(2) by (simp add: l1_take_def)
  ultimately show ?thesis using w(1) by (simp add: l1_inv_def)
qed

lemma l1Drop_take: "l1Drop k s = (case map_of (l1Map s) k of None \<Rightarrow> s | Some e \<Rightarrow> l1_take k e s)"
  by (simp add: l1Drop_def l1_take_def split: option.splits)

lemma l1Drop_inv [wf_intros]: "l1_inv H s \<Longrightarrow> l1_inv H (l1Drop k s)"
  by (auto simp: l1Drop_take l1_take_inv split: option.splits)

lemma l1Drop_lookup [simp]: "map_of (l1Map (l1Drop k s)) x = (if x = k then None else map_of (l1Map s) x)"
  by (auto simp: l1Drop_take split: option.splits)

lemma l1_clear_inv [wf_intros]: "l1_inv H (l1_clear s)"
  by (simp add: l1_inv_def l1_clear_def l1_counted_def l1_hashed_def)

lemma l1_inv_frame:
  assumes "l1_inv H s" "l1Map s' = l1Map s" "l1Bytes s' = l1Bytes s" "l1ByHash s' = l1ByHash s"
    and "l1Iter s' \<in> {None, Some 0}"
  shows "l1_inv H s'"
  unfolding l1_inv_def
proof (intro conjI)
  show "wf_map (l1Map s')" using assms(1,2) by (simp add: l1_inv_def)
  show "l1Iter s' \<in> {None, Some 0}" by (rule assms(5))
  show "l1_counted s'" using assms(1) l1_counted_frame [OF assms(2,3)] by (simp add: l1_inv_def)
  show "l1_hashed H s'" using assms(1) l1_hashed_frame [OF assms(2,4)] by (simp add: l1_inv_def)
qed

text \<open>One round, then the loop, then the insertion.\<close>

lemma l1_requeue_inv:
  assumes "l1_inv H s" "l1Map s = (k, e) # m" "eBytes e' = eBytes e" "eHash e' = eHash e"
  shows "l1_inv H (s\<lparr>l1Map := m @ [(k, e')], l1Iter := Some 0\<rparr>)"
proof -
  have w: "wf_map (l1Map s)" "l1_counted s" "l1_hashed H s" using assms(1) by (auto simp: l1_inv_def)
  have k: "k \<notin> fst ` set m" using w(1) assms(2) by simp
  have l: "map_of (m @ [(k, e')]) x = (if x = k then Some e' else map_of (l1Map s) x)" for x
    using assms(2) by (simp add: update_absent [OF k, symmetric])
  have "bsum (m @ [(k, e')]) = bsum (l1Map s)"
    using assms(2,3) by (simp add: bsum_append nadd_comm)
  then have "l1_counted (s\<lparr>l1Map := m @ [(k, e')], l1Iter := Some 0\<rparr>)"
    using w(2) by (simp add: l1_counted_def)
  moreover have "l1_hashed H (s\<lparr>l1Map := m @ [(k, e')], l1Iter := Some 0\<rparr>)"
    using w(3) assms(2,4) by (subst l1_hashed_cong [of _ s]) (simp_all add: l del: map_of_append)
  ultimately show ?thesis using w(1) assms(2) by (auto simp: l1_inv_def)
qed

lemma l1_take_first:
  assumes "l1_inv H s" "l1Map s = (k, e) # m"
  shows "l1Map (l1_take k e s) = m"
  using assms by (auto simp: l1_inv_def delete_absent)

lemma evict_round_inv:
  assumes "l1_inv H s" "evict_round r s = Inr (r', s')"
  shows "l1_inv H s'"
proof (cases "l1Map s")
  case Nil
  then show ?thesis using assms evict_round_empty [of s r] by (simp add: l1_inv_def)
next
  case (Cons p m)
  obtain k e where p: "p = (k, e)" by force
  have w: "l1Iter s \<in> {None, Some 0}" "wf_map (l1Map s)" using assms(1) by (auto simp: l1_inv_def)
  note rf = evict_round_front [OF w(1) Cons [unfolded p] w(2), of r]
  show ?thesis
  proof (cases "eHits e > 1 \<and> r > 0")
    case True
    then have "s' = s\<lparr>l1Map := m @ [(k, e\<lparr>eHits := 1\<rparr>)], l1Iter := Some 0\<rparr>"
      using rf assms(2) by simp
    then show ?thesis using l1_requeue_inv [OF assms(1) Cons [unfolded p]] by simp
  next
    case False
    then have s': "s' = unhash e (s\<lparr>l1Map := m, l1Iter := Some 0, l1Bytes := nsub (l1Bytes s) (eBytes e)\<rparr>)"
      using rf assms(2) by auto
    have "map_of (l1Map s) k = Some e" using Cons p by simp
    note t = l1_take_inv [OF assms(1) this]
    have "l1Map s' = l1Map (l1_take k e s)"
      using s' l1_take_first [OF assms(1) Cons [unfolded p]] by simp
    moreover have "l1Bytes s' = l1Bytes (l1_take k e s)"
      "l1ByHash s' = l1ByHash (l1_take k e s)" "l1Iter s' \<in> {None, Some 0}"
      using s' by (simp_all add: l1_take_def unhash_def l1_delete_def)
    ultimately show ?thesis by (rule l1_inv_frame [OF t])
  qed
qed

lemma evict_loop_inv [wf_intros]: "l1_inv H s \<Longrightarrow> l1_inv H (evict_loop l1Max r s)"
proof (induction l1Max r s rule: evict_loop.induct)
  case (1 l1Max r s)
  have "l1_inv H s'" if "evict_round r s = Inl s'" for s'
  proof (cases "l1Map s")
    case Nil
    then have "s' = s\<lparr>l1Iter := None\<rparr>" using that 1(2) evict_round_empty [of s r] by (simp add: l1_inv_def)
    then show ?thesis by (auto intro: l1_inv_frame [OF 1(2)])
  next
    case (Cons p m)
    then have "\<exists>x. evict_round r s = Inr x"
      using 1(2) evict_round_front [of s "fst p" "snd p" m r] by (simp add: l1_inv_def)
    then show ?thesis using that by auto
  qed
  then show ?case using 1 evict_round_inv [OF 1(2)]
    by (subst evict_loop.simps) (auto split: sum.splits)
qed

text \<open>The state before the eviction loop of \<open>l1Put\<close>.\<close>

definition l1_insert :: "jsstr \<Rightarrow> l1Entry \<Rightarrow> l1State \<Rightarrow> l1State" where
  "l1_insert key e s =
     \<lparr>l1Map = AList.update key e (l1Map s), l1Iter = l1Iter s,
      l1Bytes = nadd (case map_of (l1Map s) key of None \<Rightarrow> l1Bytes s | Some p \<Rightarrow> nsub (l1Bytes s) (eBytes p)) (eBytes e),
      l1ByHash = AList.update (eHash e) key (l1ByHash s)\<rparr>"

lemma l1Put_loop:
  "l1Put c key v h n expiresAt ownAt s =
     evict_loop (cL1Max c) L1_SECOND_CHANCE_BUDGET
       (l1_insert key \<lparr>eV = v, eBytes = entryBytes c key v n, eHits = 1, eExp = expiresAt,
                       eHash = h, eOwnAt = ownAt\<rparr> s)"
  by (cases s) (simp add: l1Put_def l1_insert_def l1_set_def Let_def split: option.split)

lemma bsum_update:
  assumes "wf_map m" "bsum m \<noteq> None"
  shows "bsum (AList.update k e m) =
           nadd (case map_of m k of None \<Rightarrow> bsum m | Some p \<Rightarrow> nsub (bsum m) (eBytes p)) (eBytes e)"
  using assms
proof (induction m)
  case (Cons a m)
  obtain k' e' where a: "a = (k', e')" by force
  then have nn: "eBytes e' \<noteq> None" "bsum m \<noteq> None" using Cons.prems by (auto simp: nadd_None_iff)
  show ?case
  proof (cases "k' = k")
    case True
    then show ?thesis using a nn by (cases "eBytes e"; auto simp: nadd_comm)
  next
    case False
    then have "bsum (AList.update k e (a # m)) = nadd (eBytes e') (bsum (AList.update k e m))"
      using a by simp
    then show ?thesis using False Cons a nn
      by (cases "eBytes e") (auto simp: nadd_None_iff nsub_def nadd_def split: option.splits)
  qed
qed simp

lemma l1_insert_inv [wf_intros]:
  assumes "l1_inv H s" "eHash e = H key"
  shows "l1_inv H (l1_insert key e s)"
  unfolding l1_inv_def
proof (intro conjI)
  have w: "wf_map (l1Map s)" "l1_counted s" "l1_hashed H s" "l1Iter s \<in> {None, Some 0}"
    using assms(1) by (auto simp: l1_inv_def)
  show "wf_map (l1Map (l1_insert key e s))" using w(1) by (simp add: l1_insert_def)
  show "l1Iter (l1_insert key e s) \<in> {None, Some 0}" using w(4) by (simp add: l1_insert_def)
  show "l1_counted (l1_insert key e s)"
  proof (cases "l1Bytes s")
    case None
    then show ?thesis by (simp add: l1_counted_def l1_insert_def split: option.splits)
  next
    case (Some b)
    then have "l1Bytes s = bsum (l1Map s)" using w(2) by (simp add: l1_counted_def)
    moreover from this have "bsum (l1Map s) \<noteq> None" using Some by (metis option.distinct(1))
    ultimately have "l1Bytes s = bsum (l1Map s)" "bsum (l1Map s) \<noteq> None" by blast+
    then show ?thesis using bsum_update [OF w(1), of key e]
      by (cases "map_of (l1Map s) key") (simp_all add: l1_counted_def l1_insert_def)
  qed
  show "l1_hashed H (l1_insert key e s)"
    using w(3) assms(2) unfolding l1_hashed_def l1_insert_def by auto
qed

lemma l1Put_inv [wf_intros]: "l1_inv H s \<Longrightarrow> l1_inv H (l1Put c key v (H key) n expiresAt ownAt s)"
  unfolding l1Put_loop by (intro evict_loop_inv l1_insert_inv) simp_all

text \<open>When the loop stops the budget is met, or there is nothing left to evict.\<close>

lemma evict_loop_budget:
  "l1_inv H s \<Longrightarrow> 0 \<le> l1Max \<Longrightarrow> \<not> ngt (l1Bytes (evict_loop l1Max r s)) l1Max"
proof (induction l1Max r s rule: evict_loop.induct)
  case (1 l1Max r s)
  show ?case
  proof (cases "ngt (l1Bytes s) l1Max")
    case False
    then show ?thesis by (simp add: evict_loop.simps)
  next
    case True
    show ?thesis
    proof (cases "l1Map s")
      case Nil
      then show ?thesis using True 1(2,3) by (auto simp: l1_inv_def l1_counted_def)
    next
      case (Cons p m)
      then obtain r' s' where x: "evict_round r s = Inr (r', s')"
        using 1(2) evict_round_front [of s "fst p" "snd p" m r]
        by (auto simp: l1_inv_def split: if_splits)
      then have "\<not> ngt (l1Bytes (evict_loop l1Max r' s')) l1Max"
        using 1 True evict_round_inv [OF 1(2) x] by blast
      then show ?thesis using True x by (simp add: evict_loop.simps [of l1Max r s])
    qed
  qed
qed

text \<open>Eviction keeps what it keeps: a resident entry is one that was there, up to its hit count.\<close>

definition same_entry :: "l1Entry \<Rightarrow> l1Entry \<Rightarrow> bool" where
  "same_entry a b \<longleftrightarrow> a\<lparr>eHits := 0\<rparr> = b\<lparr>eHits := 0\<rparr>"

lemma same_entry_refl [simp]: "same_entry e e"
  by (simp add: same_entry_def)

lemma same_entry_hits [simp]: "same_entry (e\<lparr>eHits := n\<rparr>) e"
  by (simp add: same_entry_def)

lemma same_entry_trans: "same_entry a b \<Longrightarrow> same_entry b c \<Longrightarrow> same_entry a c"
  by (simp add: same_entry_def)

definition l1_within :: "l1State \<Rightarrow> l1State \<Rightarrow> bool" where
  "l1_within s s' \<longleftrightarrow>
     (\<forall>k e. map_of (l1Map s) k = Some e \<longrightarrow> (\<exists>e'. map_of (l1Map s') k = Some e' \<and> same_entry e e'))"

lemma l1_within_refl [simp]: "l1_within s s"
  by (auto simp: l1_within_def)

lemma l1_within_trans: "l1_within a b \<Longrightarrow> l1_within b c \<Longrightarrow> l1_within a c"
  unfolding l1_within_def by (meson same_entry_trans)

lemma evict_round_within:
  assumes "l1_inv H s" "evict_round r s = Inr (r', s')"
  shows "l1_within s' s"
proof (cases "l1Map s")
  case Nil
  then show ?thesis using assms evict_round_empty [of s r] by (simp add: l1_inv_def)
next
  case (Cons p m)
  obtain k e where p: "p = (k, e)" by force
  have w: "l1Iter s \<in> {None, Some 0}" "wf_map (l1Map s)" using assms(1) by (auto simp: l1_inv_def)
  have k: "k \<notin> fst ` set m" using w Cons p by simp
  then have kn: "map_of m k = None" by (simp add: map_of_eq_None_iff)
  have "l1Map s' = m @ [(k, e\<lparr>eHits := 1\<rparr>)] \<or> l1Map s' = m"
    using evict_round_front [OF w(1) Cons [unfolded p] w(2), of r] assms(2)
    by (auto split: if_splits)
  then show ?thesis
    using Cons p k kn by (auto simp: l1_within_def update_absent [symmetric] simp del: map_of_append)
qed

lemma evict_loop_within: "l1_inv H s \<Longrightarrow> l1_within (evict_loop l1Max r s) s"
proof (induction l1Max r s rule: evict_loop.induct)
  case (1 l1Max r s)
  have "l1_within s' s" if "evict_round r s = Inl s'" for s'
    using that 1(2) evict_round_front [of s "fst (hd (l1Map s))" "snd (hd (l1Map s))" "tl (l1Map s)" r]
      evict_round_empty [of s r]
    by (cases "l1Map s") (auto simp: l1_inv_def l1_within_def split: if_splits)
  moreover have "l1_within (evict_loop l1Max r' s') s"
    if "ngt (l1Bytes s) l1Max" "evict_round r s = Inr (r', s')" for r' s'
    using that 1 evict_round_inv [OF 1(2) that(2)] evict_round_within [OF 1(2) that(2)] l1_within_trans
    by blast
  ultimately show ?case by (subst evict_loop.simps) (auto split: sum.splits)
qed

text \<open>What is resident after an insertion, and what a NaN counter does to the budget.\<close>

definition entry_of :: "l1Cfg \<Rightarrow> jsstr \<Rightarrow> jsval \<Rightarrow> hash option \<Rightarrow> nat option \<Rightarrow> ms \<Rightarrow> int \<Rightarrow> l1Entry" where
  "entry_of c key v h n expiresAt ownAt =
     \<lparr>eV = v, eBytes = entryBytes c key v n, eHits = 1, eExp = expiresAt, eHash = h, eOwnAt = ownAt\<rparr>"

lemma l1Put_resident:
  assumes "l1_inv H s" "map_of (l1Map (l1Put c key v (H key) n expiresAt ownAt s)) x = Some e"
  shows "if x = key then same_entry e (entry_of c key v (H key) n expiresAt ownAt)
         else (\<exists>e'. map_of (l1Map s) x = Some e' \<and> same_entry e e')"
proof -
  let ?i = "l1_insert key (entry_of c key v (H key) n expiresAt ownAt) s"
  have "l1_inv H ?i" using l1_insert_inv [OF assms(1)] by (simp add: entry_of_def)
  then obtain e' where "map_of (l1Map ?i) x = Some e'" "same_entry e e'"
    using assms(2) evict_loop_within [of H ?i] unfolding l1Put_loop entry_of_def l1_within_def by blast
  then show ?thesis by (auto simp: l1_insert_def split: if_splits)
qed

lemma l1Put_nan:
  assumes "\<not> cNoCodec c"
  shows "l1Map (l1Put c key v h None expiresAt ownAt s) =
           AList.update key (entry_of c key v h None expiresAt ownAt) (l1Map s)"
    and "l1Bytes (l1Put c key v h None expiresAt ownAt s) = None"
  using assms unfolding l1Put_loop
  by (simp_all add: evict_loop.simps l1_insert_def entryBytes_def entry_of_def split: option.split)

lemma l1Put_after_nan:
  assumes "l1Bytes s = None"
  shows "l1Map (l1Put c key v h n expiresAt ownAt s) =
           AList.update key (entry_of c key v h n expiresAt ownAt) (l1Map s)"
    and "l1Bytes (l1Put c key v h n expiresAt ownAt s) = None"
  using assms unfolding l1Put_loop
  by (simp_all add: evict_loop.simps l1_insert_def entry_of_def split: option.split)

section \<open>Shedding after a collection\<close>

lemma shed_loop_run:
  "l1_inv H s \<Longrightarrow> l1Map s = m \<Longrightarrow>
   l1_inv H (shed_loop t m s) \<and> l1_within (shed_loop t m s) s \<and>
   (nle (l1Bytes (shed_loop t m s)) t \<or> l1Map (shed_loop t m s) = [])"
proof (induction t m s rule: shed_loop.induct)
  case (2 t k e rest s)
  show ?case
  proof (cases "nle (l1Bytes s) t")
    case True
    then show ?thesis using 2 by simp
  next
    case False
    let ?s = "l1_take k e s"
    have m: "map_of (l1Map s) k = Some e" using 2(3) by simp
    have "l1_inv H ?s" using l1_take_inv [OF 2(2) m] .
    moreover have r: "l1Map ?s = rest" using l1_take_first [OF 2(2,3)] .
    moreover have "l1_within ?s s" by (auto simp: l1_within_def)
    ultimately show ?thesis
      using 2(1) False l1_within_trans [of "shed_loop t rest ?s" ?s s] by (simp add: l1_take_def)
  qed
qed auto

lemma onGc_inv [wf_intros]: "l1_inv H s \<Longrightarrow> l1_inv H (fst (onGc c used limit s))"
  using shed_loop_run [of H s "l1Map s"] by (simp add: onGc_def Let_def)

lemma onGc_within: "l1_inv H s \<Longrightarrow> l1_within (fst (onGc c used limit s)) s"
  using shed_loop_run [of H s "l1Map s"] by (simp add: onGc_def Let_def)

section \<open>Properties\<close>

text \<open>The states of the tier a process can reach; \<open>H\<close> gives the hash the addon answers with for a key.\<close>

definition l1_hit :: "jsstr \<Rightarrow> l1State \<Rightarrow> l1State" where
  "l1_hit key s =
     (case map_of (l1Map s) key of None \<Rightarrow> s | Some e \<Rightarrow> l1_set key (e\<lparr>eHits := eHits e + 1\<rparr>) s)"

inductive l1_reach :: "(jsstr \<Rightarrow> hash option) \<Rightarrow> l1Cfg \<Rightarrow> l1State \<Rightarrow> bool" for H c where
  start: "l1_reach H c l1_empty"
| put: "l1_reach H c s \<Longrightarrow> l1_reach H c (l1Put c key v (H key) n expiresAt ownAt s)"
| drop: "l1_reach H c s \<Longrightarrow> l1_reach H c (l1Drop key s)"
| hit: "l1_reach H c s \<Longrightarrow> l1_reach H c (l1_hit key s)"
| clear: "l1_reach H c s \<Longrightarrow> l1_reach H c (l1_clear s)"
| gc: "l1_reach H c s \<Longrightarrow> l1_reach H c (fst (onGc c used limit s))"

lemma bsum_hit: "wf_map m \<Longrightarrow> map_of m key = Some e \<Longrightarrow> eBytes e' = eBytes e \<Longrightarrow> bsum (AList.update key e' m) = bsum m"
proof (induction m)
  case (Cons p m)
  then show ?case by (cases p) (auto split: if_splits)
qed simp

lemma l1_hit_inv [wf_intros]: "l1_inv H s \<Longrightarrow> l1_inv H (l1_hit key s)"
  by (cases "map_of (l1Map s) key")
    (auto simp: l1_hit_def l1_inv_def l1_set_def l1_counted_def l1_hashed_def bsum_hit split: if_splits)

lemma l1_empty_inv [wf_intros, simp]: "l1_inv H l1_empty"
  using l1_clear_inv [of H l1_empty] by (simp add: l1_clear_def l1_empty_def)

lemma l1_reach_inv: "l1_reach H c s \<Longrightarrow> l1_inv H s"
  by (induction rule: l1_reach.induct)
    (auto intro: l1Put_inv l1Drop_inv l1_hit_inv l1_clear_inv onGc_inv)

text \<open>C19: After any insertion into a tier reached by any sequence of operations, the byte counter is at or
  below the budget unless it is NaN; what is resident is the entry just put, or an entry that was
  resident before with the same value, cost, deadline, hash and ownership.\<close>

theorem l1Put_keeps_the_budget:
  assumes "l1_reach H c s" "0 \<le> cL1Max c"
    and "s' = l1Put c key v (H key) n expiresAt ownAt s"
  shows "(l1Bytes s' = None \<or> (\<exists>b \<le> cL1Max c. l1Bytes s' = Some b \<and> bsum (l1Map s') = Some b)) \<and>
         (\<forall>x e. map_of (l1Map s') x = Some e \<longrightarrow>
            (if x = key then same_entry e (entry_of c key v (H key) n expiresAt ownAt)
             else (\<exists>e'. map_of (l1Map s) x = Some e' \<and> same_entry e e')))"
proof -
  have inv: "l1_inv H s" using assms(1) by (rule l1_reach_inv)
  then have inv': "l1_inv H s'" using assms(3) by (simp add: l1Put_inv)
  have "\<not> ngt (l1Bytes s') (cL1Max c)"
  proof -
    have "l1_inv H (l1_insert key (entry_of c key v (H key) n expiresAt ownAt) s)"
      using l1_insert_inv [OF inv] by (simp add: entry_of_def)
    then show ?thesis
      using evict_loop_budget [OF _ assms(2)] unfolding assms(3) l1Put_loop entry_of_def by blast
  qed
  then have "b \<le> cL1Max c \<and> bsum (l1Map s') = Some b" if "l1Bytes s' = Some b" for b
    using inv' that by (simp add: l1_inv_def l1_counted_def)
  then have "l1Bytes s' = None \<or> (\<exists>b \<le> cL1Max c. l1Bytes s' = Some b \<and> bsum (l1Map s') = Some b)"
    by (cases "l1Bytes s'") auto
  then show ?thesis using l1Put_resident [OF inv] assms(3) by blast
qed

text \<open>A bytes-mode cache that holds 200 bytes; a one-character key with a one-character value costs 112.\<close>

definition l1_example :: l1Cfg where
  "l1_example = \<lparr>cNoCodec = True, cHeapFactor = 1, cL1Max = 200, cGuardMax = 9 / 10, cGuardShed = 1 / 2\<rparr>"

definition l1_example_state :: l1State where
  "l1_example_state = l1Put l1_example [0x61] (VStr [0x31]) (Some 1) None 0 (- 1) l1_empty"

theorem l1Put_keeps_the_budget_witness:
  "l1Bytes (l1Put l1_example [0x62] (VStr [0x32]) (Some 2) None 0 (- 1) l1_example_state) = None \<or>
   (\<exists>b \<le> 200. l1Bytes (l1Put l1_example [0x62] (VStr [0x32]) (Some 2) None 0 (- 1) l1_example_state) = Some b)"
proof -
  let ?H = "\<lambda>k :: jsstr. if k = [0x61] then Some 1 else Some (2::hash)"
  have "l1_reach ?H l1_example (l1Put l1_example [0x61] (VStr [0x31]) (?H [0x61]) None 0 (- 1) l1_empty)"
    by (rule l1_reach.put, rule l1_reach.start)
  then have "l1_reach ?H l1_example l1_example_state" by (simp add: l1_example_state_def)
  from l1Put_keeps_the_budget [OF this _ refl, of "[0x62]" "VStr [0x32]" None 0 "- 1"]
  show ?thesis by (auto simp: l1_example_def)
qed

text \<open>C26: The retained iterator answers exactly as a fresh one would: in every reachable state the entry
  \<^verbatim>\<open>#oldestEntry\<close> answers with is the first of the map, and it answers with none only when the map is
  empty.\<close>

theorem oldestEntry_is_the_first:
  assumes "l1_reach H c s"
  shows "fst (oldestEntry s) = (case l1Map s of [] \<Rightarrow> None | p # _ \<Rightarrow> Some p)"
proof (cases "l1Map s")
  case Nil
  then show ?thesis using l1_reach_inv [OF assms]
    by (auto simp: l1_inv_def oldestEntry_def next_entry_def Let_def split: option.splits)
next
  case (Cons p m)
  then show ?thesis using oldestEntry_front [of s] l1_reach_inv [OF assms] by (auto simp: l1_inv_def)
qed

theorem oldestEntry_is_the_first_witness:
  "fst (oldestEntry (l1Put l1_example [0x61] (VStr [0x31]) (Some 1) None 0 (- 1) l1_empty)) =
     (case l1Map (l1Put l1_example [0x61] (VStr [0x31]) (Some 1) None 0 (- 1) l1_empty) of
        [] \<Rightarrow> None | p # _ \<Rightarrow> Some p)"
  using oldestEntry_is_the_first [OF l1_reach.put [OF l1_reach.start],
      of l1_example "[0x61]" "VStr [0x31]" "\<lambda>_. Some 1" None 0 "- 1"] by simp

text \<open>C31: In a cache that neither stores bytes nor has a codec, the first value without a length (a number,
  a boolean, a bigint) makes the counter NaN, and from then on insertions evict nothing: the budget is
  no longer enforced, however many entries are put.\<close>

theorem l1_budget_lost_to_nan:
  assumes "\<not> cNoCodec c"
  shows "l1Map (foldl (\<lambda>s (k, v, h, n). l1Put c k v h n 0 ownAt s)
                  (l1Put c key v0 h0 None 0 ownAt s) puts) =
           foldl (\<lambda>m (k, v, h, n). AList.update k (entry_of c k v h n 0 ownAt) m)
             (AList.update key (entry_of c key v0 h0 None 0 ownAt) (l1Map s)) puts"
proof -
  have "l1Bytes t = None \<Longrightarrow>
      l1Map (foldl (\<lambda>s (k, v, h, n). l1Put c k v h n 0 ownAt s) t puts) =
      foldl (\<lambda>m (k, v, h, n). AList.update k (entry_of c k v h n 0 ownAt) m) (l1Map t) puts" for t
    by (induction puts arbitrary: t) (auto simp: l1Put_after_nan)
  then show ?thesis using l1Put_nan [OF assms] by simp
qed

theorem l1_budget_lost_to_nan_witness:
  "l1Map (foldl (\<lambda>s (k, v, h, n). l1Put (l1_example\<lparr>cNoCodec := False\<rparr>) k v h n 0 (- 1) s)
            (l1Put (l1_example\<lparr>cNoCodec := False\<rparr>) [0x61] (VNum 0) None None 0 (- 1) l1_empty)
            [([0x62], VStr [], None, Some 1000)]) =
     [([0x61], entry_of (l1_example\<lparr>cNoCodec := False\<rparr>) [0x61] (VNum 0) None None 0 (- 1)),
      ([0x62], entry_of (l1_example\<lparr>cNoCodec := False\<rparr>) [0x62] (VStr []) None (Some 1000) 0 (- 1))]"
  by (subst l1_budget_lost_to_nan) (simp_all add: l1_example_def l1_empty_def)

end
