(* ===== verification/Arena.thy ===== *)
theory Arena
  imports Options
begin

text \<open>
  What the cache uses of the addon (\<^verbatim>\<open>src/src/store_ops.h\<close>, \<^verbatim>\<open>submit.h\<close>,
  \<^verbatim>\<open>binding.cc\<close>): the shared arena as a map with deadlines, the invalidation ring,
  the clear generations of the header, and the submission rings of the workers. The hash of a key
  is a parameter \<open>H\<close> (rapidhash is vendored code), \<open>None\<close> for a key the addon refuses to hash.
  Whether a set finds room is an argument of the operation, and an eviction is a step of its own:
  it appends no record. The memory layout, the seqlock and the probing are not modelled; time on
  the arena's clock is a number of milliseconds, without the wrap at 2^32.

  A record's position on the ring is its index in \<open>aRing\<close>, of which only the last \<open>aRingCap\<close> can be
  read. The locale \<open>change_log\<close> states what the readers of the ring rely on: a key whose entry
  changes, other than by vanishing, has a record that concerns it past the change. Its lemma says
  that a window of the ring that holds no such record proves that the entry is the old one or gone.
\<close>

definition FLUSH_ALL :: hash where "FLUSH_ALL = 0xFFFFFFFFFFFFFFFF"

record ringRec =
  rrHash :: hash
  rrWriter :: nat

record aEntry =
  aeVal :: jsval
  aeExp :: nat

datatype subOp = SubSet jsstr jsval nat | SubDel jsstr

text \<open>A submission ring: the records not consumed, each with the position just past it.\<close>

record subRing =
  sbRecs :: "(subOp \<times> nat) list"
  sbHead :: nat
  sbTail :: nat
  sbBytes :: nat

record arena =
  aMap :: "(jsstr, aEntry) jsmap"
  aRing :: "ringRec list"
  aRingCap :: nat
  aGen :: nat
  aSettled :: nat
  aSubs :: "(nat, subRing) jsmap"

section \<open>Reading\<close>

definition ringHead :: "arena \<Rightarrow> nat" where
  "ringHead a = length (aRing a)"

definition tcExpired :: "nat \<Rightarrow> nat \<Rightarrow> bool" where
  "tcExpired e now = (e \<noteq> 0 \<and> e \<le> now)"

definition live_entry :: "nat \<Rightarrow> arena \<Rightarrow> jsstr \<Rightarrow> aEntry option" where
  "live_entry now a key =
     (case map_of (aMap a) key of
        None \<Rightarrow> None
      | Some e \<Rightarrow> if tcExpired (aeExp e) now then None else Some e)"

definition n_get :: "nat \<Rightarrow> arena \<Rightarrow> jsstr \<Rightarrow> jsval option" where
  "n_get now a key = map_option aeVal (live_entry now a key)"

definition n_has :: "nat \<Rightarrow> arena \<Rightarrow> jsstr \<Rightarrow> bool" where
  "n_has now a key = (live_entry now a key \<noteq> None)"

text \<open>\<^verbatim>\<open>lastTtlRemainingMs\<close> after a get of the key that hit.\<close>

definition n_lastTtl :: "nat \<Rightarrow> arena \<Rightarrow> jsstr \<Rightarrow> nat" where
  "n_lastTtl now a key =
     (case live_entry now a key of
        None \<Rightarrow> 0
      | Some e \<Rightarrow> if aeExp e = 0 then 0 else max 1 (aeExp e - now))"

record ringBatch =
  rbRecs :: "ringRec list"
  rbHead :: nat
  rbRingHead :: nat
  rbWrapped :: bool

definition ringRead :: "nat \<Rightarrow> nat \<Rightarrow> arena \<Rightarrow> ringBatch" where
  "ringRead cursor maxN a =
     (let head = ringHead a;
          wrapped = (cursor > head \<or> head - cursor \<ge> aRingCap a);
          c = (if wrapped then (if head > aRingCap a then head - aRingCap a else 0) else cursor);
          recs = take maxN (drop c (aRing a))
      in \<lparr>rbRecs = recs, rbHead = c + length recs, rbRingHead = head, rbWrapped = wrapped\<rparr>)"

section \<open>Writing\<close>

definition ringAppend :: "hash \<Rightarrow> nat \<Rightarrow> arena \<Rightarrow> arena" where
  "ringAppend h writer a = a\<lparr>aRing := aRing a @ [\<lparr>rrHash = h, rrWriter = writer\<rparr>]\<rparr>"

definition encodable :: "jsval \<Rightarrow> bool" where
  "encodable v = (storable v \<or> isBinary v)"

definition expiresAt :: "nat \<Rightarrow> nat \<Rightarrow> nat" where
  "expiresAt now ttl = (if ttl \<noteq> 0 then now + ttl else 0)"

definition n_set :: "hash \<Rightarrow> bool \<Rightarrow> nat \<Rightarrow> jsstr \<Rightarrow> jsval \<Rightarrow> nat \<Rightarrow> nat \<Rightarrow> arena \<Rightarrow> bool \<times> arena" where
  "n_set h room now key enc writer ttl a =
     (if \<not> encodable enc \<or> \<not> room then (False, a)
      else (True, ringAppend h writer
                    (a\<lparr>aMap := AList.update key \<lparr>aeVal = storedForm enc, aeExp = expiresAt now ttl\<rparr> (aMap a)\<rparr>)))"

definition n_del :: "hash \<Rightarrow> jsstr \<Rightarrow> nat \<Rightarrow> arena \<Rightarrow> bool \<times> arena" where
  "n_del h key writer a =
     (map_of (aMap a) key \<noteq> None, ringAppend h writer (a\<lparr>aMap := AList.delete key (aMap a)\<rparr>))"

definition n_clearAll :: "nat \<Rightarrow> arena \<Rightarrow> arena" where
  "n_clearAll writer a = ringAppend FLUSH_ALL writer (a\<lparr>aMap := []\<rparr>)"

text \<open>\<^verbatim>\<open>sweepExpired\<close> over one index slot that holds \<open>key\<close>, and an eviction.\<close>

definition n_sweep :: "hash \<Rightarrow> nat \<Rightarrow> jsstr \<Rightarrow> arena \<Rightarrow> arena" where
  "n_sweep h now key a =
     (case map_of (aMap a) key of
        None \<Rightarrow> a
      | Some e \<Rightarrow> if tcExpired (aeExp e) now
                  then ringAppend h 0 (a\<lparr>aMap := AList.delete key (aMap a)\<rparr>) else a)"

definition n_evict :: "jsstr \<Rightarrow> arena \<Rightarrow> arena" where
  "n_evict key a = a\<lparr>aMap := AList.delete key (aMap a)\<rparr>"

definition l3ClearBegin :: "arena \<Rightarrow> arena" where
  "l3ClearBegin a = a\<lparr>aGen := aGen a + 1\<rparr>"

definition l3ClearSettle :: "arena \<Rightarrow> arena" where
  "l3ClearSettle a = (if aSettled a < aGen a then a\<lparr>aSettled := aSettled a + 1\<rparr> else a)"

definition n_l3ClearsInFlight :: "arena \<Rightarrow> nat" where
  "n_l3ClearsInFlight a = (if aGen a > aSettled a then aGen a - aSettled a else 0)"

section \<open>The submission rings\<close>

definition sub_of :: "nat \<Rightarrow> arena \<Rightarrow> subRing" where
  "sub_of slot a =
     (case map_of (aSubs a) slot of
        None \<Rightarrow> \<lparr>sbRecs = [], sbHead = 0, sbTail = 0, sbBytes = 0\<rparr>
      | Some r \<Rightarrow> r)"

text \<open>
  \<^verbatim>\<open>submitPush\<close> of a record of \<open>need\<close> bytes, \<open>pad\<close> of them skipped before it. A record longer
  than half the ring, or one that does not fit now, is refused.
\<close>

definition submitPush :: "nat \<Rightarrow> subOp \<Rightarrow> nat \<Rightarrow> nat \<Rightarrow> arena \<Rightarrow> bool \<times> arena" where
  "submitPush slot op need pad a =
     (let r = sub_of slot a
      in if 2 * need > sbBytes r then (False, a)
         else if sbBytes r - (sbHead r - sbTail r) < need + pad then (False, a)
         else (let h = sbHead r + pad + need
               in (True, a\<lparr>aSubs := AList.update slot (r\<lparr>sbHead := h, sbRecs := sbRecs r @ [(op, h)]\<rparr>) (aSubs a)\<rparr>)))"

definition submitHead :: "nat \<Rightarrow> arena \<Rightarrow> nat" where "submitHead slot a = sbHead (sub_of slot a)"
definition submitTail :: "nat \<Rightarrow> arena \<Rightarrow> nat" where "submitTail slot a = sbTail (sub_of slot a)"

text \<open>
  One record applied by \<^verbatim>\<open>submitDrain\<close>: the writer id on the ring is the slot plus one, and a set
  that finds no room removes the key instead of leaving its predecessor.
\<close>

definition drain_one :: "(jsstr \<Rightarrow> hash) \<Rightarrow> nat \<Rightarrow> bool \<Rightarrow> nat \<Rightarrow> arena \<Rightarrow> arena" where
  "drain_one H slot room now a =
     (let r = sub_of slot a
      in case sbRecs r of
           [] \<Rightarrow> a
         | (op, p) # rest \<Rightarrow>
             (let a1 = (case op of
                          SubSet key enc ttl \<Rightarrow>
                            (let (stored, a1) = n_set (H key) room now key enc (slot + 1) ttl a
                             in if stored then a1 else snd (n_del (H key) key (slot + 1) a1))
                        | SubDel key \<Rightarrow> snd (n_del (H key) key (slot + 1) a))
              in a1\<lparr>aSubs := AList.update slot (r\<lparr>sbTail := p, sbRecs := rest\<rparr>) (aSubs a1)\<rparr>))"

text \<open>
  \<^verbatim>\<open>submitDrain\<close>: ring by ring, at most \<open>b\<close> records in all. The answer counts the records applied.
  \<open>fits\<close> says which keys find room.
\<close>

fun op_key :: "subOp \<Rightarrow> jsstr" where
  "op_key (SubSet key enc ttl) = key"
| "op_key (SubDel key) = key"

fun drain_slot :: "(jsstr \<Rightarrow> hash) \<Rightarrow> (jsstr \<Rightarrow> bool) \<Rightarrow> nat \<Rightarrow> nat \<Rightarrow> nat \<Rightarrow> arena \<Rightarrow> nat \<times> arena" where
  "drain_slot H fits now 0 slot a = (0, a)"
| "drain_slot H fits now (Suc b) slot a =
     (case sbRecs (sub_of slot a) of
        [] \<Rightarrow> (0, a)
      | (op, p) # rest \<Rightarrow>
          (let (n, a1) = drain_slot H fits now b slot (drain_one H slot (fits (op_key op)) now a) in (n + 1, a1)))"

fun drain_slots :: "(jsstr \<Rightarrow> hash) \<Rightarrow> (jsstr \<Rightarrow> bool) \<Rightarrow> nat \<Rightarrow> nat \<Rightarrow> nat list \<Rightarrow> arena \<Rightarrow> nat \<times> arena" where
  "drain_slots H fits now b [] a = (0, a)"
| "drain_slots H fits now b (slot # slots) a =
     (let (n1, a1) = drain_slot H fits now b slot a; (n2, a2) = drain_slots H fits now (b - n1) slots a1
      in (n1 + n2, a2))"

definition submitDrain :: "(jsstr \<Rightarrow> hash) \<Rightarrow> (jsstr \<Rightarrow> bool) \<Rightarrow> nat \<Rightarrow> nat \<Rightarrow> arena \<Rightarrow> nat \<times> arena" where
  "submitDrain H fits now b a = drain_slots H fits now b (sort (jskeys (aSubs a))) a"

section \<open>What is recorded\<close>

definition rec_concerns :: "(jsstr \<Rightarrow> hash) \<Rightarrow> jsstr \<Rightarrow> ringRec \<Rightarrow> bool" where
  "rec_concerns H key r \<longleftrightarrow> rrHash r = FLUSH_ALL \<or> rrHash r = H key"

text \<open>A step of the shared state, by whichever process makes it.\<close>

inductive arena_step :: "(jsstr \<Rightarrow> hash) \<Rightarrow> arena \<Rightarrow> arena \<Rightarrow> bool" for H where
  set: "arena_step H a (snd (n_set (H key) room now key enc writer ttl a))"
| del: "arena_step H a (snd (n_del (H key) key writer a))"
| clear: "arena_step H a (n_clearAll writer a)"
| sweep: "arena_step H a (n_sweep (H key) now key a)"
| evict: "arena_step H a (n_evict key a)"
| gen_open: "arena_step H a (l3ClearBegin a)"
| gen_settle: "arena_step H a (l3ClearSettle a)"
| submit: "arena_step H a (snd (submitPush slot op need pad a))"
| drain: "arena_step H a (drain_one H slot room now a)"

text \<open>\<open>recorded H a b\<close>: \<open>b\<close> extends the ring of \<open>a\<close>, and explains every change of an entry.\<close>

definition recorded :: "(jsstr \<Rightarrow> hash) \<Rightarrow> arena \<Rightarrow> arena \<Rightarrow> bool" where
  "recorded H a b \<longleftrightarrow>
     (\<exists>new. aRing b = aRing a @ new \<and>
        (\<forall>key. map_of (aMap b) key = map_of (aMap a) key \<or> map_of (aMap b) key = None \<or>
               (\<exists>r \<in> set new. rec_concerns H key r))) \<and>
     aRingCap b = aRingCap a"

lemma recorded_refl [simp]: "recorded H a a"
  by (simp add: recorded_def)

lemma recorded_trans:
  assumes "recorded H a b" "recorded H b c"
  shows "recorded H a c"
proof -
  obtain n1 where 1: "aRing b = aRing a @ n1"
    "\<And>k. map_of (aMap b) k = map_of (aMap a) k \<or> map_of (aMap b) k = None \<or> (\<exists>r \<in> set n1. rec_concerns H k r)"
    using assms(1) by (auto simp: recorded_def)
  obtain n2 where 2: "aRing c = aRing b @ n2"
    "\<And>k. map_of (aMap c) k = map_of (aMap b) k \<or> map_of (aMap c) k = None \<or> (\<exists>r \<in> set n2. rec_concerns H k r)"
    using assms(2) by (auto simp: recorded_def)
  have "aRing c = aRing a @ n1 @ n2" using 1 2 by simp
  moreover have "map_of (aMap c) k = map_of (aMap a) k \<or> map_of (aMap c) k = None \<or>
      (\<exists>r \<in> set (n1 @ n2). rec_concerns H k r)" for k
    using 1(2) [of k] 2(2) [of k] by auto
  moreover have "aRingCap c = aRingCap a" using assms by (simp add: recorded_def)
  ultimately show ?thesis unfolding recorded_def by blast
qed

lemma append_recorded:
  assumes "\<And>key. map_of m key = map_of (aMap a) key \<or> map_of m key = None \<or> h = H key \<or> h = FLUSH_ALL"
  shows "recorded H a (ringAppend h w (a\<lparr>aMap := m\<rparr>))"
  unfolding recorded_def
proof (intro conjI exI [of _ "[\<lparr>rrHash = h, rrWriter = w\<rparr>]"] allI)
  show "map_of (aMap (ringAppend h w (a\<lparr>aMap := m\<rparr>))) key = map_of (aMap a) key \<or>
        map_of (aMap (ringAppend h w (a\<lparr>aMap := m\<rparr>))) key = None \<or>
        (\<exists>r \<in> set [\<lparr>rrHash = h, rrWriter = w\<rparr>]. rec_concerns H key r)" for key
    using assms [of key] by (simp add: ringAppend_def rec_concerns_def) blast
qed (simp_all add: ringAppend_def)

lemma n_set_recorded: "recorded H a (snd (n_set (H key) room now key enc writer ttl a))"
  by (auto simp: n_set_def intro!: append_recorded split: if_splits)

lemma n_del_recorded: "recorded H a (snd (n_del (H key) key writer a))"
  by (auto simp: n_del_def intro!: append_recorded split: if_splits)

lemma n_clearAll_recorded: "recorded H a (n_clearAll writer a)"
  by (auto simp: n_clearAll_def intro!: append_recorded split: if_splits)

lemma n_sweep_recorded: "recorded H a (n_sweep (H key) now key a)"
  by (auto simp: n_sweep_def intro!: append_recorded split: option.split if_splits)

lemma recorded_quiet: "aRing b = aRing a \<Longrightarrow> aMap b = aMap a \<Longrightarrow> aRingCap b = aRingCap a \<Longrightarrow> recorded H a b"
  by (simp add: recorded_def)

lemma drain_one_recorded: "recorded H a (drain_one H slot room now a)"
proof (cases "sbRecs (sub_of slot a)")
  case Nil
  then show ?thesis by (simp add: drain_one_def Let_def)
next
  case (Cons x rest)
  obtain op p where x: "x = (op, p)" by force
  have q: "recorded H b (b\<lparr>aSubs := s\<rparr>)" for b s by (rule recorded_quiet) simp_all
  show ?thesis
  proof (cases op)
    case (SubSet key enc ttl)
    obtain st a1 where s: "n_set (H key) room now key enc (slot + 1) ttl a = (st, a1)" by force
    have "recorded H a a1" using n_set_recorded [of H a key room now enc "slot + 1" ttl] s by simp
    moreover have "recorded H a1 (snd (n_del (H key) key (slot + 1) a1))" by (rule n_del_recorded)
    ultimately have "recorded H a (if st then a1 else snd (n_del (H key) key (slot + 1) a1))"
      using recorded_trans by (cases st) auto
    then show ?thesis
      using Cons x SubSet s recorded_trans [OF _ q] by (simp add: drain_one_def Let_def)
  next
    case (SubDel key)
    then show ?thesis
      using Cons x recorded_trans [OF n_del_recorded q] by (simp add: drain_one_def Let_def)
  qed
qed

lemma arena_step_recorded: "arena_step H a b \<Longrightarrow> recorded H a b"
proof (induction rule: arena_step.induct)
  case (evict a key)
  then show ?case by (auto simp: recorded_def n_evict_def)
next
  case (submit a slot op need pad)
  then show ?case by (auto simp: submitPush_def Let_def intro: recorded_quiet)
qed (auto simp: n_set_recorded n_del_recorded n_clearAll_recorded n_sweep_recorded drain_one_recorded
    l3ClearBegin_def l3ClearSettle_def intro: recorded_quiet)

lemma arena_steps_recorded: "(arena_step H)\<^sup>*\<^sup>* a b \<Longrightarrow> recorded H a b"
  by (induction rule: rtranclp_induct) (auto intro: recorded_trans arena_step_recorded)

lemma drain_slot_steps: "(arena_step H)\<^sup>*\<^sup>* a (snd (drain_slot H fits now b slot a))"
proof (induction b arbitrary: a)
  case (Suc b)
  show ?case
  proof (cases "sbRecs (sub_of slot a)")
    case (Cons x rest)
    then obtain op p where "sbRecs (sub_of slot a) = (op, p) # rest" by (cases x) auto
    then show ?thesis
      using converse_rtranclp_into_rtranclp [OF arena_step.drain Suc.IH] by (simp add: case_prod_beta Let_def)
  qed simp
qed simp

lemma drain_slots_steps: "(arena_step H)\<^sup>*\<^sup>* a (snd (drain_slots H fits now b slots a))"
proof (induction slots arbitrary: a b)
  case (Cons slot slots)
  show ?case
    using rtranclp_trans [OF drain_slot_steps [of H a fits now b slot] Cons.IH]
    by (simp add: case_prod_beta Let_def)
qed simp

lemma submitDrain_steps: "(arena_step H)\<^sup>*\<^sup>* a (snd (submitDrain H fits now b a))"
  by (simp add: submitDrain_def drain_slots_steps)

text \<open>A drain that applied less than its budget left every ring empty.\<close>

lemma drain_one_recs:
  "sbRecs (sub_of s (drain_one H slot room now a)) = (if s = slot then tl (sbRecs (sub_of slot a)) else sbRecs (sub_of s a))"
  by (auto simp: drain_one_def sub_of_def Let_def n_set_def n_del_def ringAppend_def
      split: option.splits list.splits subOp.splits prod.splits if_splits)

lemma drain_slot_recs:
  "s \<noteq> slot \<Longrightarrow> sbRecs (sub_of s (snd (drain_slot H fits now b slot a))) = sbRecs (sub_of s a)"
  by (induction b arbitrary: a) (simp_all add: drain_one_recs case_prod_beta Let_def split: list.split)

lemma drain_slot_empties:
  "fst (drain_slot H fits now b slot a) < b \<Longrightarrow> sbRecs (sub_of slot (snd (drain_slot H fits now b slot a))) = []"
  by (induction b arbitrary: a) (auto simp: case_prod_beta Let_def split: list.splits)

lemma drain_slot_le: "fst (drain_slot H fits now b slot a) \<le> b"
  by (induction b arbitrary: a) (auto simp: case_prod_beta Let_def split: list.splits)

lemma drain_slots_keep:
  "s \<notin> set slots \<Longrightarrow> sbRecs (sub_of s (snd (drain_slots H fits now b slots a))) = sbRecs (sub_of s a)"
  by (induction slots arbitrary: a b) (simp_all add: case_prod_beta Let_def drain_slot_recs)

lemma drain_slots_empties:
  "fst (drain_slots H fits now b slots a) < b \<Longrightarrow> distinct slots \<Longrightarrow> s \<in> set slots \<Longrightarrow>
   sbRecs (sub_of s (snd (drain_slots H fits now b slots a))) = []"
proof (induction slots arbitrary: a b)
  case (Cons slot slots)
  let ?n1 = "fst (drain_slot H fits now b slot a)" and ?a1 = "snd (drain_slot H fits now b slot a)"
  have lt: "?n1 + fst (drain_slots H fits now (b - ?n1) slots ?a1) < b"
    using Cons.prems(1) by (simp add: case_prod_beta Let_def)
  show ?case
  proof (cases "s = slot")
    case True
    then have "s \<notin> set slots" using Cons.prems(2) by simp
    then show ?thesis
      using True drain_slots_keep [of s slots H fits now "b - ?n1" ?a1] drain_slot_empties [of H fits now b slot a] lt
      by (simp add: case_prod_beta Let_def)
  next
    case False
    then have "sbRecs (sub_of s (snd (drain_slots H fits now (b - ?n1) slots ?a1))) = []"
      using Cons.IH [of "b - ?n1" ?a1] Cons.prems lt by simp
    then show ?thesis by (simp add: case_prod_beta Let_def)
  qed
qed simp

lemma submitDrain_empties:
  assumes "fst (submitDrain H fits now b a) < b" "wf_map (aSubs a)"
  shows "sbRecs (sub_of s (snd (submitDrain H fits now b a))) = []"
proof (cases "s \<in> fst ` set (aSubs a)")
  case True
  then show ?thesis
    using assms drain_slots_empties [of H fits now b "sort (jskeys (aSubs a))" a s] by (simp add: submitDrain_def)
next
  case False
  then have "map_of (aSubs a) s = None" by (simp add: map_of_eq_None_iff)
  then have "sbRecs (sub_of s a) = []" by (simp add: sub_of_def)
  then show ?thesis
    using False drain_slots_keep [of s "sort (jskeys (aSubs a))" H fits now b a] by (simp add: submitDrain_def)
qed

section \<open>The change log\<close>

locale change_log =
  fixes log_of :: "'s \<Rightarrow> 'r list"
    and val_of :: "'s \<Rightarrow> 'k \<Rightarrow> 'v option"
    and about :: "'k \<Rightarrow> 'r \<Rightarrow> bool"
    and steps :: "'s \<Rightarrow> 's \<Rightarrow> bool"
  assumes explained: "steps a b \<Longrightarrow>
      \<exists>new. log_of b = log_of a @ new \<and>
            (\<forall>k. val_of b k = val_of a k \<or> val_of b k = None \<or> (\<exists>r \<in> set new. about k r))"
begin

lemma extends: "steps a b \<Longrightarrow> take (length (log_of a)) (log_of b) = log_of a"
  using explained [of a b] by auto

lemma head_mono: "steps a b \<Longrightarrow> length (log_of a) \<le> length (log_of b)"
  using explained [of a b] by auto

lemma quiet_window:
  assumes "steps a b" "from \<le> length (log_of a)"
    and "\<And>r. r \<in> set (drop from (log_of b)) \<Longrightarrow> \<not> about k r"
  shows "val_of b k = val_of a k \<or> val_of b k = None"
proof -
  obtain new where n: "log_of b = log_of a @ new"
    "val_of b k = val_of a k \<or> val_of b k = None \<or> (\<exists>r \<in> set new. about k r)"
    using explained [OF assms(1)] by blast
  have "set new \<subseteq> set (drop from (log_of b))" using n(1) assms(2) by simp
  then have "\<not> (\<exists>r \<in> set new. about k r)" using assms(3) by auto
  then show ?thesis using n(2) by auto
qed

end

interpretation al: change_log aRing "\<lambda>a. map_of (aMap a)" "rec_concerns H" "\<lambda>a b. (arena_step H)\<^sup>*\<^sup>* a b" for H
proof
  fix a b
  assume "(arena_step H)\<^sup>*\<^sup>* a b"
  then show "\<exists>new. aRing b = aRing a @ new \<and>
      (\<forall>k. map_of (aMap b) k = map_of (aMap a) k \<or> map_of (aMap b) k = None \<or> (\<exists>r \<in> set new. rec_concerns H k r))"
    using arena_steps_recorded [of H a b] unfolding recorded_def by blast
qed

section \<open>Reading the ring in batches\<close>

lemma ringRead_recs:
  assumes "\<not> rbWrapped (ringRead c n a)"
  shows "c \<le> ringHead a" "rbRecs (ringRead c n a) = take n (drop c (aRing a))"
    "rbHead (ringRead c n a) = min (c + n) (ringHead a)" "rbRingHead (ringRead c n a) = ringHead a"
  using assms by (auto simp: ringRead_def Let_def ringHead_def min_def split: if_splits)

lemma ringRead_reset_head: "rbRingHead (ringRead c n a) = ringHead a"
  by (simp add: ringRead_def Let_def)

text \<open>
  The walk that two guards of the cache make: batches of \<open>n\<close> from \<open>cursor\<close>, until the head is
  reached (\<open>Some\<close> of the records seen), the ring has wrapped (\<open>None\<close>), or \<open>fuel\<close> rounds are spent
  (\<open>None\<close>).
\<close>

fun ring_walk :: "nat \<Rightarrow> nat \<Rightarrow> nat \<Rightarrow> arena \<Rightarrow> ringRec list option" where
  "ring_walk 0 n cursor a = None"
| "ring_walk (Suc fuel) n cursor a =
     (let r = ringRead cursor n a
      in if rbWrapped r then None
         else if rbHead r \<le> cursor \<or> rbHead r \<ge> rbRingHead r then Some (rbRecs r)
         else map_option (\<lambda>rs. rbRecs r @ rs) (ring_walk fuel n (rbHead r) a))"

lemma ring_walk_all:
  "ring_walk fuel n cursor a = Some rs \<Longrightarrow> 0 < n \<Longrightarrow> rs = drop cursor (aRing a) \<and> cursor \<le> ringHead a"
proof (induction fuel arbitrary: cursor rs)
  case (Suc fuel)
  let ?r = "ringRead cursor n a"
  have w: "\<not> rbWrapped ?r" using Suc.prems(1) by (auto simp: Let_def split: if_splits)
  note rr = ringRead_recs [OF w]
  show ?case
  proof (cases "rbHead ?r \<le> cursor \<or> rbHead ?r \<ge> rbRingHead ?r")
    case True
    then have "rs = take n (drop cursor (aRing a))" using Suc.prems(1) w rr by (auto simp: Let_def)
    moreover have "length (drop cursor (aRing a)) \<le> n"
      using True rr Suc.prems(2) by (auto simp: ringHead_def min_def split: if_splits)
    ultimately show ?thesis using rr by simp
  next
    case False
    then obtain rs' where rs': "ring_walk fuel n (rbHead ?r) a = Some rs'" "rs = rbRecs ?r @ rs'"
      using Suc.prems(1) w by (auto simp: Let_def)
    have "rbHead ?r = cursor + n" using False rr by (auto simp: min_def split: if_splits)
    then have "rs' = drop (cursor + n) (aRing a)" using Suc.IH [OF rs'(1) Suc.prems(2)] by simp
    then show ?thesis using rs'(2) rr by (simp add: append_take_drop_id [symmetric] add.commute drop_drop)
        (metis append_take_drop_id drop_drop add.commute)
  qed
qed simp

text \<open>On a ring that stands still, enough rounds always come to an answer.\<close>

lemma ring_walk_enough:
  "ringHead a - cursor < fuel * n \<or> ringHead a = cursor \<and> 0 < fuel \<Longrightarrow> 0 < n \<Longrightarrow> cursor \<le> ringHead a \<Longrightarrow>
   ringHead a - cursor < aRingCap a \<Longrightarrow> ring_walk fuel n cursor a \<noteq> None"
proof (induction fuel arbitrary: cursor)
  case (Suc fuel)
  let ?r = "ringRead cursor n a"
  have w: "\<not> rbWrapped ?r" using Suc.prems by (simp add: ringRead_def Let_def)
  note rr = ringRead_recs [OF w]
  show ?case
  proof (cases "rbHead ?r \<le> cursor \<or> rbHead ?r \<ge> rbRingHead ?r")
    case False
    then have h: "rbHead ?r = cursor + n" "cursor + n < ringHead a"
      using rr by (auto simp: min_def split: if_splits)
    have "ring_walk fuel n (cursor + n) a \<noteq> None"
      by (rule Suc.IH) (use Suc.prems h in auto)
    then show ?thesis using w False h by (auto simp: Let_def)
  qed (use w in \<open>auto simp: Let_def\<close>)
qed auto

end
