(* ===== verification/Inst.thy ===== *)
theory Inst
  imports Marks L1 Arena L3Queue
begin

text \<open>
  The state of one cache object (the private fields of the class \<^verbatim>\<open>TurboKV\<close> of
  \<^verbatim>\<open>src/src/turbokv.js\<close>, lines 509 to 603), grouped by component: the configuration, the
  process's own tier, what the worker owes the arena, the liveness of the primary, the way out to
  the primary, the caps outstanding after a refused write, and the queue to the shared store. The
  statistics are a map from the counter's name. \<^verbatim>\<open>lastError\<close> and the identity of the arena are not
  modelled, and a value handed out is a value, so copying a Buffer and freezing an object are the
  identity.

  A codec is a pair of partial functions, \<open>None\<close> where it throws: it is the caller's code. The
  readings a call takes from its surroundings are in \<open>env\<close>: the two clocks, the age of the primary's
  heartbeat, whether the arena has room, the size of a submission record, and what happens to a message.
\<close>

section \<open>Configuration\<close>

record codec =
  cEncode :: "jsval \<Rightarrow> jsval option"
  cDecode :: "jsval \<Rightarrow> jsval option"

record cfg =
  gId :: nat
  gHasL3 :: bool
  gCodec :: "codec option"
  gL1Decoded :: bool
  gIsolate :: bool
  gIpc :: bool
  gStaleMs :: int
  gFailTtl :: ms
  gL3Ttl :: ms
  gKeyMax :: nat
  gOutMax :: int
  gFlightMax :: int
  gL1 :: l1Cfg

section \<open>State\<close>

record coh =
  cDel :: pendingMarks
  cWrite :: pendingMarks
  cDeletedAt :: "(jsstr, nat) jsmap"
  cOwedDel :: int
  cOwedWrite :: int
  cCursor :: nat

record live =
  vDead :: bool
  vLastCheck :: ms
  vWarned :: bool
  vClosed :: bool

datatype obOp = OSet jsstr jsval ms | ODel jsstr | ORetime jsstr jsval ms | OClear | OOpen | OSettle

record link =
  kRing :: "nat option"
  kRingMax :: nat
  kMaxValue :: nat
  kOut :: "obOp list"
  kCapKeys :: "jsstr list"
  kOutBytes :: int
  kFlight :: int
  kWire :: "(obOp list \<times> int \<times> jsstr list \<times> nat) list"
  kScheduled :: bool
  kDoorbell :: bool

record capRec =
  rEnc :: jsval
  rCap :: ms
  rAt :: "nat option"
  rDeadline :: ms
  rUntil :: ms
  rCounted :: bool

record caps =
  pMap :: "(jsstr, capRec) jsmap"
  pTimer :: bool

record inst =
  iCfg :: cfg
  iL1 :: l1State
  iCoh :: coh
  iLive :: live
  iLink :: link
  iCaps :: caps
  iQueue :: "queue option"
  iLastQ :: "nat option"
  iReads :: "(nat \<times> jsstr, int \<times> nat) jsmap"
  iStats :: "string \<Rightarrow> nat"

datatype sendResult = SendGone | SendThrows | SendOk bool

record env =
  eMono :: ms
  eWall :: ms
  eTick :: nat
  eAge :: int
  eReady :: bool
  eMayDegrade :: bool
  eFits :: "jsstr \<Rightarrow> bool"
  eNeed :: nat
  ePad :: nat
  eSend :: sendResult

datatype callError = BadMinLevel | DecodeThrew | NullLength

type_synonym 'a answer = "callError + 'a"

definition bump :: "string \<Rightarrow> inst \<Rightarrow> inst" where
  "bump c i = i\<lparr>iStats := (iStats i)(c := iStats i c + 1)\<rparr>"

definition add_stat :: "string \<Rightarrow> nat \<Rightarrow> inst \<Rightarrow> inst" where
  "add_stat c n i = i\<lparr>iStats := (iStats i)(c := iStats i c + n)\<rparr>"

lemma bump_frame [simp, frame_simps]:
  "iCfg (bump c i) = iCfg i" "iL1 (bump c i) = iL1 i" "iCoh (bump c i) = iCoh i" "iLive (bump c i) = iLive i"
  "iLink (bump c i) = iLink i" "iCaps (bump c i) = iCaps i" "iQueue (bump c i) = iQueue i" "iLastQ (bump c i) = iLastQ i"
  "iStats (bump c i) d = (if d = c then iStats i c + 1 else iStats i d)"
  by (simp_all add: bump_def)

lemma add_stat_frame [simp, frame_simps]:
  "iCfg (add_stat c n i) = iCfg i" "iL1 (add_stat c n i) = iL1 i" "iCoh (add_stat c n i) = iCoh i"
  "iLive (add_stat c n i) = iLive i" "iLink (add_stat c n i) = iLink i" "iCaps (add_stat c n i) = iCaps i"
  "iQueue (add_stat c n i) = iQueue i" "iLastQ (add_stat c n i) = iLastQ i"
  by (simp_all add: add_stat_def)

text \<open>\<^verbatim>\<open>.length\<close> of a value: \<open>None\<close> is undefined.\<close>

definition jsLength :: "jsval \<Rightarrow> nat option" where
  "jsLength v = (case v of VStr s \<Rightarrow> Some (length s) | VBuf b \<Rightarrow> Some (length b) | VView b \<Rightarrow> Some (length b) | _ \<Rightarrow> None)"

text \<open>Reading it throws on null and undefined.\<close>

definition length_read :: "jsval \<Rightarrow> nat option answer" where
  "length_read v = (case v of VNull \<Rightarrow> Inl NullLength | VUndef \<Rightarrow> Inl NullLength | _ \<Rightarrow> Inr (jsLength v))"

definition decode_with :: "cfg \<Rightarrow> jsval \<Rightarrow> jsval answer" where
  "decode_with g v =
     (case gCodec g of
        None \<Rightarrow> Inl DecodeThrew
      | Some c \<Rightarrow> (case cDecode c v of None \<Rightarrow> Inl DecodeThrew | Some w \<Rightarrow> Inr w))"

definition level_of :: "bool \<Rightarrow> inst \<Rightarrow> numArg \<Rightarrow> nat answer" where
  "level_of ready i minLevel =
     (case resolveLevel (gHasL3 (iCfg i)) ready (vDead (iLive i)) minLevel of
        Inl _ \<Rightarrow> Inl BadMinLevel
      | Inr k \<Rightarrow> Inr k)"

section \<open>Forgetting\<close>

text \<open>\<^verbatim>\<open>#dropCachedValues\<close> and \<^verbatim>\<open>clearLocal\<close>.\<close>

definition dropCachedValues :: "inst \<Rightarrow> inst" where
  "dropCachedValues i = i\<lparr>iL1 := l1_clear (iL1 i)\<rparr>"

definition stopCapTimer :: "inst \<Rightarrow> inst" where
  "stopCapTimer i = i\<lparr>iCaps := (iCaps i)\<lparr>pTimer := False\<rparr>\<rparr>"

definition clearLocal :: "inst \<Rightarrow> inst" where
  "clearLocal i =
     stopCapTimer ((dropCachedValues i)
       \<lparr>iCoh := (iCoh i)\<lparr>cDel := mk_clear (cDel (iCoh i)), cWrite := mk_clear (cWrite (iCoh i)), cDeletedAt := []\<rparr>,
        iCaps := (iCaps i)\<lparr>pMap := []\<rparr>\<rparr>)"

text \<open>\<^verbatim>\<open>#setDead\<close>: the ring index goes with the primary.\<close>

definition setDead :: "bool \<Rightarrow> inst \<Rightarrow> inst" where
  "setDead dead i =
     (let i1 = i\<lparr>iLive := (iLive i)\<lparr>vDead := dead\<rparr>\<rparr>
      in if dead then i1\<lparr>iLink := (iLink i1)\<lparr>kRing := None\<rparr>\<rparr> else i1)"

definition cancelCap :: "jsstr \<Rightarrow> inst \<Rightarrow> inst" where
  "cancelCap key i =
     (if pMap (iCaps i) \<noteq> [] then i\<lparr>iCaps := (iCaps i)\<lparr>pMap := AList.delete key (pMap (iCaps i))\<rparr>\<rparr> else i)"

definition cancelOwnCaps :: "inst \<Rightarrow> inst" where
  "cancelOwnCaps i = (if pMap (iCaps i) \<noteq> [] then stopCapTimer (i\<lparr>iCaps := (iCaps i)\<lparr>pMap := []\<rparr>\<rparr>) else i)"

section \<open>What this process owes\<close>

text \<open>The hash a mark is filed under. \<^verbatim>\<open>hashKey\<close> answers undefined for a key the addon refuses; that
  is a value no 64-bit hash of a ring record equals.\<close>

definition NO_HASH :: hash where "NO_HASH = 2 ^ 64"

definition hash_of :: "(jsstr \<Rightarrow> hash option) \<Rightarrow> jsstr \<Rightarrow> hash" where
  "hash_of HK key = (case HK key of Some h \<Rightarrow> h | None \<Rightarrow> NO_HASH)"

definition deletedHere :: "inst \<Rightarrow> jsstr \<Rightarrow> bool" where
  "deletedHere i key =
     (mk_has (cDel (iCoh i)) key \<or>
      (case iQueue i of None \<Rightarrow> False | Some q \<Rightarrow> outstandingKind q key = Some KDelete))"

definition unappliedHere :: "inst \<Rightarrow> jsstr \<Rightarrow> bool" where
  "unappliedHere i key = (mk_has (cDel (iCoh i)) key \<or> mk_has (cWrite (iCoh i)) key)"

definition ringHeadNow :: "bool \<Rightarrow> arena \<Rightarrow> inst \<Rightarrow> nat" where
  "ringHeadNow ready a i = (if \<not> ready \<or> vDead (iLive i) then 0 else ringHead a)"

definition submitTailNow :: "arena \<Rightarrow> inst \<Rightarrow> int" where
  "submitTailNow a i = (case kRing (iLink i) of None \<Rightarrow> - 1 | Some slot \<Rightarrow> int (submitTail slot a))"

definition submitPosNow :: "arena \<Rightarrow> inst \<Rightarrow> int" where
  "submitPosNow a i = (case kRing (iLink i) of None \<Rightarrow> - 1 | Some slot \<Rightarrow> int (submitHead slot a))"

definition noteDeleted :: "jsstr \<Rightarrow> nat \<Rightarrow> inst \<Rightarrow> inst" where
  "noteDeleted key pos i =
     (if iQueue i = None then i
      else (let d = AList.delete key (cDeletedAt (iCoh i));
                d1 = (if PENDING_MARK_MAX \<le> length d then
                        (case d of [] \<Rightarrow> d | (ok, _) # _ \<Rightarrow> AList.delete ok d) else d)
            in i\<lparr>iCoh := (iCoh i)\<lparr>cDeletedAt := AList.update key pos d1\<rparr>\<rparr>))"

definition sharedClearsInFlight :: "bool \<Rightarrow> arena \<Rightarrow> inst \<Rightarrow> nat" where
  "sharedClearsInFlight ready a i =
     (if \<not> ready \<or> vDead (iLive i) then 0 else n_l3ClearsInFlight a)"

definition capExpired :: "ms \<Rightarrow> inst \<Rightarrow> jsstr \<Rightarrow> jsval \<Rightarrow> bool" where
  "capExpired now i key raw =
     (case map_of (pMap (iCaps i)) key of
        None \<Rightarrow> False
      | Some c \<Rightarrow> rDeadline c \<le> now \<and> sameStored raw (rEnc c))"

definition dropByHash :: "hash \<Rightarrow> inst \<Rightarrow> inst" where
  "dropByHash h i =
     (case map_of (l1ByHash (iL1 i)) (Some h) of
        None \<Rightarrow> i
      | Some k \<Rightarrow>
          bump ''invalidated''
            (i\<lparr>iL1 := (l1Drop k (iL1 i))\<lparr>l1ByHash := AList.delete (Some h) (l1ByHash (l1Drop k (iL1 i)))\<rparr>\<rparr>))"

lemma noteDeleted_frame [simp, frame_simps]:
  "iCfg (noteDeleted k pos i) = iCfg i" "iL1 (noteDeleted k pos i) = iL1 i" "iLive (noteDeleted k pos i) = iLive i"
  "iLink (noteDeleted k pos i) = iLink i" "iCaps (noteDeleted k pos i) = iCaps i" "iQueue (noteDeleted k pos i) = iQueue i"
  "iLastQ (noteDeleted k pos i) = iLastQ i" "iStats (noteDeleted k pos i) = iStats i"
  "cDel (iCoh (noteDeleted k pos i)) = cDel (iCoh i)" "cWrite (iCoh (noteDeleted k pos i)) = cWrite (iCoh i)"
  "cOwedDel (iCoh (noteDeleted k pos i)) = cOwedDel (iCoh i)" "cOwedWrite (iCoh (noteDeleted k pos i)) = cOwedWrite (iCoh i)"
  "cCursor (iCoh (noteDeleted k pos i)) = cCursor (iCoh i)"
  by (simp_all add: noteDeleted_def Let_def)

lemma clearLocal_frame [simp, frame_simps]:
  "iCfg (clearLocal i) = iCfg i" "iL1 (clearLocal i) = l1_clear (iL1 i)" "iLive (clearLocal i) = iLive i"
  "iLink (clearLocal i) = iLink i" "iQueue (clearLocal i) = iQueue i" "iStats (clearLocal i) = iStats i"
  "cDel (iCoh (clearLocal i)) = mk_clear (cDel (iCoh i))" "cWrite (iCoh (clearLocal i)) = mk_clear (cWrite (iCoh i))"
  "cDeletedAt (iCoh (clearLocal i)) = []" "cCursor (iCoh (clearLocal i)) = cCursor (iCoh i)"
  "cOwedDel (iCoh (clearLocal i)) = cOwedDel (iCoh i)" "cOwedWrite (iCoh (clearLocal i)) = cOwedWrite (iCoh i)"
  "pMap (iCaps (clearLocal i)) = []" "pTimer (iCaps (clearLocal i)) = False"
  by (simp_all add: clearLocal_def stopCapTimer_def dropCachedValues_def)

lemma setDead_frame [simp, frame_simps]:
  "iCfg (setDead d i) = iCfg i" "iL1 (setDead d i) = iL1 i" "iCoh (setDead d i) = iCoh i"
  "iCaps (setDead d i) = iCaps i" "iQueue (setDead d i) = iQueue i" "iStats (setDead d i) = iStats i"
  "vDead (iLive (setDead d i)) = d" "kOut (iLink (setDead d i)) = kOut (iLink i)"
  by (simp_all add: setDead_def Let_def)

lemma cancelCap_frame [simp, frame_simps]:
  "iCfg (cancelCap k i) = iCfg i" "iL1 (cancelCap k i) = iL1 i" "iCoh (cancelCap k i) = iCoh i"
  "iLive (cancelCap k i) = iLive i" "iLink (cancelCap k i) = iLink i" "iQueue (cancelCap k i) = iQueue i"
  "iStats (cancelCap k i) = iStats i" "iLastQ (cancelCap k i) = iLastQ i"
  "map_of (pMap (iCaps (cancelCap k i))) x = (if x = k then None else map_of (pMap (iCaps i)) x)"
  by (auto simp: cancelCap_def)

lemma cancelOwnCaps_frame [simp, frame_simps]:
  "iCfg (cancelOwnCaps i) = iCfg i" "iL1 (cancelOwnCaps i) = iL1 i" "iCoh (cancelOwnCaps i) = iCoh i"
  "iLive (cancelOwnCaps i) = iLive i" "iLink (cancelOwnCaps i) = iLink i" "iQueue (cancelOwnCaps i) = iQueue i"
  "iStats (cancelOwnCaps i) = iStats i" "iLastQ (cancelOwnCaps i) = iLastQ i"
  "pMap (iCaps (cancelOwnCaps i)) = []"
  by (auto simp: cancelOwnCaps_def stopCapTimer_def)

text \<open>The map of recorded removals is bounded, and the oldest goes first.\<close>

lemma noteDeleted_push:
  assumes "wf_map (cDeletedAt (iCoh i))"
  shows "cDeletedAt (iCoh (noteDeleted key pos i)) =
           (if iQueue i = None then cDeletedAt (iCoh i)
            else bounded_push PENDING_MARK_MAX key pos (cDeletedAt (iCoh i)))"
proof -
  let ?d = "AList.delete key (cDeletedAt (iCoh i))"
  have "AList.delete (fst p) (p # r) = r" if "?d = p # r" for p r
  proof -
    have "wf_map (p # r)" using that assms by (metis wf_map_delete)
    then show ?thesis by (cases p) (simp add: delete_absent)
  qed
  then show ?thesis
    by (auto simp: noteDeleted_def bounded_push_def Let_def split: list.splits prod.splits)
qed

end
