(* ===== verification/Caps.thy ===== *)
theory Caps
  imports Inst
begin

text \<open>
  The caps of a write that the shared store refused (\<^verbatim>\<open>src/src/turbokv.js\<close>, lines 2536 to 2834 and
  2902 to 2928): the value is kept locally under a short time to live. This theory holds the part
  of one cache object: the guard entries and their timer, their retirement, the walk of the ring
  that judges a retired one, and the conditional re-timing of the arena that only the primary makes.
  A lost cap is counted once, in one of two counters.
\<close>

definition L3_CAP_POLL_MS :: nat where "L3_CAP_POLL_MS = 20"
definition L3_CAP_WINDOW_MS :: ms where "L3_CAP_WINDOW_MS = 2000"
definition L3_CAP_MAX :: nat where "L3_CAP_MAX = 4096"

section \<open>Counting a lost cap\<close>

definition countCapLost :: "string \<Rightarrow> inst \<Rightarrow> inst" where
  "countCapLost bucket i = bump bucket i"

definition set_caps :: "(jsstr, capRec) jsmap \<Rightarrow> inst \<Rightarrow> inst" where
  "set_caps m i = i\<lparr>iCaps := (iCaps i)\<lparr>pMap := m\<rparr>\<rparr>"

definition capLost :: "jsstr \<Rightarrow> string \<Rightarrow> inst \<Rightarrow> inst" where
  "capLost key bucket i =
     (case map_of (pMap (iCaps i)) key of
        None \<Rightarrow> i
      | Some c \<Rightarrow>
          if rCounted c then i
          else countCapLost bucket (set_caps (AList.update key (c\<lparr>rCounted := True\<rparr>) (pMap (iCaps i))) i))"

definition capUnapplied :: "jsstr \<Rightarrow> inst \<Rightarrow> inst" where
  "capUnapplied key i = capLost key ''l3FailTtlUnapplied'' i"

definition capEntryUnconfirmed :: "jsstr \<Rightarrow> inst \<Rightarrow> inst" where
  "capEntryUnconfirmed key i = capLost key ''l3FailTtlUnconfirmed'' i"

section \<open>Noting a cap\<close>

definition noteCap :: "env \<Rightarrow> arena \<Rightarrow> jsstr \<Rightarrow> jsval \<Rightarrow> ms \<Rightarrow> inst \<Rightarrow> inst" where
  "noteCap e a key enc cap i =
     (if vClosed (iLive i) \<or> length (pMap (iCaps i)) \<ge> L3_CAP_MAX
      then countCapLost ''l3FailTtlUnconfirmed'' i
      else (let since = (if eReady e \<and> \<not> vDead (iLive i) then Some (ringHead a) else None);
                now = eMono e;
                i1 = set_caps (AList.update key
                       \<lparr>rEnc = enc, rCap = cap, rAt = since, rDeadline = now + cap,
                        rUntil = now + cap + L3_CAP_WINDOW_MS, rCounted = False\<rparr> (pMap (iCaps i))) i
            in i1\<lparr>iCaps := (iCaps i1)\<lparr>pTimer := True\<rparr>\<rparr>))"

section \<open>Judging a retired cap\<close>

record writers =
  wsOther :: "hash list"
  wsMine :: "hash list"
  wsAll :: bool

text \<open>\<^verbatim>\<open>#ringWritersSince\<close>: at most \<open>fuel\<close> rounds of 1024 records; \<open>None\<close> when the ring has lapped
  the walk, or the rounds ran out before its end.\<close>

definition split_writers :: "nat \<Rightarrow> ringRec list \<Rightarrow> writers" where
  "split_writers mine rs =
     \<lparr>wsOther = List.map rrHash (filter (\<lambda>r. rrHash r \<noteq> FLUSH_ALL \<and> rrWriter r \<noteq> mine) rs),
      wsMine = List.map rrHash (filter (\<lambda>r. rrHash r \<noteq> FLUSH_ALL \<and> rrWriter r = mine) rs),
      wsAll = list_ex (\<lambda>r. rrHash r = FLUSH_ALL) rs\<rparr>"

definition ringWritersSince :: "arena \<Rightarrow> inst \<Rightarrow> nat \<Rightarrow> writers option" where
  "ringWritersSince a i from =
     map_option (split_writers (case kRing (iLink i) of Some slot \<Rightarrow> slot + 1 | None \<Rightarrow> gId (iCfg i)))
       (ring_walk 64 1024 from a)"

definition cap_suspect :: "nat \<Rightarrow> arena \<Rightarrow> jsstr \<Rightarrow> capRec \<Rightarrow> bool" where
  "cap_suspect tick a key c =
     (\<not> rCounted c \<and>
      (case n_get tick a key of
         None \<Rightarrow> False
       | Some cur \<Rightarrow> sameStored cur (rEnc c) \<and> n_lastTtl tick a key = 0))"

definition judge_one :: "(jsstr \<Rightarrow> hash option) \<Rightarrow> writers option \<Rightarrow> jsstr \<times> capRec \<Rightarrow> inst \<Rightarrow> inst" where
  "judge_one HK touched kc i =
     (case (touched, rAt (snd kc)) of
        (Some w, Some _) \<Rightarrow>
          if wsAll w then i
          else (case HK (fst kc) of
                  None \<Rightarrow> capEntryUnconfirmed (fst kc) i
                | Some h \<Rightarrow>
                    if h \<in> set (wsOther w) then i
                    else if h \<in> set (wsMine w) then capEntryUnconfirmed (fst kc) i
                    else capUnapplied (fst kc) i)
      | _ \<Rightarrow> capEntryUnconfirmed (fst kc) i)"

definition oldest_mark :: "(jsstr \<times> capRec) list \<Rightarrow> nat option" where
  "oldest_mark suspect =
     fold (\<lambda>kc from. case (rAt (snd kc), from) of
                       (None, _) \<Rightarrow> from
                     | (Some p, None) \<Rightarrow> Some p
                     | (Some p, Some f) \<Rightarrow> Some (if p < f then p else f)) suspect None"

definition judgeRetiredCaps :: "(jsstr \<Rightarrow> hash option) \<Rightarrow> nat \<Rightarrow> arena \<Rightarrow> (jsstr \<times> capRec) list \<Rightarrow> inst \<Rightarrow> inst" where
  "judgeRetiredCaps HK tick a retiring i =
     (let suspect = filter (\<lambda>(key, c). cap_suspect tick a key c) retiring
      in if suspect = [] then i
         else fold (judge_one HK (case oldest_mark suspect of None \<Rightarrow> None | Some f \<Rightarrow> ringWritersSince a i f))
                suspect i)"

section \<open>The retirement tick\<close>

definition runCaps :: "(jsstr \<Rightarrow> hash option) \<Rightarrow> env \<Rightarrow> arena \<Rightarrow> inst \<Rightarrow> inst" where
  "runCaps HK e a i =
     (if \<not> eReady e \<or> vDead (iLive i)
      then stopCapTimer (set_caps [] (fold capEntryUnconfirmed (jskeys (pMap (iCaps i))) i))
      else (let retiring = filter (\<lambda>(key, c). eMono e \<ge> rUntil c) (pMap (iCaps i));
                i1 = (if retiring \<noteq> []
                      then (let j = judgeRetiredCaps HK (eTick e) a retiring i
                            in set_caps (fold AList.delete (List.map fst retiring) (pMap (iCaps j))) j)
                      else i)
            in if pMap (iCaps i1) = [] then stopCapTimer i1 else i1))"

section \<open>The conditional re-timing\<close>

datatype capResult = Capped | Moot | Unable

text \<open>\<^verbatim>\<open>#capArena\<close> with its write, \<^verbatim>\<open>#retimeArena\<close>: compare and write in one step of the primary.\<close>

definition retimeArena :: "(jsstr \<Rightarrow> hash option) \<Rightarrow> bool \<Rightarrow> nat \<Rightarrow> jsstr \<Rightarrow> jsval \<Rightarrow> ms \<Rightarrow> arena \<Rightarrow> bool \<times> arena" where
  "retimeArena HK room tick key enc cap a =
     (case HK key of
        None \<Rightarrow> (False, a)
      | Some h \<Rightarrow> n_set h room tick key enc 0 (readTtlMs cap) a)"

definition capArena :: "(jsstr \<Rightarrow> hash option) \<Rightarrow> bool \<Rightarrow> nat \<Rightarrow> jsstr \<Rightarrow> jsval \<Rightarrow> ms \<Rightarrow> arena \<Rightarrow> capResult \<times> arena" where
  "capArena HK room tick key enc cap a =
     (case n_get tick a key of
        None \<Rightarrow> (Moot, a)
      | Some cur \<Rightarrow>
          if \<not> sameStored cur enc then (Moot, a)
          else (let rem = n_lastTtl tick a key
                in if rem > 0 \<and> of_nat rem \<le> cap then (Moot, a)
                   else (let (ok, a1) = retimeArena HK room tick key enc cap a
                         in if ok then (Capped, a1) else (Unable, a1))))"

end
