(* ===== verification/Cache.thy ===== *)
theory Cache
  imports Inst
begin

text \<open>
  Reading: the liveness check, the drain of the invalidation ring with its two reconciliations
  after a wrap, \<open>get\<close> and \<open>has\<close> (\<^verbatim>\<open>src/src/turbokv.js\<close>, lines 1600 to 1868, 2034 to 2200 and
  3258 to 3282). The parameter \<open>HK\<close> is the addon's \<^verbatim>\<open>hashKey\<close>, \<open>None\<close> where it refuses a key. A
  call that finds the primary dead degrades every cache of the process; that is the work of
  \<open>degrade\<close> in the theory of the lifecycle, and here the boolean answer says that it happened.

  What these definitions keep is proved in the theory of the coherence.
\<close>

section \<open>Liveness\<close>

definition checkPrimary :: "env \<Rightarrow> inst \<Rightarrow> inst \<times> bool" where
  "checkPrimary e i =
     (if gId (iCfg i) = 0 \<or> vDead (iLive i) then (i, False)
      else if eMono e - vLastCheck (iLive i) < 500 then (i, False)
      else (let i1 = i\<lparr>iLive := (iLive i)\<lparr>vLastCheck := eMono e\<rparr>\<rparr>
            in if eAge e = - 1 then (i1\<lparr>iLive := (iLive i1)\<lparr>vWarned := True\<rparr>\<rparr>, False)
               else if eAge e = - 2 \<or> eAge e > gStaleMs (iCfg i)
               then (if eMayDegrade e then setDead True i1 else i1, True)
               else (i1, False)))"

section \<open>Reconciling after a wrap\<close>

definition mark_slice :: "pendingMarks \<Rightarrow> jsstr list" where
  "mark_slice m = take PENDING_MARK_SCAN (jskeys (byKey m))"

definition reconcile_removal :: "nat \<Rightarrow> arena \<Rightarrow> nat \<Rightarrow> jsstr \<Rightarrow> inst \<Rightarrow> inst" where
  "reconcile_removal tick a hd' key i0 =
     (let i = i0\<lparr>iCoh := (iCoh i0)\<lparr>cOwedDel := cOwedDel (iCoh i0) - 1\<rparr>\<rparr>
      in if \<not> mk_has (cDel (iCoh i)) key then i
         else if n_has tick a key then i\<lparr>iCoh := (iCoh i)\<lparr>cDel := mk_touch key (cDel (iCoh i))\<rparr>\<rparr>
         else noteDeleted key hd' (i\<lparr>iCoh := (iCoh i)\<lparr>cDel := mk_release key (cDel (iCoh i))\<rparr>\<rparr>))"

definition reconcileRemovals :: "nat \<Rightarrow> arena \<Rightarrow> nat \<Rightarrow> inst \<Rightarrow> inst" where
  "reconcileRemovals tick a hd' i =
     (let i1 = fold (reconcile_removal tick a hd') (mark_slice (cDel (iCoh i))) i
      in if cOwedDel (iCoh i1) < 0 \<or> mk_size (cDel (iCoh i1)) = 0
         then i1\<lparr>iCoh := (iCoh i1)\<lparr>cOwedDel := 0\<rparr>\<rparr> else i1)"

definition reconcile_write :: "int \<Rightarrow> jsstr \<Rightarrow> pendingMarks \<Rightarrow> pendingMarks" where
  "reconcile_write tail' key m =
     (case mk_submittedAt m key of
        None \<Rightarrow> m
      | Some sub \<Rightarrow> if sub \<ge> 0 \<and> tail' \<ge> 0 \<and> tail' < sub then mk_touch key m else mk_release key m)"

definition reconcileWrites :: "arena \<Rightarrow> inst \<Rightarrow> inst" where
  "reconcileWrites a i =
     (let m = fold (reconcile_write (submitTailNow a i)) (mark_slice (cWrite (iCoh i))) (cWrite (iCoh i))
      in i\<lparr>iCoh := (iCoh i)\<lparr>cWrite := m, cOwedWrite := int (mk_size m)\<rparr>\<rparr>)"

section \<open>The drain\<close>

text \<open>One record of the batch, at its position on the ring, and the loop over the batch. The answer
  \<open>True\<close> says that a flush record ended the loop.\<close>

definition drain_record :: "hash \<Rightarrow> nat \<Rightarrow> inst \<Rightarrow> inst" where
  "drain_record h pos i =
     (let i1 = (case mk_matchAt (cDel (iCoh i)) h pos of
                  None \<Rightarrow> i
                | Some pk \<Rightarrow> noteDeleted pk (pos + 1)
                               (i\<lparr>iCoh := (iCoh i)\<lparr>cDel := mk_release pk (cDel (iCoh i))\<rparr>\<rparr>));
          i2 = (case mk_matchAt (cWrite (iCoh i1)) h pos of
                  None \<Rightarrow> i1
                | Some wk \<Rightarrow> i1\<lparr>iCoh := (iCoh i1)\<lparr>cWrite := mk_release wk (cWrite (iCoh i1))\<rparr>\<rparr>)
      in case map_of (l1ByHash (iL1 i2)) (Some h) of
           None \<Rightarrow> i2
         | Some k \<Rightarrow>
             (case map_of (l1Map (iL1 i2)) k of
                Some en \<Rightarrow> if eOwnAt en \<ge> 0 \<and> int pos < eOwnAt en then i2 else dropByHash h i2
              | None \<Rightarrow> dropByHash h i2))"

fun drain_records :: "nat \<Rightarrow> ringRec list \<Rightarrow> inst \<Rightarrow> inst \<times> bool" where
  "drain_records pos [] i = (i, False)"
| "drain_records pos (r # rs) i =
     (if rrHash r = FLUSH_ALL then (clearLocal i, True)
      else drain_records (pos + 1) rs (drain_record (rrHash r) pos i))"

definition set_cursor :: "nat \<Rightarrow> inst \<Rightarrow> inst" where
  "set_cursor c i = i\<lparr>iCoh := (iCoh i)\<lparr>cCursor := c\<rparr>\<rparr>"

definition drain_wrapped :: "nat \<Rightarrow> arena \<Rightarrow> nat \<Rightarrow> inst \<Rightarrow> inst" where
  "drain_wrapped tick a hd' i =
     (let i1 = dropCachedValues i;
          i2 = i1\<lparr>iCoh := (iCoh i1)\<lparr>cOwedWrite := int (mk_size (cWrite (iCoh i1)))\<rparr>\<rparr>;
          i3 = (if cOwedWrite (iCoh i2) \<noteq> 0 then reconcileWrites a i2 else i2);
          i4 = i3\<lparr>iCoh := (iCoh i3)\<lparr>cOwedDel := int (mk_size (cDel (iCoh i3)))\<rparr>\<rparr>;
          i5 = (if cOwedDel (iCoh i4) \<noteq> 0 then reconcileRemovals tick a hd' i4 else i4)
      in set_cursor hd' i5)"

definition drain_owed :: "nat \<Rightarrow> arena \<Rightarrow> inst \<Rightarrow> inst" where
  "drain_owed tick a i =
     (let i1 = (if cOwedDel (iCoh i) > 0 then reconcileRemovals tick a (ringHead a) i else i)
      in if cOwedWrite (iCoh i1) > 0 then reconcileWrites a i1 else i1)"

definition drain_ring :: "nat \<Rightarrow> arena \<Rightarrow> inst \<Rightarrow> inst" where
  "drain_ring tick a i0 =
     (let i = drain_owed tick a i0
      in if ringHead a = cCursor (iCoh i) then i
         else (let r = ringRead (cCursor (iCoh i)) 512 a
               in if rbWrapped r then drain_wrapped tick a (rbHead r) i
                  else set_cursor (rbHead r) (fst (drain_records (cCursor (iCoh i)) (rbRecs r) i))))"

definition drain :: "env \<Rightarrow> arena \<Rightarrow> inst \<Rightarrow> inst \<times> bool" where
  "drain e a i =
     (if gId (iCfg i) = 0 then (i, False)
      else if vDead (iLive i) \<or> \<not> eReady e then (i, False)
      else (let (i1, fired) = checkPrimary e i
            in if fired then (i1, True) else (drain_ring (eTick e) a i1, False)))"

section \<open>Get\<close>

text \<open>An entry of the process's own tier, handed out.\<close>

definition serve_l1 :: "inst \<Rightarrow> jsval \<Rightarrow> jsval answer" where
  "serve_l1 i v =
     (if isBuffer v then Inr v
      else if gL1Decoded (iCfg i) then Inr v else decode_with (iCfg i) v)"

text \<open>A value that came out of the arena with \<open>rem\<close> milliseconds left.\<close>

definition fill_from_l2 :: "(jsstr \<Rightarrow> hash option) \<Rightarrow> env \<Rightarrow> nat \<Rightarrow> jsstr \<Rightarrow> jsval \<Rightarrow> nat \<Rightarrow> inst \<Rightarrow> jsval answer \<times> inst" where
  "fill_from_l2 HK e minLevel key raw rem i =
     (let c = gL1 (iCfg i);
          expMs = (if rem \<noteq> 0 then eMono e + of_nat rem else 0);
          put = (\<lambda>v len. if minLevel = 1
                         then (case len of
                                 Inl x \<Rightarrow> Inl x
                               | Inr n \<Rightarrow> Inr (i\<lparr>iL1 := l1Put c key v (HK key) n expMs (- 1) (iL1 i)\<rparr>))
                         else Inr i)
      in if gCodec (iCfg i) \<noteq> None \<and> \<not> gL1Decoded (iCfg i)
         then (case put raw (length_read raw) of Inl x \<Rightarrow> (Inl x, i) | Inr i1 \<Rightarrow> (decode_with (iCfg i) raw, i1))
         else (case (if gCodec (iCfg i) \<noteq> None then decode_with (iCfg i) raw else Inr raw) of
                 Inl x \<Rightarrow> (Inl x, i)
               | Inr v \<Rightarrow>
                   (case put v (if cNoCodec c then Inr (Some 0) else length_read raw) of
                      Inl x \<Rightarrow> (Inl x, i)
                    | Inr i1 \<Rightarrow> (Inr v, i1))))"

definition get_l2 :: "(jsstr \<Rightarrow> hash option) \<Rightarrow> env \<Rightarrow> arena \<Rightarrow> nat \<Rightarrow> jsstr \<Rightarrow> inst \<Rightarrow> jsval answer \<times> inst" where
  "get_l2 HK e a minLevel key i =
     (if vDead (iLive i) then (Inr VUndef, bump ''misses'' i)
      else (case n_get (eTick e) a key of
              None \<Rightarrow> (Inr VUndef, bump ''misses'' i)
            | Some raw \<Rightarrow>
                if pMap (iCaps i) \<noteq> [] \<and> capExpired (eMono e) i key raw
                then (Inr VUndef, bump ''misses'' i)
                else fill_from_l2 HK e minLevel key raw (n_lastTtl (eTick e) a key) (bump ''l2Hits'' i)))"

definition get_drained :: "(jsstr \<Rightarrow> hash option) \<Rightarrow> env \<Rightarrow> arena \<Rightarrow> nat \<Rightarrow> jsstr \<Rightarrow> inst \<Rightarrow> jsval answer \<times> inst" where
  "get_drained HK e a minLevel key i =
     (if hasLoneSurrogate key then (Inr VUndef, i)
      else if unappliedHere i key then (Inr VUndef, i)
      else (case map_of (l1Map (iL1 i)) key of
              Some en \<Rightarrow>
                if eExp en \<noteq> 0 \<and> eExp en \<le> eMono e
                then get_l2 HK e a minLevel key (i\<lparr>iL1 := l1Drop key (iL1 i)\<rparr>)
                else (serve_l1 i (eV en), bump ''l1Hits'' (i\<lparr>iL1 := l1_hit key (iL1 i)\<rparr>))
            | None \<Rightarrow> get_l2 HK e a minLevel key i))"

definition get :: "(jsstr \<Rightarrow> hash option) \<Rightarrow> env \<Rightarrow> arena \<Rightarrow> jsval \<Rightarrow> numArg \<Rightarrow> inst \<Rightarrow> jsval answer \<times> inst \<times> bool" where
  "get HK e a k minLevel i =
     (case k of
        VStr key \<Rightarrow>
          (case level_of (eReady e) i minLevel of
             Inl x \<Rightarrow> (Inl x, i, False)
           | Inr level \<Rightarrow>
               (let (i1, fired) = drain e a i; (v, i2) = get_drained HK e a level key i1
                in (v, i2, fired)))
      | _ \<Rightarrow> (Inr VUndef, i, False))"

section \<open>Has\<close>

definition has_drained :: "(jsstr \<Rightarrow> hash option) \<Rightarrow> env \<Rightarrow> arena \<Rightarrow> jsstr \<Rightarrow> inst \<Rightarrow> bool answer \<times> inst" where
  "has_drained HK e a key i =
     (if vDead (iLive i) then (Inr (map_of (l1Map (iL1 i)) key \<noteq> None), i)
      else if hasLoneSurrogate key then (Inr False, i)
      else if unappliedHere i key then (Inr False, i)
      else (let (fresh, i1) =
                  (case map_of (l1Map (iL1 i)) key of
                     None \<Rightarrow> (False, i)
                   | Some en \<Rightarrow>
                       if eExp en = 0 \<or> eExp en > eMono e then (True, i)
                       else (False, i\<lparr>iL1 := l1Drop key (iL1 i)\<rparr>))
            in if fresh then (Inr True, i1)
               else if pMap (iCaps i1) \<noteq> [] \<and> map_of (pMap (iCaps i1)) key \<noteq> None
               then (let (v, i2, _) = get HK e a (VStr key) NumUndef i1
                     in ((case v of Inl x \<Rightarrow> Inl x | Inr w \<Rightarrow> Inr (w \<noteq> VUndef)), i2))
               else (Inr (n_has (eTick e) a key), i1)))"

definition has :: "(jsstr \<Rightarrow> hash option) \<Rightarrow> env \<Rightarrow> arena \<Rightarrow> jsval \<Rightarrow> inst \<Rightarrow> bool answer \<times> inst \<times> bool" where
  "has HK e a k i =
     (case k of
        VStr key \<Rightarrow>
          (let (i1, fired) = drain e a i; (v, i2) = has_drained HK e a key i1 in (v, i2, fired))
      | _ \<Rightarrow> (Inr False, i, False))"

end
