(* ===== verification/Process.thy ===== *)
theory Process
  imports Caps Cache
begin

text \<open>
  The state of one process (the module variables and the static fields of \<^verbatim>\<open>src/src/turbokv.js\<close>): its
  cache objects, the arena they share, the clears in flight, the clear generations owed by each
  attachment, what is known of the primary. Then the ways a value leaves a cache object: the
  publish family (lines 4158 to 4348), the outbox and its flush (3244 to 4101). A closed object stays
  in \<open>yInsts\<close>; the set \<^verbatim>\<open>instances\<close> is the objects that are not closed.
\<close>

record cacheMsg =
  gmId :: nat
  gmNonce :: "string option"
  gmOps :: "obOp list"

record recov =
  rvDegraded :: bool
  rvTimer :: bool
  rvLastHb :: int
  rvArenaId :: "nat option"
  rvName :: bool

record proc =
  yInsts :: "(nat, inst) jsmap"
  yArena :: arena
  yReady :: bool
  yPrimary :: bool
  ySubmit :: bool
  yMarkSeq :: nat
  yClears :: int
  yOwed :: "(string, nat) jsmap"
  yCursor :: nat
  ySent :: "cacheMsg list"
  yNonce :: string
  yRecov :: recov

section \<open>Cache objects of a process\<close>

definition open_insts :: "proc \<Rightarrow> nat list" where
  "open_insts p = List.map fst (filter (\<lambda>(_, i). \<not> vClosed (iLive i)) (yInsts p))"

definition upd_inst :: "nat \<Rightarrow> (inst \<Rightarrow> inst) \<Rightarrow> proc \<Rightarrow> proc" where
  "upd_inst n f p = p\<lparr>yInsts := List.map (\<lambda>(m, i). (m, if m = n then f i else i)) (yInsts p)\<rparr>"

definition all_open :: "(inst \<Rightarrow> inst) \<Rightarrow> proc \<Rightarrow> proc" where
  "all_open f p = p\<lparr>yInsts := List.map (\<lambda>(m, i). (m, if vClosed (iLive i) then i else f i)) (yInsts p)\<rparr>"

definition other_open :: "nat \<Rightarrow> (inst \<Rightarrow> inst) \<Rightarrow> proc \<Rightarrow> proc" where
  "other_open n f p =
     p\<lparr>yInsts := List.map (\<lambda>(m, i). (m, if vClosed (iLive i) \<or> m = n then i else f i)) (yInsts p)\<rparr>"

text \<open>The readings of a call, with the two facts of the process it depends on.\<close>

definition env_in :: "proc \<Rightarrow> env \<Rightarrow> env" where
  "env_in p e = e\<lparr>eReady := yReady p, eMayDegrade := (\<not> rvDegraded (yRecov p) \<and> \<not> yPrimary p)\<rparr>"

text \<open>What the calls of the addon see: nothing, where no arena is mapped.\<close>

definition no_store :: arena where
  "no_store = \<lparr>aMap = [], aRing = [], aRingCap = 0, aGen = 0, aSettled = 0, aSubs = []\<rparr>"

definition mapped :: "proc \<Rightarrow> arena" where
  "mapped p = (if yReady p then yArena p else no_store)"

definition cancelCaps :: "jsstr \<Rightarrow> proc \<Rightarrow> proc" where
  "cancelCaps key p = all_open (cancelCap key) p"

definition cancelAllCaps :: "proc \<Rightarrow> proc" where
  "cancelAllCaps p = all_open cancelOwnCaps p"

definition dropOthers :: "jsstr \<Rightarrow> nat \<Rightarrow> proc \<Rightarrow> proc" where
  "dropOthers key n p =
     (if length (open_insts p) < 2 then p else other_open n (\<lambda>i. i\<lparr>iL1 := l1Drop key (iL1 i)\<rparr>) p)"

definition clearOthers :: "nat \<Rightarrow> proc \<Rightarrow> proc" where
  "clearOthers n p = (if length (open_insts p) < 2 then p else other_open n clearLocal p)"

definition localDrop :: "jsstr \<Rightarrow> proc \<Rightarrow> proc" where
  "localDrop key p = all_open (\<lambda>i. i\<lparr>iL1 := l1Drop key (iL1 i)\<rparr>) p"

section \<open>Publishing\<close>

definition publishArenaSet ::
    "(jsstr \<Rightarrow> hash option) \<Rightarrow> env \<Rightarrow> jsstr \<Rightarrow> jsval \<Rightarrow> nat \<Rightarrow> ms \<Rightarrow> proc \<Rightarrow> bool \<times> proc" where
  "publishArenaSet HK e key enc writer ttl p =
     (case HK key of
        None \<Rightarrow> (False, p)
      | Some h \<Rightarrow>
          if \<not> yReady p then (False, p)
          else (let (ok, a) = n_set h (eFits e key) (eTick e) key enc writer (readTtlMs ttl) (yArena p)
           in if ok then (True, cancelCaps key (p\<lparr>yArena := a\<rparr>)) else (False, p)))"

definition publishArenaDel ::
    "(jsstr \<Rightarrow> hash option) \<Rightarrow> jsstr \<Rightarrow> nat \<Rightarrow> proc \<Rightarrow> bool \<times> proc" where
  "publishArenaDel HK key writer p =
     (case HK key of
        None \<Rightarrow> (False, cancelCaps key p)
      | Some h \<Rightarrow>
          if \<not> yReady p then (False, cancelCaps key p)
          else (let (had, a) = n_del h key writer (yArena p) in (had, cancelCaps key (p\<lparr>yArena := a\<rparr>))))"

definition publishArenaClear :: "nat \<Rightarrow> proc \<Rightarrow> proc" where
  "publishArenaClear writer p = cancelAllCaps (if yReady p then p\<lparr>yArena := n_clearAll writer (yArena p)\<rparr> else p)"

text \<open>The header of the clear generations: a no-op where there is no arena to guard.\<close>

definition clearBegin :: "proc \<Rightarrow> proc" where
  "clearBegin p = (if yReady p then p\<lparr>yArena := l3ClearBegin (yArena p)\<rparr> else p)"

definition clearSettle :: "proc \<Rightarrow> proc" where
  "clearSettle p = (if yReady p then p\<lparr>yArena := l3ClearSettle (yArena p)\<rparr> else p)"

lemma mapped_ready [simp]: "yReady p \<Longrightarrow> mapped p = yArena p"
  by (simp add: mapped_def)

lemma clear_frame [simp]:
  "yInsts (clearBegin p) = yInsts p" "yOwed (clearBegin p) = yOwed p" "yReady (clearBegin p) = yReady p"
  "ySubmit (clearBegin p) = ySubmit p" "ySent (clearBegin p) = ySent p"
  "yInsts (clearSettle p) = yInsts p" "yOwed (clearSettle p) = yOwed p" "yReady (clearSettle p) = yReady p"
  "ySubmit (clearSettle p) = ySubmit p" "ySent (clearSettle p) = ySent p"
  "yReady p \<Longrightarrow> yArena (clearBegin p) = l3ClearBegin (yArena p)"
  "yReady p \<Longrightarrow> yArena (clearSettle p) = l3ClearSettle (yArena p)"
  by (simp_all add: clearBegin_def clearSettle_def)

text \<open>\<open>by\<close> is the id of the cache object that asks.\<close>

definition publishL3Derived ::
    "(jsstr \<Rightarrow> hash option) \<Rightarrow> env \<Rightarrow> jsstr \<Rightarrow> jsval \<Rightarrow> ms \<Rightarrow> nat \<Rightarrow> nat \<Rightarrow> proc \<Rightarrow> bool \<times> proc" where
  "publishL3Derived HK e key enc ttl n byId p =
     (if byId \<noteq> 0 \<or> \<not> yPrimary p then (False, p)
      else (let (ok, p1) = publishArenaSet HK e key enc 0 ttl p
            in if ok then (True, dropOthers key n p1) else (False, p1)))"

definition ringDoorbell :: "inst \<Rightarrow> inst" where
  "ringDoorbell i = (if kDoorbell (iLink i) then i else i\<lparr>iLink := (iLink i)\<lparr>kDoorbell := True\<rparr>\<rparr>)"

definition submit :: "env \<Rightarrow> nat option \<Rightarrow> subOp \<Rightarrow> arena \<Rightarrow> bool \<times> arena" where
  "submit e ring op a = (case ring of None \<Rightarrow> (False, a) | Some slot \<Rightarrow> submitPush slot op (eNeed e) (ePad e) a)"

definition publishRing ::
    "(jsstr \<Rightarrow> hash option) \<Rightarrow> env \<Rightarrow> nat \<Rightarrow> nat option \<Rightarrow> jsstr \<Rightarrow> subOp \<Rightarrow> proc \<Rightarrow> bool \<times> proc" where
  "publishRing HK e n ring key op p =
     (if HK key = None then (False, p)
      else (let (ok, a) = submit e ring op (yArena p)
            in if ok then (True, upd_inst n ringDoorbell (cancelCaps key (p\<lparr>yArena := a\<rparr>))) else (False, p)))"

definition publishRingSet ::
    "(jsstr \<Rightarrow> hash option) \<Rightarrow> env \<Rightarrow> nat \<Rightarrow> nat option \<Rightarrow> jsstr \<Rightarrow> jsval \<Rightarrow> ms \<Rightarrow> proc \<Rightarrow> bool \<times> proc" where
  "publishRingSet HK e n ring key enc ttl p =
     (if encodable enc then publishRing HK e n ring key (SubSet key enc (readTtlMs ttl)) p else (False, p))"

definition publishRingDel ::
    "(jsstr \<Rightarrow> hash option) \<Rightarrow> env \<Rightarrow> nat \<Rightarrow> nat option \<Rightarrow> jsstr \<Rightarrow> proc \<Rightarrow> bool \<times> proc" where
  "publishRingDel HK e n ring key p = publishRing HK e n ring key (SubDel key) p"

section \<open>The outbox\<close>

text \<open>\<^verbatim>\<open>#releaseBatchMarks\<close>: each mark from the set the operation names, and no newer one.\<close>

fun release_op :: "nat \<Rightarrow> obOp \<Rightarrow> inst \<Rightarrow> inst" where
  "release_op seq (ODel key) i = i\<lparr>iCoh := (iCoh i)\<lparr>cDel := mk_releaseUpTo key seq (cDel (iCoh i))\<rparr>\<rparr>"
| "release_op seq (OSet key enc ttl) i = i\<lparr>iCoh := (iCoh i)\<lparr>cWrite := mk_releaseUpTo key seq (cWrite (iCoh i))\<rparr>\<rparr>"
| "release_op seq _ i = i"

definition releaseBatchMarks :: "obOp list \<Rightarrow> nat \<Rightarrow> inst \<Rightarrow> inst" where
  "releaseBatchMarks ops seq i = fold (release_op seq) ops i"

definition dropOutboxCaps :: "inst \<Rightarrow> inst" where
  "dropOutboxCaps i =
     (let i1 = fold capUnapplied (kCapKeys (iLink i)) i in i1\<lparr>iLink := (iLink i1)\<lparr>kCapKeys := []\<rparr>\<rparr>)"

fun keyless :: "obOp \<Rightarrow> bool" where
  "keyless OClear = True"
| "keyless OOpen = True"
| "keyless OSettle = True"
| "keyless _ = False"

fun is_retime :: "obOp \<Rightarrow> bool" where
  "is_retime (ORetime _ _ _) = True"
| "is_retime _ = False"

definition shed_outbox :: "nat \<Rightarrow> inst \<Rightarrow> inst" where
  "shed_outbox seq i =
     (let ops = kOut (iLink i);
          i1 = releaseBatchMarks ops seq i;
          i2 = add_stat ''writesShed'' (length (filter (\<lambda>op. \<not> keyless op \<and> \<not> is_retime op) ops)) i1;
          i3 = dropOutboxCaps i2
      in i3\<lparr>iLink := (iLink i3)\<lparr>kOut := filter keyless ops, kOutBytes := 0\<rparr>\<rparr>)"

text \<open>What every route that loses a batch does with it.\<close>

definition batch_lost :: "obOp list \<Rightarrow> jsstr list \<Rightarrow> nat \<Rightarrow> inst \<Rightarrow> inst" where
  "batch_lost batch capKeys seq i =
     fold capUnapplied capKeys (releaseBatchMarks batch seq (bump ''flushDropped'' i))"

definition send_batch :: "env \<Rightarrow> nat \<Rightarrow> inst \<Rightarrow> inst \<times> obOp list option" where
  "send_batch e seq i =
     (let l = iLink i; batch = kOut l; bytes = kOutBytes l; capKeys = kCapKeys l;
          i1 = i\<lparr>iLink := l\<lparr>kOut := [], kOutBytes := 0, kCapKeys := []\<rparr>\<rparr>;
          i2 = add_stat ''sent'' (length batch) (bump ''flushes'' i1)
      in case eSend e of
           SendGone \<Rightarrow> (batch_lost batch capKeys seq i2, None)
         | SendThrows \<Rightarrow>
             (batch_lost batch capKeys seq
                (i2\<lparr>iLink := (iLink i2)\<lparr>kFlight := max 0 (kFlight (iLink i2) + bytes - bytes)\<rparr>\<rparr>), None)
         | SendOk accepted \<Rightarrow>
             (let i3 = i2\<lparr>iLink := (iLink i2)\<lparr>kFlight := kFlight (iLink i2) + bytes,
                                             kWire := kWire (iLink i2) @ [(batch, bytes, capKeys, seq)]\<rparr>\<rparr>
              in (if accepted then i3 else bump ''congested'' i3, Some batch)))"

definition flush :: "env \<Rightarrow> nat \<Rightarrow> inst \<Rightarrow> inst \<times> obOp list option" where
  "flush e seq i0 =
     (let i = i0\<lparr>iLink := (iLink i0)\<lparr>kScheduled := False\<rparr>\<rparr>
      in if kOut (iLink i) = [] then (i, None)
         else if kFlight (iLink i) \<ge> gFlightMax (iCfg i) then
           (if kOutBytes (iLink i) < gOutMax (iCfg i) then (i, None) else (shed_outbox seq i, None))
         else send_batch e seq i)"

text \<open>The callback of a message that was handed over, oldest first; \<open>failed\<close> is its error.\<close>

definition send_done :: "bool \<Rightarrow> inst \<Rightarrow> inst" where
  "send_done failed i =
     (case kWire (iLink i) of
        [] \<Rightarrow> i
      | (batch, bytes, capKeys, seq) # rest \<Rightarrow>
          (let i1 = i\<lparr>iLink := (iLink i)\<lparr>kFlight := max 0 (kFlight (iLink i) - bytes), kWire := rest\<rparr>\<rparr>
           in if failed then batch_lost batch capKeys seq i1 else i1))"

text \<open>The flush of one cache object of the process, its message on the channel.\<close>

definition flush_at :: "env \<Rightarrow> nat \<Rightarrow> proc \<Rightarrow> proc" where
  "flush_at e n p =
     (case map_of (yInsts p) n of
        None \<Rightarrow> p
      | Some i \<Rightarrow>
          (let (i', sent) = flush e (yMarkSeq p) i; p1 = upd_inst n (\<lambda>_. i') p
           in case sent of
                None \<Rightarrow> p1
              | Some ops \<Rightarrow> p1\<lparr>ySent := ySent p1 @ [\<lparr>gmId = gId (iCfg i), gmNonce = Some (yNonce p), gmOps = ops\<rparr>]\<rparr>))"

definition schedule :: "env \<Rightarrow> nat \<Rightarrow> int \<Rightarrow> proc \<Rightarrow> proc" where
  "schedule e n bytes p =
     (let p1 = upd_inst n (\<lambda>i. i\<lparr>iLink := (iLink i)\<lparr>kOutBytes := kOutBytes (iLink i) + bytes\<rparr>\<rparr>) p
      in case map_of (yInsts p1) n of
           None \<Rightarrow> p1
         | Some i \<Rightarrow>
             if kOutBytes (iLink i) \<ge> gOutMax (iCfg i) then flush_at e n p1
             else upd_inst n (\<lambda>i. i\<lparr>iLink := (iLink i)\<lparr>kScheduled := True\<rparr>\<rparr>) p1)"

definition push_op :: "obOp \<Rightarrow> inst \<Rightarrow> inst" where
  "push_op op i = i\<lparr>iLink := (iLink i)\<lparr>kOut := kOut (iLink i) @ [op]\<rparr>\<rparr>"

definition publishOutbox :: "env \<Rightarrow> nat \<Rightarrow> jsstr \<Rightarrow> obOp \<Rightarrow> int \<Rightarrow> proc \<Rightarrow> proc" where
  "publishOutbox e n key op bytes p = schedule e n bytes (cancelCaps key (upd_inst n (push_op op) p))"

definition publishOutboxOp :: "env \<Rightarrow> nat \<Rightarrow> obOp \<Rightarrow> bool \<Rightarrow> proc \<Rightarrow> proc" where
  "publishOutboxOp e n op supersedes p =
     (let p1 = upd_inst n (push_op op) p
      in schedule e n 48 (if supersedes then cancelAllCaps p1 else p1))"

definition retimeOutbox :: "env \<Rightarrow> nat \<Rightarrow> jsstr \<Rightarrow> jsval \<Rightarrow> ms \<Rightarrow> proc \<Rightarrow> proc" where
  "retimeOutbox e n key enc cap p =
     schedule e n (int (encodedBytes enc + length key + 48))
       (upd_inst n (\<lambda>i. (push_op (ORetime key enc cap) i)
                          \<lparr>iLink := (iLink (push_op (ORetime key enc cap) i))
                             \<lparr>kCapKeys := kCapKeys (iLink i) @ [key]\<rparr>\<rparr>) p)"

end
