(* ===== verification/L1Index.thy ===== *)
theory L1Index
  imports L1
begin

text \<open>
  The hash index of the per-process tier is complete: while no two keys have the same hash, every
  resident key is found by its hash, through every operation of the tier. The drain of the cache
  relies on it, because a record on the ring carries a hash and not a key. \<open>l1_shrunk\<close> relates a
  state to an earlier one from which entries were only dropped or re-timed.
\<close>

definition inj_hash :: "(jsstr \<Rightarrow> hash option) \<Rightarrow> bool" where
  "inj_hash H \<longleftrightarrow> (\<forall>k k' h. H k = Some h \<longrightarrow> H k' = Some h \<longrightarrow> k = k')"

definition l1_indexed :: "(jsstr \<Rightarrow> hash option) \<Rightarrow> l1State \<Rightarrow> bool" where
  "l1_indexed H s \<longleftrightarrow>
     (\<forall>k e h. map_of (l1Map s) k = Some e \<longrightarrow> H k = Some h \<longrightarrow> map_of (l1ByHash s) (Some h) = Some k)"

definition l1_shrunk :: "(jsstr \<Rightarrow> hash option) \<Rightarrow> l1State \<Rightarrow> l1State \<Rightarrow> bool" where
  "l1_shrunk H s' s \<longleftrightarrow>
     (\<forall>k e'. map_of (l1Map s') k = Some e' \<longrightarrow>
        (\<exists>e. map_of (l1Map s) k = Some e \<and> eHash e' = eHash e) \<and>
        (H k \<noteq> None \<longrightarrow> map_of (l1ByHash s') (H k) = map_of (l1ByHash s) (H k)))"

lemma inj_hashD: "inj_hash H \<Longrightarrow> H k = Some h \<Longrightarrow> H k' = Some h \<Longrightarrow> k = k'"
  by (auto simp: inj_hash_def)

lemma l1_shrunk_refl [simp]: "l1_shrunk H s s"
  by (auto simp: l1_shrunk_def)

lemma l1_shrunk_trans: "l1_shrunk H a b \<Longrightarrow> l1_shrunk H b c \<Longrightarrow> l1_shrunk H a c"
  unfolding l1_shrunk_def by (metis (no_types, lifting))

lemma l1_shrunk_indexed: "l1_shrunk H s' s \<Longrightarrow> l1_indexed H s \<Longrightarrow> l1_indexed H s'"
  unfolding l1_shrunk_def l1_indexed_def by (metis option.distinct(1))

lemma l1_indexedD: "l1_indexed H s \<Longrightarrow> map_of (l1Map s) k = Some e \<Longrightarrow> H k = Some h \<Longrightarrow>
  map_of (l1ByHash s) (Some h) = Some k"
  by (auto simp: l1_indexed_def)

text \<open>Dropping a resident entry, and everything that is a sequence of such drops.\<close>

lemma unhash_shrunk:
  assumes inj: "inj_hash H" and e: "eHash e = H k"
    and m: "\<And>x. map_of (l1Map s') x = (if x = k then None else map_of (l1Map s) x)"
    and h: "l1ByHash s' = l1ByHash s"
  shows "l1_shrunk H (unhash e s') s"
proof -
  have "H x \<noteq> H k" if "x \<noteq> k" "H x \<noteq> None" for x
    using that inj_hashD [OF inj, of x _ k] by (cases "H x") auto
  then show ?thesis
    using e m h by (auto simp: l1_shrunk_def unhash_def split: if_splits)
qed

lemma l1_hash_of: "l1_inv H s \<Longrightarrow> map_of (l1Map s) k = Some e \<Longrightarrow> eHash e = H k"
  by (auto simp: l1_inv_def l1_hashed_def)

lemma l1Drop_shrunk:
  assumes "inj_hash H" "l1_inv H s"
  shows "l1_shrunk H (l1Drop k s) s"
proof (cases "map_of (l1Map s) k")
  case (Some e)
  let ?s = "l1_delete k (s\<lparr>l1Bytes := nsub (l1Bytes s) (eBytes e)\<rparr>)"
  have "l1_shrunk H (unhash e ?s) s"
    by (rule unhash_shrunk [OF assms(1) l1_hash_of [OF assms(2) Some]]) simp_all
  then show ?thesis using Some by (simp add: l1Drop_def)
qed (simp add: l1Drop_def)

lemma evict_round_shrunk:
  assumes "inj_hash H" "l1_inv H s" "evict_round r s = Inr (r', s')"
  shows "l1_shrunk H s' s"
proof (cases "l1Map s")
  case Nil
  then show ?thesis using assms evict_round_empty [of s r] by (simp add: l1_inv_def)
next
  case (Cons p m)
  obtain k e where p: "p = (k, e)" by force
  have w: "l1Iter s \<in> {None, Some 0}" "wf_map (l1Map s)" using assms(2) by (auto simp: l1_inv_def)
  have k: "k \<notin> fst ` set m" using w Cons p by simp
  have m: "map_of m x = (if x = k then None else map_of (l1Map s) x)" for x
    using Cons p k by (auto simp: map_of_eq_None_iff)
  have eH: "eHash e = H k" using l1_hash_of [OF assms(2), of k e] Cons p by simp
  note rf = evict_round_front [OF w(1) Cons [unfolded p] w(2), of r]
  show ?thesis
  proof (cases "eHits e > 1 \<and> r > 0")
    case True
    then have "s' = s\<lparr>l1Map := m @ [(k, e\<lparr>eHits := 1\<rparr>)], l1Iter := Some 0\<rparr>" using rf assms(3) by simp
    moreover have "map_of (m @ [(k, e\<lparr>eHits := 1\<rparr>)]) x = (if x = k then Some (e\<lparr>eHits := 1\<rparr>) else map_of (l1Map s) x)" for x
      using m by (simp add: update_absent [OF k, symmetric])
    ultimately show ?thesis using Cons p by (auto simp: l1_shrunk_def simp del: map_of_append split: if_splits)
  next
    case False
    then have "s' = unhash e (s\<lparr>l1Map := m, l1Iter := Some 0, l1Bytes := nsub (l1Bytes s) (eBytes e)\<rparr>)"
      using rf assms(3) by auto
    then show ?thesis
      using unhash_shrunk [OF assms(1) eH, of "s\<lparr>l1Map := m, l1Iter := Some 0, l1Bytes := nsub (l1Bytes s) (eBytes e)\<rparr>" s] m
      by simp
  qed
qed

lemma evict_loop_shrunk: "inj_hash H \<Longrightarrow> l1_inv H s \<Longrightarrow> l1_shrunk H (evict_loop l1Max r s) s"
proof (induction l1Max r s rule: evict_loop.induct)
  case (1 l1Max r s)
  have "l1_shrunk H s' s" if "evict_round r s = Inl s'" for s'
    using that 1(3) evict_round_front [of s "fst (hd (l1Map s))" "snd (hd (l1Map s))" "tl (l1Map s)" r]
      evict_round_empty [of s r]
    by (cases "l1Map s") (auto simp: l1_inv_def l1_shrunk_def split: if_splits)
  moreover have "l1_shrunk H (evict_loop l1Max r' s') s"
    if "ngt (l1Bytes s) l1Max" "evict_round r s = Inr (r', s')" for r' s'
    using that 1 evict_round_inv [OF 1(3) that(2)] evict_round_shrunk [OF 1(2,3) that(2)] l1_shrunk_trans
    by blast
  ultimately show ?case by (subst evict_loop.simps) (auto split: sum.splits)
qed

lemma l1_insert_indexed:
  assumes "inj_hash H" "l1_indexed H s" "eHash e = H key"
  shows "l1_indexed H (l1_insert key e s)"
  unfolding l1_indexed_def
proof (intro allI impI)
  fix k e' h
  assume k: "map_of (l1Map (l1_insert key e s)) k = Some e'" and h: "H k = Some h"
  show "map_of (l1ByHash (l1_insert key e s)) (Some h) = Some k"
  proof (cases "H key = Some h")
    case True
    then show ?thesis using inj_hashD [OF assms(1) h True] assms(3) by (simp add: l1_insert_def)
  next
    case False
    then have "k \<noteq> key" using h by auto
    then have "map_of (l1ByHash s) (Some h) = Some k"
      using k h by (intro l1_indexedD [OF assms(2)]) (simp_all add: l1_insert_def)
    then show ?thesis using False assms(3) by (auto simp: l1_insert_def)
  qed
qed

lemma l1Put_indexed:
  assumes "inj_hash H" "l1_inv H s" "l1_indexed H s"
  shows "l1_indexed H (l1Put c key v (H key) n expiresAt ownAt s)"
  unfolding l1Put_loop
  by (rule l1_shrunk_indexed [OF evict_loop_shrunk [OF assms(1) l1_insert_inv [OF assms(2)]]
        l1_insert_indexed [OF assms(1,3)]]) simp_all

lemma l1Drop_indexed: "inj_hash H \<Longrightarrow> l1_inv H s \<Longrightarrow> l1_indexed H s \<Longrightarrow> l1_indexed H (l1Drop k s)"
  by (rule l1_shrunk_indexed [OF l1Drop_shrunk])

lemma l1_clear_indexed [simp]: "l1_indexed H (l1_clear s)"
  by (simp add: l1_indexed_def l1_clear_def)

lemma l1_hit_lookup:
  "map_of (l1Map (l1_hit key s)) x =
     (if x = key then map_option (\<lambda>e. e\<lparr>eHits := eHits e + 1\<rparr>) (map_of (l1Map s) key) else map_of (l1Map s) x)"
  by (auto simp: l1_hit_def l1_set_def split: option.split)

lemma l1_hit_byHash [simp]: "l1ByHash (l1_hit key s) = l1ByHash s"
  by (simp add: l1_hit_def l1_set_def split: option.split)

lemma l1_hit_indexed: "l1_indexed H s \<Longrightarrow> l1_indexed H (l1_hit key s)"
  by (auto simp: l1_indexed_def l1_hit_lookup split: if_splits)

lemma shed_loop_shrunk:
  "inj_hash H \<Longrightarrow> l1_inv H s \<Longrightarrow> l1Map s = m \<Longrightarrow> l1_shrunk H (shed_loop t m s) s"
proof (induction t m s rule: shed_loop.induct)
  case (2 t k e rest s)
  show ?case
  proof (cases "nle (l1Bytes s) t")
    case False
    let ?s = "l1_take k e s"
    have m: "map_of (l1Map s) k = Some e" using 2(4) by simp
    have d: "?s = l1Drop k s" using m by (simp add: l1Drop_take)
    have "l1_inv H ?s" using l1_take_inv [OF 2(3) m] .
    moreover have "l1Map ?s = rest" using l1_take_first [OF 2(3,4)] .
    ultimately have "l1_shrunk H (shed_loop t rest ?s) ?s" using 2(1,2) False by (simp add: l1_take_def)
    then show ?thesis
      using False l1_shrunk_trans [OF _ l1Drop_shrunk [OF 2(2,3), of k], of "shed_loop t rest ?s"] d
      by (simp add: l1_take_def)
  qed simp
qed simp

lemma onGc_indexed: "inj_hash H \<Longrightarrow> l1_inv H s \<Longrightarrow> l1_indexed H s \<Longrightarrow> l1_indexed H (fst (onGc c used limit s))"
  using shed_loop_shrunk [of H s "l1Map s"] l1_shrunk_indexed
  by (auto simp: onGc_def Let_def)

end
