(* ===== verification/Coherence.thy ===== *)
theory Coherence
  imports Cache L1Index
begin

text \<open>
  What the drain and the reads keep: the well-formedness of a cache object, the marks (each lives
  until its own landing, a flush or a wrap is seen), and the coherence of the process's own tier
  with the arena: an entry that did not come from this process's own write is what the arena holds
  for the key, unless a record that concerns the key is still to be read.
\<close>

section \<open>The reconciliations\<close>

lemma reconcile_write_sweep:
  "reconcile_write t = pm.sweep_step (\<lambda>k r. mSub r \<ge> 0 \<and> t \<ge> 0 \<and> t < mSub r)"
  by (auto simp: reconcile_write_def pm.sweep_step_def mk_submittedAt_def fun_eq_iff split: option.split)

lemma reconcileWrites_frame [simp, frame_simps]:
  "iCfg (reconcileWrites a i) = iCfg i" "iL1 (reconcileWrites a i) = iL1 i" "iLive (reconcileWrites a i) = iLive i"
  "iLink (reconcileWrites a i) = iLink i" "iCaps (reconcileWrites a i) = iCaps i"
  "iQueue (reconcileWrites a i) = iQueue i" "cDel (iCoh (reconcileWrites a i)) = cDel (iCoh i)"
  "cDeletedAt (iCoh (reconcileWrites a i)) = cDeletedAt (iCoh i)"
  "cCursor (iCoh (reconcileWrites a i)) = cCursor (iCoh i)"
  "cOwedDel (iCoh (reconcileWrites a i)) = cOwedDel (iCoh i)"
  by (simp_all add: reconcileWrites_def Let_def)

lemma reconcileWrites_lookup:
  "map_of (byKey (cWrite (iCoh (reconcileWrites a i)))) x =
     (case map_of (byKey (cWrite (iCoh i))) x of
        None \<Rightarrow> None
      | Some r \<Rightarrow>
          if x \<in> set (mark_slice (cWrite (iCoh i))) \<and>
             \<not> (mSub r \<ge> 0 \<and> submitTailNow a i \<ge> 0 \<and> submitTailNow a i < mSub r)
          then None else Some r)"
  by (simp add: reconcileWrites_def Let_def reconcile_write_sweep pm.sweep_lookup)

lemma reconcileWrites_wf [simp]:
  "marks_wf H (cWrite (iCoh i)) \<Longrightarrow> marks_wf H (cWrite (iCoh (reconcileWrites a i)))"
  by (simp add: reconcileWrites_def Let_def reconcile_write_sweep pm.sweep_ok)

text \<open>The removals: the same sweep on the marks, and the record of where a removal landed.\<close>

lemma reconcile_removal_frame:
  "iCfg (reconcile_removal n a h k i) = iCfg i" "iL1 (reconcile_removal n a h k i) = iL1 i"
  "iLive (reconcile_removal n a h k i) = iLive i" "iLink (reconcile_removal n a h k i) = iLink i"
  "iCaps (reconcile_removal n a h k i) = iCaps i" "iQueue (reconcile_removal n a h k i) = iQueue i"
  "cWrite (iCoh (reconcile_removal n a h k i)) = cWrite (iCoh i)"
  "cOwedWrite (iCoh (reconcile_removal n a h k i)) = cOwedWrite (iCoh i)"
  "cCursor (iCoh (reconcile_removal n a h k i)) = cCursor (iCoh i)"
  "cDel (iCoh (reconcile_removal n a h k i)) = pm.sweep_step (\<lambda>k r. n_has n a k) k (cDel (iCoh i))"
  by (auto simp: reconcile_removal_def Let_def pm.sweep_step_def mk_has_def split: option.splits)

lemma reconcile_removal_fold:
  "iCfg (fold (reconcile_removal n a h) ks i) = iCfg i \<and> iL1 (fold (reconcile_removal n a h) ks i) = iL1 i \<and>
   iLive (fold (reconcile_removal n a h) ks i) = iLive i \<and> iLink (fold (reconcile_removal n a h) ks i) = iLink i \<and>
   iCaps (fold (reconcile_removal n a h) ks i) = iCaps i \<and> iQueue (fold (reconcile_removal n a h) ks i) = iQueue i \<and>
   cWrite (iCoh (fold (reconcile_removal n a h) ks i)) = cWrite (iCoh i) \<and>
   cOwedWrite (iCoh (fold (reconcile_removal n a h) ks i)) = cOwedWrite (iCoh i) \<and>
   cCursor (iCoh (fold (reconcile_removal n a h) ks i)) = cCursor (iCoh i) \<and>
   cDel (iCoh (fold (reconcile_removal n a h) ks i)) = fold (pm.sweep_step (\<lambda>k r. n_has n a k)) ks (cDel (iCoh i))"
  by (induction ks arbitrary: i) (simp_all add: reconcile_removal_frame)

lemma reconcileRemovals_frame [simp, frame_simps]:
  "iCfg (reconcileRemovals n a h i) = iCfg i" "iL1 (reconcileRemovals n a h i) = iL1 i"
  "iLive (reconcileRemovals n a h i) = iLive i" "iLink (reconcileRemovals n a h i) = iLink i"
  "iCaps (reconcileRemovals n a h i) = iCaps i" "iQueue (reconcileRemovals n a h i) = iQueue i"
  "cWrite (iCoh (reconcileRemovals n a h i)) = cWrite (iCoh i)"
  "cOwedWrite (iCoh (reconcileRemovals n a h i)) = cOwedWrite (iCoh i)"
  "cCursor (iCoh (reconcileRemovals n a h i)) = cCursor (iCoh i)"
  using reconcile_removal_fold [of n a h "mark_slice (cDel (iCoh i))" i]
  by (simp_all add: reconcileRemovals_def Let_def)

lemma reconcileRemovals_lookup:
  "map_of (byKey (cDel (iCoh (reconcileRemovals n a h i)))) x =
     (case map_of (byKey (cDel (iCoh i))) x of
        None \<Rightarrow> None
      | Some r \<Rightarrow> if x \<in> set (mark_slice (cDel (iCoh i))) \<and> \<not> n_has n a x then None else Some r)"
  using reconcile_removal_fold [of n a h "mark_slice (cDel (iCoh i))" i]
  by (simp add: reconcileRemovals_def Let_def pm.sweep_lookup)

lemma reconcileRemovals_wf [simp]:
  "marks_wf H (cDel (iCoh i)) \<Longrightarrow> marks_wf H (cDel (iCoh (reconcileRemovals n a h i)))"
  using reconcile_removal_fold [of n a h "mark_slice (cDel (iCoh i))" i]
  by (simp add: reconcileRemovals_def Let_def pm.sweep_ok)

lemma reconcile_removal_deleted:
  "wf_map (cDeletedAt (iCoh i)) \<and> length (cDeletedAt (iCoh i)) \<le> PENDING_MARK_MAX \<Longrightarrow>
   wf_map (cDeletedAt (iCoh (fold (reconcile_removal n a h) ks i))) \<and>
   length (cDeletedAt (iCoh (fold (reconcile_removal n a h) ks i))) \<le> PENDING_MARK_MAX"
proof (induction ks arbitrary: i)
  case (Cons k ks)
  have "wf_map (cDeletedAt (iCoh (reconcile_removal n a h k i))) \<and>
        length (cDeletedAt (iCoh (reconcile_removal n a h k i))) \<le> PENDING_MARK_MAX"
    using Cons.prems
    by (auto simp: reconcile_removal_def Let_def noteDeleted_push bounded_push_length PENDING_MARK_MAX_def)
  then show ?case using Cons.IH by simp
qed simp

lemma reconcileRemovals_deleted:
  "wf_map (cDeletedAt (iCoh i)) \<and> length (cDeletedAt (iCoh i)) \<le> PENDING_MARK_MAX \<Longrightarrow>
   wf_map (cDeletedAt (iCoh (reconcileRemovals n a h i))) \<and>
   length (cDeletedAt (iCoh (reconcileRemovals n a h i))) \<le> PENDING_MARK_MAX"
  using reconcile_removal_deleted [of i n a h "mark_slice (cDel (iCoh i))"]
  by (simp add: reconcileRemovals_def Let_def)

section \<open>Well-formed cache objects\<close>

definition coh_ok :: "(jsstr \<Rightarrow> hash option) \<Rightarrow> coh \<Rightarrow> bool" where
  "coh_ok HK c \<longleftrightarrow>
     marks_wf (hash_of HK) (cDel c) \<and> marks_wf (hash_of HK) (cWrite c) \<and>
     wf_map (cDeletedAt c) \<and> length (cDeletedAt c) \<le> PENDING_MARK_MAX"

definition inst_ok :: "(jsstr \<Rightarrow> hash option) \<Rightarrow> inst \<Rightarrow> bool" where
  "inst_ok HK i \<longleftrightarrow> l1_inv HK (iL1 i) \<and> coh_ok HK (iCoh i)"

lemma inst_okD: "inst_ok HK i \<Longrightarrow> l1_inv HK (iL1 i)" "inst_ok HK i \<Longrightarrow> coh_ok HK (iCoh i)"
  by (simp_all add: inst_ok_def)

lemma noteDeleted_ok:
  "coh_ok HK (iCoh i) \<Longrightarrow> coh_ok HK (iCoh (noteDeleted k pos i))"
  by (simp add: coh_ok_def noteDeleted_push bounded_push_length PENDING_MARK_MAX_def)

lemma reconcileWrites_ok [wf_intros]: "inst_ok HK i \<Longrightarrow> inst_ok HK (reconcileWrites a i)"
  by (simp add: inst_ok_def coh_ok_def)

lemma reconcileRemovals_ok [wf_intros]: "inst_ok HK i \<Longrightarrow> inst_ok HK (reconcileRemovals n a h i)"
  using reconcileRemovals_deleted [of i n a h] by (simp add: inst_ok_def coh_ok_def)

lemma clearLocal_ok [wf_intros]: "inst_ok HK i \<Longrightarrow> inst_ok HK (clearLocal i)"
  by (simp add: inst_ok_def coh_ok_def l1_clear_inv)

section \<open>One record\<close>

lemma dropByHash_frame [simp, frame_simps]:
  "iCfg (dropByHash h i) = iCfg i" "iCoh (dropByHash h i) = iCoh i" "iLive (dropByHash h i) = iLive i"
  "iLink (dropByHash h i) = iLink i" "iCaps (dropByHash h i) = iCaps i" "iQueue (dropByHash h i) = iQueue i"
  "iLastQ (dropByHash h i) = iLastQ i"
  by (simp_all add: dropByHash_def split: option.split)

lemma dropByHash_l1:
  "map_of (l1Map (iL1 (dropByHash h i))) x =
     (if map_of (l1ByHash (iL1 i)) (Some h) = Some x then None else map_of (l1Map (iL1 i)) x)"
  by (auto simp: dropByHash_def split: option.split)

lemma unindexed_inv: "l1_inv H s \<Longrightarrow> l1_inv H (s\<lparr>l1ByHash := AList.delete h (l1ByHash s)\<rparr>)"
  by (auto simp: l1_inv_def l1_counted_def l1_hashed_def)

lemma dropByHash_inv: "l1_inv H (iL1 i) \<Longrightarrow> l1_inv H (iL1 (dropByHash h i))"
  by (simp add: dropByHash_def unindexed_inv l1Drop_inv split: option.split)

lemma l1_inv_index: "l1_inv H s \<Longrightarrow> map_of (l1ByHash s) (Some h) = Some k \<Longrightarrow> H k = Some h"
  by (auto simp: l1_inv_def l1_hashed_def)

lemma dropByHash_indexed:
  assumes "inj_hash H" "l1_inv H (iL1 i)" "l1_indexed H (iL1 i)"
  shows "l1_indexed H (iL1 (dropByHash h i))"
proof (cases "map_of (l1ByHash (iL1 i)) (Some h)")
  case (Some k)
  have k: "H k = Some h" using l1_inv_index [OF assms(2) Some] .
  have x: "H x \<noteq> Some h" if "x \<noteq> k" for x using inj_hashD [OF assms(1) k, of x] that by blast
  have "l1_indexed H (l1Drop k (iL1 i))" using assms by (rule l1Drop_indexed)
  then have "l1_indexed H ((l1Drop k (iL1 i))\<lparr>l1ByHash := AList.delete (Some h) (l1ByHash (l1Drop k (iL1 i)))\<rparr>)"
    using x by (auto simp: l1_indexed_def)
  then show ?thesis using Some by (simp add: dropByHash_def)
qed (use assms(3) in \<open>simp add: dropByHash_def\<close>)

lemma drain_record_frame [simp, frame_simps]:
  "iCfg (drain_record h p i) = iCfg i" "iLive (drain_record h p i) = iLive i" "iLink (drain_record h p i) = iLink i"
  "iCaps (drain_record h p i) = iCaps i" "iQueue (drain_record h p i) = iQueue i"
  "cCursor (iCoh (drain_record h p i)) = cCursor (iCoh i)"
  by (auto simp: drain_record_def Let_def split: option.split)

lemma drain_record_marks:
  "cDel (iCoh (drain_record h p i)) =
     (case mk_matchAt (cDel (iCoh i)) h p of None \<Rightarrow> cDel (iCoh i) | Some k \<Rightarrow> mk_release k (cDel (iCoh i)))"
  "cWrite (iCoh (drain_record h p i)) =
     (case mk_matchAt (cWrite (iCoh i)) h p of None \<Rightarrow> cWrite (iCoh i) | Some k \<Rightarrow> mk_release k (cWrite (iCoh i)))"
  by (auto simp: drain_record_def Let_def split: option.split)

lemma drain_record_l1:
  "iL1 (drain_record h p i) =
     (case map_of (l1ByHash (iL1 i)) (Some h) of
        None \<Rightarrow> iL1 i
      | Some k \<Rightarrow>
          if (\<exists>e. map_of (l1Map (iL1 i)) k = Some e \<and> eOwnAt e \<ge> 0 \<and> int p < eOwnAt e) then iL1 i
          else iL1 (dropByHash h i))"
  by (auto simp: drain_record_def Let_def dropByHash_def split: option.split)

lemma drain_record_ok [wf_intros]:
  assumes "inst_ok HK i"
  shows "inst_ok HK (drain_record h p i)"
proof -
  have l1: "l1_inv HK (iL1 (drain_record h p i))"
    using inst_okD(1) [OF assms] by (simp add: drain_record_l1 dropByHash_inv split: option.split)
  have m: "marks_wf (hash_of HK) (cDel (iCoh (drain_record h p i)))"
    "marks_wf (hash_of HK) (cWrite (iCoh (drain_record h p i)))"
    using inst_okD(2) [OF assms] by (simp_all add: drain_record_marks coh_ok_def split: option.split)
  have "coh_ok HK (iCoh (noteDeleted k q (i\<lparr>iCoh := (iCoh i)\<lparr>cDel := mk_release k' (cDel (iCoh i))\<rparr>\<rparr>)))" for k q k'
    using inst_okD(2) [OF assms] by (intro noteDeleted_ok) (simp add: coh_ok_def)
  then have "wf_map (cDeletedAt (iCoh (drain_record h p i))) \<and>
      length (cDeletedAt (iCoh (drain_record h p i))) \<le> PENDING_MARK_MAX"
    using inst_okD(2) [OF assms]
    by (auto simp: drain_record_def coh_ok_def Let_def split: option.split)
  then show ?thesis using l1 m by (simp add: inst_ok_def coh_ok_def)
qed

text \<open>A record leaves an entry as it was or drops it; it drops every entry that is not this
  process's own and that it concerns.\<close>

lemma drain_record_resident:
  assumes "map_of (l1Map (iL1 (drain_record h p i))) k = Some e"
  shows "map_of (l1Map (iL1 i)) k = Some e"
  using assms by (auto simp: drain_record_l1 dropByHash_l1 split: option.splits if_splits)

lemma drain_record_drops:
  assumes "l1_indexed HK (iL1 i)" "HK k = Some h"
    and "map_of (l1Map (iL1 (drain_record h p i))) k = Some e"
  shows "eOwnAt e \<ge> 0 \<and> int p < eOwnAt e"
proof -
  have e: "map_of (l1Map (iL1 i)) k = Some e" using drain_record_resident [OF assms(3)] .
  then have "map_of (l1ByHash (iL1 i)) (Some h) = Some k" using l1_indexedD [OF assms(1) _ assms(2)] by blast
  then show ?thesis using assms(3) e by (auto simp: drain_record_l1 dropByHash_l1 split: if_splits)
qed

lemma drain_record_indexed:
  "inj_hash HK \<Longrightarrow> l1_inv HK (iL1 i) \<Longrightarrow> l1_indexed HK (iL1 i) \<Longrightarrow> l1_indexed HK (iL1 (drain_record h p i))"
  by (simp add: drain_record_l1 dropByHash_indexed split: option.split)

section \<open>The batch\<close>

lemma drain_records_frame [simp, frame_simps]:
  "iCfg (fst (drain_records p rs i)) = iCfg i" "iLive (fst (drain_records p rs i)) = iLive i"
  "iLink (fst (drain_records p rs i)) = iLink i" "iQueue (fst (drain_records p rs i)) = iQueue i"
  "cCursor (iCoh (fst (drain_records p rs i))) = cCursor (iCoh i)"
  by (induction p rs i rule: drain_records.induct) simp_all

lemma drain_records_ok [wf_intros]: "inst_ok HK i \<Longrightarrow> inst_ok HK (fst (drain_records p rs i))"
  by (induction p rs i rule: drain_records.induct) (simp_all add: drain_record_ok clearLocal_ok)

lemma drain_records_indexed:
  "inj_hash HK \<Longrightarrow> inst_ok HK i \<Longrightarrow> l1_indexed HK (iL1 i) \<Longrightarrow> l1_indexed HK (iL1 (fst (drain_records p rs i)))"
  by (induction p rs i rule: drain_records.induct)
    (simp_all add: drain_record_indexed drain_record_ok inst_okD)

lemma drain_records_resident:
  "map_of (l1Map (iL1 (fst (drain_records p rs i)))) k = Some e \<Longrightarrow> map_of (l1Map (iL1 i)) k = Some e"
  by (induction p rs i rule: drain_records.induct)
    (auto simp: l1_clear_def dest: drain_record_resident split: if_splits)

text \<open>What survives the batch was concerned by no record of it, unless it is the process's own.\<close>

lemma drain_records_unconcerned:
  assumes "inj_hash HK" "inst_ok HK i" "l1_indexed HK (iL1 i)" "HK k = Some h"
    and "map_of (l1Map (iL1 (fst (drain_records p rs i)))) k = Some e" "eOwnAt e < 0"
  shows "\<forall>r \<in> set rs. rrHash r \<noteq> FLUSH_ALL \<and> rrHash r \<noteq> h"
  using assms
proof (induction p rs i rule: drain_records.induct)
  case (2 p r rs i)
  have nf: "rrHash r \<noteq> FLUSH_ALL" using 2(6) by (auto simp: l1_clear_def)
  let ?i = "drain_record (rrHash r) p i"
  have s: "map_of (l1Map (iL1 (fst (drain_records (p + 1) rs ?i)))) k = Some e" using 2(6) nf by simp
  have "\<forall>r \<in> set rs. rrHash r \<noteq> FLUSH_ALL \<and> rrHash r \<noteq> h"
    using 2(1) [OF nf 2(2) drain_record_ok [OF 2(3)] drain_record_indexed [OF 2(2) inst_okD(1) [OF 2(3)] 2(4)] 2(5) s 2(7)] .
  moreover have "rrHash r \<noteq> h"
    using drain_record_drops [OF 2(4,5)] drain_records_resident [OF s] 2(7) by fastforce
  ultimately show ?case using nf by simp
qed simp

text \<open>A mark that goes in the batch went for a flush or for its own landing.\<close>

definition landed :: "hash \<Rightarrow> nat \<Rightarrow> nat \<Rightarrow> ringRec list \<Rightarrow> bool" where
  "landed h since p rs \<longleftrightarrow>
     (\<exists>n < length rs. rrHash (rs ! n) = FLUSH_ALL \<or> rrHash (rs ! n) = h \<and> since \<le> p + n)"

lemma landed_Nil [simp]: "\<not> landed h s p []"
  by (simp add: landed_def)

lemma landed_Cons [simp]:
  "landed h s p (x # rs) \<longleftrightarrow> rrHash x = FLUSH_ALL \<or> rrHash x = h \<and> s \<le> p \<or> landed h s (p + 1) rs"
  (is "?l \<longleftrightarrow> ?r")
proof
  assume ?l
  then obtain n where n: "n < length (x # rs)"
    "rrHash ((x # rs) ! n) = FLUSH_ALL \<or> rrHash ((x # rs) ! n) = h \<and> s \<le> p + n"
    by (auto simp: landed_def)
  show ?r
  proof (cases n)
    case 0
    then show ?thesis using n by auto
  next
    case (Suc m)
    then have "landed h s (p + 1) rs" using n unfolding landed_def by (intro exI [of _ m]) auto
    then show ?thesis by simp
  qed
next
  assume ?r
  moreover have ?l if "rrHash x = FLUSH_ALL \<or> rrHash x = h \<and> s \<le> p"
    using that unfolding landed_def by (intro exI [of _ 0]) auto
  moreover have ?l if l: "landed h s (p + 1) rs"
  proof -
    obtain m where "m < length rs" "rrHash (rs ! m) = FLUSH_ALL \<or> rrHash (rs ! m) = h \<and> s \<le> p + 1 + m"
      using l by (auto simp: landed_def)
    then show ?thesis unfolding landed_def by (intro exI [of _ "Suc m"]) auto
  qed
  ultimately show ?l by blast
qed

lemma release_match_keeps:
  assumes "marks_wf H m" "map_of (byKey m) k = Some r" "\<not> (H k = h \<and> mAt r \<le> p)"
  shows "map_of (byKey (case mk_matchAt m h p of None \<Rightarrow> m | Some k \<Rightarrow> mk_release k m)) k = Some r"
proof (cases "mk_matchAt m h p")
  case (Some x)
  then have "x \<noteq> k" using mk_matchAt_Some [OF assms(1) Some] assms(2,3) by auto
  then show ?thesis using Some assms(2) by simp
qed (use assms(2) in simp)

lemma drain_records_marks:
  "inst_ok HK i \<Longrightarrow>
   (\<forall>k r. map_of (byKey (cDel (iCoh i))) k = Some r \<longrightarrow>
      map_of (byKey (cDel (iCoh (fst (drain_records p rs i))))) k = Some r \<or> landed (hash_of HK k) (mAt r) p rs) \<and>
   (\<forall>k r. map_of (byKey (cWrite (iCoh i))) k = Some r \<longrightarrow>
      map_of (byKey (cWrite (iCoh (fst (drain_records p rs i))))) k = Some r \<or> landed (hash_of HK k) (mAt r) p rs)"
proof (induction p rs i rule: drain_records.induct)
  case (2 p x rs i)
  let ?i = "drain_record (rrHash x) p i"
  have wf: "marks_wf (hash_of HK) (cDel (iCoh i))" "marks_wf (hash_of HK) (cWrite (iCoh i))"
    using inst_okD(2) [OF 2(2)] by (simp_all add: coh_ok_def)
  have d: "map_of (byKey (cDel (iCoh ?i))) k = Some r \<or> rrHash x = hash_of HK k \<and> mAt r \<le> p"
    if "map_of (byKey (cDel (iCoh i))) k = Some r" for k r
    unfolding drain_record_marks using release_match_keeps [OF wf(1) that, of "rrHash x" p] by metis
  have w: "map_of (byKey (cWrite (iCoh ?i))) k = Some r \<or> rrHash x = hash_of HK k \<and> mAt r \<le> p"
    if "map_of (byKey (cWrite (iCoh i))) k = Some r" for k r
    unfolding drain_record_marks using release_match_keeps [OF wf(2) that, of "rrHash x" p] by metis
  show ?case
  proof (cases "rrHash x = FLUSH_ALL")
    case False
    note ih = 2(1) [OF False drain_record_ok [OF 2(2)]]
    show ?thesis using False by simp (use ih d w in \<open>simp; meson\<close>)
  qed simp
qed simp

section \<open>The drain\<close>

lemma checkPrimary_frame [simp, frame_simps]:
  "iCfg (fst (checkPrimary e i)) = iCfg i" "iL1 (fst (checkPrimary e i)) = iL1 i"
  "iCoh (fst (checkPrimary e i)) = iCoh i" "iCaps (fst (checkPrimary e i)) = iCaps i"
  "iQueue (fst (checkPrimary e i)) = iQueue i"
  by (simp_all add: checkPrimary_def Let_def)

lemma checkPrimary_alive: "\<not> snd (checkPrimary e i) \<Longrightarrow> vDead (iLive (fst (checkPrimary e i))) = vDead (iLive i)"
  by (auto simp: checkPrimary_def Let_def split: if_splits)

lemma drain_owed_frame [simp, frame_simps]:
  "iCfg (drain_owed n a i) = iCfg i" "iL1 (drain_owed n a i) = iL1 i" "iLive (drain_owed n a i) = iLive i"
  "iLink (drain_owed n a i) = iLink i" "iCaps (drain_owed n a i) = iCaps i" "iQueue (drain_owed n a i) = iQueue i"
  "cCursor (iCoh (drain_owed n a i)) = cCursor (iCoh i)"
  by (simp_all add: drain_owed_def Let_def)

lemma drain_owed_ok [wf_intros]: "inst_ok HK i \<Longrightarrow> inst_ok HK (drain_owed n a i)"
  by (simp add: drain_owed_def Let_def reconcileRemovals_ok reconcileWrites_ok)

lemma owed_ok:
  "inst_ok HK i \<Longrightarrow> inst_ok HK (i\<lparr>iCoh := (iCoh i)\<lparr>cOwedDel := n\<rparr>\<rparr>)"
  "inst_ok HK i \<Longrightarrow> inst_ok HK (i\<lparr>iCoh := (iCoh i)\<lparr>cOwedWrite := n\<rparr>\<rparr>)"
  "inst_ok HK i \<Longrightarrow> inst_ok HK (set_cursor c i)"
  "inst_ok HK i \<Longrightarrow> inst_ok HK (dropCachedValues i)"
  by (simp_all add: inst_ok_def coh_ok_def set_cursor_def dropCachedValues_def l1_clear_inv)

lemma set_cursor_frame [simp, frame_simps]:
  "iCfg (set_cursor c i) = iCfg i" "iL1 (set_cursor c i) = iL1 i" "iLive (set_cursor c i) = iLive i"
  "iLink (set_cursor c i) = iLink i" "iCaps (set_cursor c i) = iCaps i" "iQueue (set_cursor c i) = iQueue i"
  "cCursor (iCoh (set_cursor c i)) = c" "cDel (iCoh (set_cursor c i)) = cDel (iCoh i)"
  "cWrite (iCoh (set_cursor c i)) = cWrite (iCoh i)"
  by (simp_all add: set_cursor_def)

lemma drain_wrapped_frame [simp, frame_simps]:
  "iCfg (drain_wrapped n a h i) = iCfg i" "iL1 (drain_wrapped n a h i) = l1_clear (iL1 i)"
  "iLive (drain_wrapped n a h i) = iLive i" "iLink (drain_wrapped n a h i) = iLink i"
  "iQueue (drain_wrapped n a h i) = iQueue i" "cCursor (iCoh (drain_wrapped n a h i)) = h"
  by (simp_all add: drain_wrapped_def Let_def dropCachedValues_def)

lemma drain_wrapped_ok [wf_intros]:
  assumes "inst_ok HK i"
  shows "inst_ok HK (drain_wrapped n a h i)"
proof -
  let ?i2 = "(dropCachedValues i)\<lparr>iCoh := (iCoh (dropCachedValues i))
    \<lparr>cOwedWrite := int (mk_size (cWrite (iCoh (dropCachedValues i))))\<rparr>\<rparr>"
  let ?i3 = "if cOwedWrite (iCoh ?i2) \<noteq> 0 then reconcileWrites a ?i2 else ?i2"
  let ?i4 = "?i3\<lparr>iCoh := (iCoh ?i3)\<lparr>cOwedDel := int (mk_size (cDel (iCoh ?i3)))\<rparr>\<rparr>"
  have 2: "inst_ok HK ?i2" using assms by (intro owed_ok(2) owed_ok(4))
  have 3: "inst_ok HK ?i3" using 2 reconcileWrites_ok [OF 2] by (cases "cOwedWrite (iCoh ?i2) \<noteq> 0") simp_all
  have 4: "inst_ok HK ?i4" using 3 by (rule owed_ok(1))
  have "inst_ok HK (if cOwedDel (iCoh ?i4) \<noteq> 0 then reconcileRemovals n a h ?i4 else ?i4)"
    using 4 reconcileRemovals_ok [OF 4] by (cases "cOwedDel (iCoh ?i4) \<noteq> 0") simp_all
  then show ?thesis unfolding drain_wrapped_def Let_def by (rule owed_ok(3))
qed

lemma drain_ring_frame [simp, frame_simps]:
  "iCfg (drain_ring n a i) = iCfg i" "iLive (drain_ring n a i) = iLive i" "iLink (drain_ring n a i) = iLink i"
  "iQueue (drain_ring n a i) = iQueue i"
  by (simp_all add: drain_ring_def Let_def)

lemma drain_ring_ok [wf_intros]: "inst_ok HK i \<Longrightarrow> inst_ok HK (drain_ring n a i)"
  by (simp add: drain_ring_def Let_def drain_wrapped_ok drain_owed_ok owed_ok(3) drain_records_ok)

lemma drain_ring_indexed:
  "inj_hash HK \<Longrightarrow> inst_ok HK i \<Longrightarrow> l1_indexed HK (iL1 i) \<Longrightarrow> l1_indexed HK (iL1 (drain_ring n a i))"
  using drain_records_indexed [of HK "drain_owed n a i"]
  by (simp add: drain_ring_def Let_def drain_owed_ok)

section \<open>Coherence with the arena\<close>

text \<open>What the process's own tier holds for a value of the arena.\<close>

definition l1_view :: "cfg \<Rightarrow> jsval \<Rightarrow> jsval option" where
  "l1_view g raw =
     (case gCodec g of
        None \<Rightarrow> Some raw
      | Some c \<Rightarrow> if gL1Decoded g then cDecode c raw else Some raw)"

definition unread :: "arena \<Rightarrow> inst \<Rightarrow> ringRec list" where
  "unread a i = drop (cCursor (iCoh i)) (aRing a)"

definition fresh_entry :: "(jsstr \<Rightarrow> hash option) \<Rightarrow> arena \<Rightarrow> inst \<Rightarrow> jsstr \<Rightarrow> l1Entry \<Rightarrow> bool" where
  "fresh_entry HK a i k e \<longleftrightarrow>
     (\<exists>r \<in> set (unread a i). rec_concerns (hash_of HK) k r) \<or>
     (\<forall>x. map_of (aMap a) k = Some x \<longrightarrow> l1_view (iCfg i) (aeVal x) = Some (eV e))"

definition fresh :: "(jsstr \<Rightarrow> hash option) \<Rightarrow> arena \<Rightarrow> inst \<Rightarrow> bool" where
  "fresh HK a i \<longleftrightarrow>
     cCursor (iCoh i) \<le> ringHead a \<and>
     (\<forall>k e. map_of (l1Map (iL1 i)) k = Some e \<longrightarrow> eOwnAt e < 0 \<longrightarrow> HK k \<noteq> None \<longrightarrow> fresh_entry HK a i k e)"

lemma freshD: "fresh HK a i \<Longrightarrow> map_of (l1Map (iL1 i)) k = Some e \<Longrightarrow> eOwnAt e < 0 \<Longrightarrow> HK k \<noteq> None \<Longrightarrow>
  fresh_entry HK a i k e"
  by (auto simp: fresh_def)

lemma fresh_cursor: "fresh HK a i \<Longrightarrow> cCursor (iCoh i) \<le> ringHead a"
  by (simp add: fresh_def)

text \<open>Fewer entries, the same cursor and configuration: still coherent.\<close>

lemma fresh_fewer:
  assumes "fresh HK a i" "iCfg i' = iCfg i" "cCursor (iCoh i') = cCursor (iCoh i)"
    and "\<And>k e. map_of (l1Map (iL1 i')) k = Some e \<Longrightarrow> \<exists>e'. map_of (l1Map (iL1 i)) k = Some e' \<and> same_entry e e'"
  shows "fresh HK a i'"
  unfolding fresh_def
proof (intro conjI allI impI)
  show "cCursor (iCoh i') \<le> ringHead a" using assms(1,3) by (simp add: fresh_def)
  fix k e
  assume k: "map_of (l1Map (iL1 i')) k = Some e" and o: "eOwnAt e < 0" and h: "HK k \<noteq> None"
  obtain e' where e': "map_of (l1Map (iL1 i)) k = Some e'" "same_entry e e'" using assms(4) [OF k] by blast
  have "eOwnAt e' = eOwnAt e" "eV e' = eV e" using e'(2) by (cases e, cases e', simp add: same_entry_def)+
  then show "fresh_entry HK a i' k e"
    using freshD [OF assms(1) e'(1) _ h] o assms(2,3) by (simp add: fresh_entry_def unread_def)
qed

lemma fresh_step:
  assumes "fresh HK a i" "recorded (hash_of HK) a b"
  shows "fresh HK b i"
proof -
  obtain new where n: "aRing b = aRing a @ new"
    "\<And>k. map_of (aMap b) k = map_of (aMap a) k \<or> map_of (aMap b) k = None \<or> (\<exists>r \<in> set new. rec_concerns (hash_of HK) k r)"
    using assms(2) by (auto simp: recorded_def)
  have c: "cCursor (iCoh i) \<le> length (aRing a)" using assms(1) by (simp add: fresh_def ringHead_def)
  have u: "unread b i = unread a i @ new" using n(1) c by (simp add: unread_def)
  have "fresh_entry HK b i k e" if "fresh_entry HK a i k e" for k e
    using that n(2) [of k] u by (auto simp: fresh_entry_def)
  then show ?thesis using assms(1) n(1) by (auto simp: fresh_def ringHead_def)
qed

lemma drain_ring_fresh:
  assumes inj: "inj_hash HK" and ok: "inst_ok HK i" and ix: "l1_indexed HK (iL1 i)" and fr: "fresh HK a i"
  shows "fresh HK a (drain_ring n a i)"
proof -
  let ?i = "drain_owed n a i" and ?c = "cCursor (iCoh i)"
  let ?r = "ringRead ?c 512 a"
  have fr': "fresh HK a ?i" using fr by (rule fresh_fewer) (auto simp: same_entry_def)
  show ?thesis
  proof (cases "ringHead a = ?c")
    case True
    then show ?thesis using fr' by (simp add: drain_ring_def Let_def)
  next
    case moved: False
    show ?thesis
    proof (cases "rbWrapped ?r")
      case True
      have "rbHead ?r \<le> ringHead a" by (auto simp: ringRead_def ringHead_def Let_def)
      then show ?thesis using moved True
        by (simp add: drain_ring_def Let_def fresh_def l1_clear_def)
    next
      case False
      note rr = ringRead_recs [OF False]
      let ?d = "fst (drain_records ?c (rbRecs ?r) ?i)"
      have e: "drain_ring n a i = set_cursor (rbHead ?r) ?d" using moved False by (simp add: drain_ring_def Let_def)
      have split: "drop ?c (aRing a) = rbRecs ?r @ drop (rbHead ?r) (aRing a)"
      proof -
        have "drop (rbHead ?r) (aRing a) = drop 512 (drop ?c (aRing a))"
          using rr(1) by (simp add: rr(3) min_def ringHead_def add.commute)
        then show ?thesis using rr(2) by (metis append_take_drop_id)
      qed
      show ?thesis unfolding fresh_def
      proof (intro conjI allI impI)
        show "cCursor (iCoh (drain_ring n a i)) \<le> ringHead a" using e rr(3) by simp
        fix k en
        assume k: "map_of (l1Map (iL1 (drain_ring n a i))) k = Some en" and o: "eOwnAt en < 0" and h: "HK k \<noteq> None"
        obtain h' where h': "HK k = Some h'" using h by blast
        have kd: "map_of (l1Map (iL1 ?d)) k = Some en" using k e by simp
        have "map_of (l1Map (iL1 ?i)) k = Some en" using drain_records_resident [OF kd] .
        then have f: "fresh_entry HK a ?i k en" using freshD [OF fr' _ o h] by blast
        have "\<forall>r \<in> set (rbRecs ?r). rrHash r \<noteq> FLUSH_ALL \<and> rrHash r \<noteq> h'"
          using drain_records_unconcerned [OF inj drain_owed_ok [OF ok] _ h' kd o] ix by simp
        then have "\<not> (\<exists>r \<in> set (rbRecs ?r). rec_concerns (hash_of HK) k r)"
          using h' by (auto simp: rec_concerns_def hash_of_def)
        then show "fresh_entry HK a (drain_ring n a i) k en"
          using f split e by (auto simp: fresh_entry_def unread_def)
      qed
    qed
  qed
qed

section \<open>Reads keep the invariant\<close>

definition worker_inv :: "(jsstr \<Rightarrow> hash option) \<Rightarrow> arena \<Rightarrow> inst \<Rightarrow> bool" where
  "worker_inv HK a i \<longleftrightarrow> inst_ok HK i \<and> l1_indexed HK (iL1 i) \<and> fresh HK a i"

lemma worker_invD:
  "worker_inv HK a i \<Longrightarrow> inst_ok HK i" "worker_inv HK a i \<Longrightarrow> l1_indexed HK (iL1 i)" "worker_inv HK a i \<Longrightarrow> fresh HK a i"
  by (simp_all add: worker_inv_def)

text \<open>A change that touches neither the tier, nor the marks, nor the cursor.\<close>

lemma worker_inv_frame:
  assumes "worker_inv HK a i" "iCfg i' = iCfg i" "iL1 i' = iL1 i" "iCoh i' = iCoh i"
  shows "worker_inv HK a i'"
proof -
  have "fresh HK a i'"
    by (rule fresh_fewer [OF worker_invD(3) [OF assms(1)] assms(2)]) (use assms(3,4) in \<open>auto simp: same_entry_def\<close>)
  then show ?thesis using assms by (simp add: worker_inv_def inst_ok_def)
qed

lemma checkPrimary_inv: "worker_inv HK a i \<Longrightarrow> worker_inv HK a (fst (checkPrimary e i))"
  by (erule worker_inv_frame) simp_all

lemma drain_inv [wf_intros]:
  assumes "inj_hash HK" "worker_inv HK a i"
  shows "worker_inv HK a (fst (drain e a i))"
proof -
  obtain i1 fired where c: "checkPrimary e i = (i1, fired)" by force
  have 1: "worker_inv HK a i1" using checkPrimary_inv [OF assms(2), of e] c by simp
  then have "worker_inv HK a (drain_ring (eTick e) a i1)"
    using assms(1) drain_ring_ok drain_ring_indexed drain_ring_fresh by (simp add: worker_inv_def)
  then show ?thesis using assms(2) 1 c by (simp add: drain_def)
qed

text \<open>The three ways a read changes the tier.\<close>

lemma l1Drop_worker_inv:
  assumes "inj_hash HK" "worker_inv HK a i"
  shows "worker_inv HK a (i\<lparr>iL1 := l1Drop key (iL1 i)\<rparr>)"
proof -
  have "fresh HK a (i\<lparr>iL1 := l1Drop key (iL1 i)\<rparr>)"
    by (rule fresh_fewer [OF worker_invD(3) [OF assms(2)]]) (auto simp: same_entry_def split: if_splits)
  then show ?thesis
    using assms worker_invD [OF assms(2)] l1Drop_indexed [OF assms(1)] l1Drop_inv
    by (simp add: worker_inv_def inst_ok_def)
qed

lemma l1_hit_worker_inv:
  assumes "worker_inv HK a i"
  shows "worker_inv HK a (i\<lparr>iL1 := l1_hit key (iL1 i)\<rparr>)"
proof -
  have "fresh HK a (i\<lparr>iL1 := l1_hit key (iL1 i)\<rparr>)"
    by (rule fresh_fewer [OF worker_invD(3) [OF assms]]) (auto simp: l1_hit_lookup same_entry_def split: if_splits)
  then show ?thesis
    using worker_invD [OF assms] l1_hit_indexed l1_hit_inv by (simp add: worker_inv_def inst_ok_def)
qed

lemma l1Put_worker_inv:
  assumes "inj_hash HK" "worker_inv HK a i"
    and v: "own < 0 \<Longrightarrow> HK key \<noteq> None \<Longrightarrow> \<forall>x. map_of (aMap a) key = Some x \<longrightarrow> l1_view (iCfg i) (aeVal x) = Some v"
  shows "worker_inv HK a (i\<lparr>iL1 := l1Put c key v (HK key) n expMs own (iL1 i)\<rparr>)"
proof -
  let ?i = "i\<lparr>iL1 := l1Put c key v (HK key) n expMs own (iL1 i)\<rparr>"
  have l1: "l1_inv HK (iL1 i)" using worker_invD(1) [OF assms(2)] by (rule inst_okD)
  have "fresh HK a ?i"
    unfolding fresh_def
  proof (intro conjI allI impI)
    show "cCursor (iCoh ?i) \<le> ringHead a" using fresh_cursor [OF worker_invD(3) [OF assms(2)]] by simp
    fix k e
    assume k: "map_of (l1Map (iL1 ?i)) k = Some e" and o: "eOwnAt e < 0" and h: "HK k \<noteq> None"
    have "if k = key then same_entry e (entry_of c key v (HK key) n expMs own)
          else (\<exists>e'. map_of (l1Map (iL1 i)) k = Some e' \<and> same_entry e e')"
      using l1Put_resident [OF l1] k by simp
    then show "fresh_entry HK a ?i k e"
    proof (cases "k = key")
      case True
      then have "same_entry e (entry_of c key v (HK key) n expMs own)"
        using l1Put_resident [OF l1] k by fastforce
      then have "eOwnAt e = own" "eV e = v" by (cases e, simp add: same_entry_def entry_of_def)+
      then show ?thesis using v o h True by (simp add: fresh_entry_def)
    next
      case False
      then obtain e' where e': "map_of (l1Map (iL1 i)) k = Some e'" "same_entry e e'"
        using l1Put_resident [OF l1] k by fastforce
      then have "eOwnAt e' = eOwnAt e" "eV e' = eV e" by (cases e, cases e', simp add: same_entry_def)+
      then show ?thesis
        using freshD [OF worker_invD(3) [OF assms(2)] e'(1) _ h] o by (simp add: fresh_entry_def unread_def)
    qed
  qed
  then show ?thesis
    using worker_invD [OF assms(2)] l1Put_indexed [OF assms(1) l1] l1Put_inv [OF l1]
    by (simp add: worker_inv_def inst_ok_def)
qed

lemma bump_inv: "worker_inv HK a i \<Longrightarrow> worker_inv HK a (bump c i)"
  by (erule worker_inv_frame) simp_all

lemma n_get_map: "n_get n a key = Some raw \<Longrightarrow> \<exists>x. map_of (aMap a) key = Some x \<and> aeVal x = raw"
  by (auto simp: n_get_def live_entry_def split: option.splits if_splits)

lemma fill_from_l2_inv:
  assumes "inj_hash HK" "worker_inv HK a i" "n_get n a key = Some raw"
  shows "worker_inv HK a (snd (fill_from_l2 HK e minLevel key raw rem i))"
proof -
  obtain x where x: "map_of (aMap a) key = Some x" "aeVal x = raw" using n_get_map [OF assms(3)] by blast
  have put: "worker_inv HK a (i\<lparr>iL1 := l1Put c key v (HK key) m expMs (- 1) (iL1 i)\<rparr>)"
    if "l1_view (iCfg i) raw = Some v" for c v m expMs
    using assms(1,2) by (rule l1Put_worker_inv) (use x that in auto)
  show ?thesis
    using assms(2) put
    by (auto simp: fill_from_l2_def Let_def l1_view_def decode_with_def split: option.splits sum.splits if_splits)
qed

text \<open>A read sees the arena of the process, or nothing where no arena is mapped.\<close>

definition reads_from :: "arena \<Rightarrow> arena \<Rightarrow> env \<Rightarrow> bool" where
  "reads_from a b e \<longleftrightarrow> b = a \<or> aMap b = [] \<and> \<not> eReady e"

lemma reads_from_refl [simp]: "reads_from a a e"
  by (simp add: reads_from_def)

lemma get_l2_inv:
  assumes "inj_hash HK" "worker_inv HK a i" "reads_from a b e"
  shows "worker_inv HK a (snd (get_l2 HK e b minLevel key i))"
  using assms
  by (auto simp: reads_from_def get_l2_def n_get_def live_entry_def bump_inv fill_from_l2_inv split: option.split)

lemma get_drained_inv:
  assumes "inj_hash HK" "worker_inv HK a i" "reads_from a b e"
  shows "worker_inv HK a (snd (get_drained HK e b minLevel key i))"
  using assms
  by (simp add: get_drained_def get_l2_inv l1Drop_worker_inv bump_inv l1_hit_worker_inv split: option.split)

lemma unmapped_drain_inv: "inj_hash HK \<Longrightarrow> worker_inv HK a i \<Longrightarrow> reads_from a b e \<Longrightarrow> worker_inv HK a (fst (drain e b i))"
proof (cases "b = a")
  case False
  assume "worker_inv HK a i" "reads_from a b e"
  moreover from this(2) have "drain e b i = (i, False)" using False by (simp add: reads_from_def drain_def)
  ultimately show ?thesis by simp
qed (simp add: drain_inv)

lemma get_inv [wf_intros]:
  assumes "inj_hash HK" "worker_inv HK a i" "reads_from a b e"
  shows "worker_inv HK a (fst (snd (get HK e b k minLevel i)))"
  using assms(2) get_drained_inv [OF assms(1) unmapped_drain_inv [OF assms] assms(3)]
  by (auto simp: get_def Let_def split: jsval.split sum.split prod.split) (metis fst_conv snd_conv)

lemma has_drained_inv:
  assumes "inj_hash HK" "worker_inv HK a i" "reads_from a b e"
  shows "worker_inv HK a (snd (has_drained HK e b key i))"
proof -
  have g: "worker_inv HK a i2" if "worker_inv HK a i1" "get HK e b (VStr key) NumUndef i1 = (v, i2, x)" for v i1 i2 x
    using get_inv [OF assms(1) that(1) assms(3), of "VStr key" NumUndef] that(2) by simp
  show ?thesis
    using assms l1Drop_worker_inv [OF assms(1,2), of key] g
    by (auto simp: has_drained_def Let_def split: option.split prod.split)
qed

lemma has_inv [wf_intros]:
  assumes "inj_hash HK" "worker_inv HK a i" "reads_from a b e"
  shows "worker_inv HK a (fst (snd (has HK e b k i)))"
  using assms(2) has_drained_inv [OF assms(1) unmapped_drain_inv [OF assms] assms(3)]
  by (auto simp: has_def Let_def split: jsval.split prod.split) (metis fst_conv snd_conv)

end
