(* ===== verification/Lifecycle.thy ===== *)
theory Lifecycle
  imports Process Coherence
begin

text \<open>
  The death and the recovery of the primary, seen from a worker process (\<^verbatim>\<open>src/src/turbokv.js\<close>,
  lines 1284 to 1411 and 1786 to 1806): degrading every cache object, the recovery tick, and what a
  recovered object forgets. What the tick reads from the addon is a record.
\<close>

section \<open>Degrading\<close>

definition set_recov :: "(recov \<Rightarrow> recov) \<Rightarrow> proc \<Rightarrow> proc" where
  "set_recov f p = p\<lparr>yRecov := f (yRecov p)\<rparr>"

definition degrade :: "proc \<Rightarrow> proc" where
  "degrade p =
     (if rvDegraded (yRecov p) \<or> yPrimary p then p
      else (let p1 = all_open (setDead True) (set_recov (\<lambda>r. r\<lparr>rvDegraded := True\<rparr>) p);
                p2 = (set_recov (\<lambda>r. r\<lparr>rvLastHb := - 1\<rparr>) p1)\<lparr>yReady := False\<rparr>
            in if rvTimer (yRecov p2) \<or> \<not> rvName (yRecov p2) then p2
               else set_recov (\<lambda>r. r\<lparr>rvTimer := True\<rparr>) p2))"

text \<open>\<^verbatim>\<open>#checkPrimary\<close> of one cache object of the process.\<close>

definition check_at :: "env \<Rightarrow> nat \<Rightarrow> proc \<Rightarrow> proc" where
  "check_at e n p =
     (case map_of (yInsts p) n of
        None \<Rightarrow> p
      | Some i \<Rightarrow>
          (let (i', fired) = checkPrimary (env_in p e) i; p1 = upd_inst n (\<lambda>_. i') p
           in if fired then degrade p1 else p1))"

section \<open>Recovering\<close>

record reattach =
  raAttached :: bool
  raHb :: int
  raAge :: int
  raId :: nat
  raArena :: arena
  raMax :: "nat option"
  raRing :: "(nat \<times> nat) option"

definition useSubmissionRing :: "(nat \<times> nat) option \<Rightarrow> inst \<Rightarrow> inst" where
  "useSubmissionRing ring i =
     (case ring of
        None \<Rightarrow> i
      | Some (slot, mx) \<Rightarrow> i\<lparr>iLink := (iLink i)\<lparr>kRing := Some slot, kRingMax := mx\<rparr>\<rparr>)"

definition recovered :: "bool \<Rightarrow> reattach \<Rightarrow> inst \<Rightarrow> inst" where
  "recovered named r i =
     (let i1 = set_cursor (ringHead (raArena r)) (clearLocal i);
          i2 = (case raMax r of
                  Some mv \<Rightarrow> if mv > 0 then i1\<lparr>iLink := (iLink i1)\<lparr>kMaxValue := mv\<rparr>\<rparr> else i1
                | None \<Rightarrow> i1);
          i3 = i2\<lparr>iLink := (iLink i2)\<lparr>kRing := None\<rparr>\<rparr>;
          i4 = (if \<not> gIpc (iCfg i3) \<and> named then useSubmissionRing (raRing r) i3 else i3)
      in bump ''recoveries'' (i4\<lparr>iLive := (iLive i4)\<lparr>vDead := False\<rparr>\<rparr>))"

definition staleMsFor :: "proc \<Rightarrow> ms" where
  "staleMsFor p =
     (case filter (\<lambda>(_, i). \<not> vClosed (iLive i)) (yInsts p) of
        [] \<Rightarrow> 2500
      | (_, i) # _ \<Rightarrow> of_int (gStaleMs (iCfg i)) / 2)"

definition tryRecover :: "reattach \<Rightarrow> proc \<Rightarrow> proc" where
  "tryRecover r p =
     (if \<not> rvName (yRecov p) \<or> \<not> raAttached r then p
      else if raHb r = rvLastHb (yRecov p) \<or> raAge r < 0 \<or> of_int (raAge r) > staleMsFor p
      then (set_recov (\<lambda>v. v\<lparr>rvLastHb := raHb r\<rparr>) p)\<lparr>yReady := False\<rparr>
      else all_open (recovered True r)
             ((set_recov (\<lambda>v. v\<lparr>rvTimer := False, rvDegraded := False, rvArenaId := Some (raId r)\<rparr>) p)
                \<lparr>yReady := True, yArena := raArena r\<rparr>))"

section \<open>Lemmas\<close>

lemma map_of_map_val: "map_of (List.map (\<lambda>(k, v). (k, f k v)) m) x = map_option (f x) (map_of m x)"
  by (induction m) auto

lemma upd_inst_lookup [simp]:
  "map_of (yInsts (upd_inst n f p)) m = (if m = n then map_option f (map_of (yInsts p) n) else map_of (yInsts p) m)"
  unfolding upd_inst_def
  by (simp add: map_of_map_val [of "\<lambda>m i. if m = n then f i else i"] option.map_ident cong: map_option_cong)

lemma all_open_lookup [simp]:
  "map_of (yInsts (all_open f p)) m = map_option (\<lambda>i. if vClosed (iLive i) then i else f i) (map_of (yInsts p) m)"
  unfolding all_open_def by (simp add: map_of_map_val [of "\<lambda>m i. if vClosed (iLive i) then i else f i"])

lemma other_open_lookup [simp]:
  "map_of (yInsts (other_open n f p)) m =
     map_option (\<lambda>i. if vClosed (iLive i) \<or> m = n then i else f i) (map_of (yInsts p) m)"
  unfolding other_open_def by (simp add: map_of_map_val [of "\<lambda>m i. if vClosed (iLive i) \<or> m = n then i else f i"])

lemma insts_frame [simp, frame_simps]:
  "yArena (upd_inst n f p) = yArena p" "yReady (upd_inst n f p) = yReady p" "yPrimary (upd_inst n f p) = yPrimary p"
  "ySubmit (upd_inst n f p) = ySubmit p" "yMarkSeq (upd_inst n f p) = yMarkSeq p" "yClears (upd_inst n f p) = yClears p"
  "yOwed (upd_inst n f p) = yOwed p" "yCursor (upd_inst n f p) = yCursor p" "ySent (upd_inst n f p) = ySent p"
  "yRecov (upd_inst n f p) = yRecov p" "yNonce (upd_inst n f p) = yNonce p"
  "yArena (all_open g p) = yArena p" "yReady (all_open g p) = yReady p" "yPrimary (all_open g p) = yPrimary p"
  "ySubmit (all_open g p) = ySubmit p" "yMarkSeq (all_open g p) = yMarkSeq p" "yClears (all_open g p) = yClears p"
  "yOwed (all_open g p) = yOwed p" "yCursor (all_open g p) = yCursor p" "ySent (all_open g p) = ySent p"
  "yRecov (all_open g p) = yRecov p" "yNonce (all_open g p) = yNonce p"
  "yArena (other_open n g p) = yArena p" "yReady (other_open n g p) = yReady p" "yPrimary (other_open n g p) = yPrimary p"
  "ySubmit (other_open n g p) = ySubmit p" "yMarkSeq (other_open n g p) = yMarkSeq p" "yClears (other_open n g p) = yClears p"
  "yOwed (other_open n g p) = yOwed p" "yCursor (other_open n g p) = yCursor p" "ySent (other_open n g p) = ySent p"
  "yRecov (other_open n g p) = yRecov p" "yNonce (other_open n g p) = yNonce p"
  by (simp_all add: upd_inst_def all_open_def other_open_def)

lemma set_recov_frame [simp, frame_simps]:
  "yInsts (set_recov f p) = yInsts p" "yArena (set_recov f p) = yArena p" "yReady (set_recov f p) = yReady p"
  "yPrimary (set_recov f p) = yPrimary p" "ySubmit (set_recov f p) = ySubmit p" "yMarkSeq (set_recov f p) = yMarkSeq p"
  "yClears (set_recov f p) = yClears p" "yOwed (set_recov f p) = yOwed p" "yCursor (set_recov f p) = yCursor p"
  "ySent (set_recov f p) = ySent p" "yRecov (set_recov f p) = f (yRecov p)"
  by (simp_all add: set_recov_def)

lemma recovered_facts [simp]:
  "vDead (iLive (recovered b r i)) = False" "cDel (iCoh (recovered b r i)) = mk_clear (cDel (iCoh i))"
  "cWrite (iCoh (recovered b r i)) = mk_clear (cWrite (iCoh i))" "l1Map (iL1 (recovered b r i)) = []"
  "cCursor (iCoh (recovered b r i)) = ringHead (raArena r)" "iCfg (recovered b r i) = iCfg i"
  "iL1 (recovered b r i) = l1_clear (iL1 i)" "cDeletedAt (iCoh (recovered b r i)) = []"
  by (auto simp: recovered_def Let_def useSubmissionRing_def l1_clear_def set_cursor_def split: option.split prod.split)

lemma setDead_ring [simp]: "kRing (iLink (setDead True i)) = None" "vClosed (iLive (setDead d i)) = vClosed (iLive i)"
  by (simp_all add: setDead_def Let_def)

text \<open>After a degradation every open cache object knows, and stops using its ring.\<close>

lemma degrade_dead:
  assumes "\<not> rvDegraded (yRecov p)" "\<not> yPrimary p" "map_of (yInsts (degrade p)) n = Some i" "\<not> vClosed (iLive i)"
  shows "vDead (iLive i) \<and> kRing (iLink i) = None \<and> \<not> yReady (degrade p)"
proof -
  have "yInsts (degrade p) = yInsts (all_open (setDead True) p)"
    using assms(1,2) by (simp add: degrade_def Let_def all_open_def set_recov_def)
  then have "map_option (\<lambda>i. if vClosed (iLive i) then i else setDead True i) (map_of (yInsts p) n) = Some i"
    using assms(3) by simp
  then obtain j where "i = (if vClosed (iLive j) then j else setDead True j)" by auto
  then have "i = setDead True j" using assms(4) by (cases "vClosed (iLive j)") simp_all
  then show ?thesis using assms(1,2) by (simp add: degrade_def Let_def)
qed

end
