(* ===== verification/Write.thy ===== *)
theory Write
  imports Lifecycle
begin

text \<open>
  Writing (\<^verbatim>\<open>src/src/turbokv.js\<close>): \<open>set\<close> and \<open>setAsync\<close>, lines 2930 to 3222, \<open>delete\<close> and
  \<open>deleteAsync\<close>, 3320 to 3425, \<open>clearAll\<close> with the clear generation it opens, 3449 to 3542, and what
  a write queued for the shared store does when it is refused, 2501 to 2570 and 2849 to 2894. An
  operation is one of the process on one of its cache objects, \<open>n\<close>. The reaction to a promise of the
  queue is an operation of its own, \<open>queueSet_settled\<close> and \<open>queueClear_settled\<close>.

  The options are \<open>None\<close> when absent; the time to live is the number it coerces to, \<open>None\<close> when
  reading it throws. The answer of \<open>delete\<close> is \<open>None\<close> where the source returns undefined.
\<close>

record setOpts =
  soLevel :: numArg
  soTtl :: "numArg option"

definition inst_of :: "nat \<Rightarrow> proc \<Rightarrow> inst" where
  "inst_of n p = the (map_of (yInsts p) n)"

definition set_last :: "nat option \<Rightarrow> inst \<Rightarrow> inst" where
  "set_last x i = i\<lparr>iLastQ := x\<rparr>"

definition l1_at :: "(l1State \<Rightarrow> l1State) \<Rightarrow> inst \<Rightarrow> inst" where
  "l1_at f i = i\<lparr>iL1 := f (iL1 i)\<rparr>"

section \<open>The store behind\<close>

definition queue_op :: "env \<Rightarrow> qop \<Rightarrow> inst \<Rightarrow> nat option \<times> inst" where
  "queue_op e op i =
     (case iQueue i of
        None \<Rightarrow> (None, i)
      | Some q \<Rightarrow> (let (pid, q1) = push op (Some (eWall e)) q in (Some pid, i\<lparr>iQueue := Some q1\<rparr>)))"

definition set_op :: "jsstr \<Rightarrow> jsval \<Rightarrow> ms \<Rightarrow> nat \<Rightarrow> qop" where
  "set_op key enc ttl level =
     \<lparr>oKind = KSet, oKey = key, oValue = enc, oTtl = ttl, oWillCache = willCacheWrite level,
      oBytes = int (encodedBytes enc + length key + 48), oPid = 0, oSup = []\<rparr>"

definition delete_op :: "jsstr \<Rightarrow> qop" where
  "delete_op key =
     \<lparr>oKind = KDelete, oKey = key, oValue = VUndef, oTtl = 0, oWillCache = False,
      oBytes = int (length key + 48), oPid = 0, oSup = []\<rparr>"

definition clear_op :: qop where
  "clear_op =
     \<lparr>oKind = KClear, oKey = [], oValue = VUndef, oTtl = 0, oWillCache = False, oBytes = 0, oPid = 0, oSup = []\<rparr>"

definition queueSet :: "env \<Rightarrow> jsstr \<Rightarrow> jsval \<Rightarrow> ms \<Rightarrow> nat \<Rightarrow> inst \<Rightarrow> nat option \<times> inst" where
  "queueSet e key enc ttl level i =
     (if iQueue i = None then (None, i) else queue_op e (set_op key enc ttl level) (bump ''l3Sets'' i))"

text \<open>\<^verbatim>\<open>this.#lastQueued = \<close> the promise of the operation.\<close>

definition queued :: "(inst \<Rightarrow> nat option \<times> inst) \<Rightarrow> nat \<Rightarrow> proc \<Rightarrow> proc" where
  "queued f n p = upd_inst n (\<lambda>i. (let (x, i1) = f i in set_last x i1)) p"

definition capL2AfterL3Failure ::
    "(jsstr \<Rightarrow> hash option) \<Rightarrow> env \<Rightarrow> nat \<Rightarrow> jsstr \<Rightarrow> jsval \<Rightarrow> ms \<Rightarrow> proc \<Rightarrow> capResult \<times> proc" where
  "capL2AfterL3Failure HK e n key enc cap p =
     (if \<not> yReady p \<or> vDead (iLive (inst_of n p))
      then (Unable, upd_inst n (countCapLost ''l3FailTtlUnapplied'') p)
      else if gId (iCfg (inst_of n p)) = 0 then
        (let (r, a) = capArena HK (eFits e key) (eTick e) key enc cap (yArena p); p1 = p\<lparr>yArena := a\<rparr>
         in (r, if r = Capped then dropOthers key n p1 else p1))
      else (let p1 = upd_inst n (noteCap (env_in p e) (yArena p) key enc cap) p
            in (Capped, retimeOutbox e n key enc cap p1)))"

definition capAfterL3Failure ::
    "(jsstr \<Rightarrow> hash option) \<Rightarrow> env \<Rightarrow> nat \<Rightarrow> jsstr \<Rightarrow> jsval \<Rightarrow> ms \<Rightarrow> proc \<Rightarrow> proc" where
  "capAfterL3Failure HK e n key enc ttl p =
     (let failTtl = gFailTtl (iCfg (inst_of n p));
          cap = (if ttl > 0 then min ttl failTtl else failTtl);
          deadline = eMono e + cap;
          (applied, p1) =
            (case map_of (l1Map (iL1 (inst_of n p))) key of
               None \<Rightarrow> (False, p)
             | Some en \<Rightarrow>
                 if eExp en = 0 \<or> eExp en > deadline
                 then (True, upd_inst n (l1_at (l1_set key (en\<lparr>eExp := deadline\<rparr>))) p)
                 else (False, p));
          (r, p2) = capL2AfterL3Failure HK e n key enc cap p1
      in if r = Capped \<or> applied then upd_inst n (bump ''l3FailTtlApplied'') p2 else p2)"

definition queueSet_settled ::
    "(jsstr \<Rightarrow> hash option) \<Rightarrow> env \<Rightarrow> nat \<Rightarrow> jsstr \<Rightarrow> jsval \<Rightarrow> ms \<Rightarrow> nat \<Rightarrow> bool \<Rightarrow> proc \<Rightarrow> proc" where
  "queueSet_settled HK e n key enc ttl level okay p =
     (if gFailTtl (iCfg (inst_of n p)) > 0 \<and> level < 3 \<and> \<not> okay
      then capAfterL3Failure HK e n key enc ttl p else p)"

section \<open>Set\<close>

text \<open>The checks of the key and the value; \<open>Inl\<close> names the counter of the rejection.\<close>

definition check_key :: "nat \<Rightarrow> jsstr \<Rightarrow> string option" where
  "check_key keyMax key =
     (if byteLength key > keyMax then Some ''rejectedKey''
      else if length key = 0 then Some ''rejectedKey''
      else if hasLoneSurrogate key then Some ''rejectedKey''
      else None)"

definition accept_value :: "bool \<Rightarrow> jsval \<Rightarrow> string + jsval" where
  "accept_value noCodec v =
     (if noCodec then
        (case v of
           VUndef \<Rightarrow> Inl ''rejectedType''
         | VObj _ \<Rightarrow> Inl ''rejectedType''
         | VFun _ \<Rightarrow> Inl ''rejectedType''
         | VSym _ \<Rightarrow> Inl ''rejectedType''
         | VView b \<Rightarrow> Inr (VBuf b)
         | _ \<Rightarrow> Inr v)
      else Inr v)"

definition encode_value :: "codec option \<Rightarrow> jsval \<Rightarrow> string + jsval" where
  "encode_value codec v =
     (case codec of
        None \<Rightarrow> Inr v
      | Some c \<Rightarrow>
          (case cEncode c v of
             None \<Rightarrow> Inl ''rejectedType''
           | Some enc \<Rightarrow> (case enc of VStr _ \<Rightarrow> Inr enc | _ \<Rightarrow> Inl ''rejectedType'')))"

definition l1_value :: "cfg \<Rightarrow> jsval \<Rightarrow> jsval \<Rightarrow> jsval answer" where
  "l1_value g v enc =
     (if gCodec g \<noteq> None \<and> \<not> gL1Decoded g then Inr enc
      else if gCodec g \<noteq> None \<and> gIsolate g then decode_with g enc
      else Inr v)"

definition check_size :: "link \<Rightarrow> jsstr \<Rightarrow> jsval \<Rightarrow> string option" where
  "check_size l key enc =
     (if encodedBytes enc + length key + 48 > kMaxValue l then Some ''rejectedSize''
      else if kRing l \<noteq> None \<and> kRingMax l > 0 \<and> encodedBytes enc > kRingMax l then Some ''rejectedSize''
      else None)"

text \<open>A call that is answered before anything is written; the value of the process's tier, and the encoding.\<close>

definition prepare :: "inst \<Rightarrow> jsstr \<Rightarrow> jsval \<Rightarrow> string + (jsval \<times> jsval) answer" where
  "prepare i key v =
     (case check_key (gKeyMax (iCfg i)) key of
        Some c \<Rightarrow> Inl c
      | None \<Rightarrow>
          (case accept_value (cNoCodec (gL1 (iCfg i))) v of
             Inl c \<Rightarrow> Inl c
           | Inr w \<Rightarrow>
               (case encode_value (gCodec (iCfg i)) w of
                  Inl c \<Rightarrow> Inl c
                | Inr enc \<Rightarrow>
                    (case l1_value (iCfg i) w enc of
                       Inl x \<Rightarrow> Inr (Inl x)
                     | Inr lv \<Rightarrow>
                         (case check_size (iLink i) key enc of
                            Some c \<Rightarrow> Inl c
                          | None \<Rightarrow> Inr (Inr (lv, enc)))))))"

definition releaseMarks :: "jsstr \<Rightarrow> inst \<Rightarrow> inst" where
  "releaseMarks key i =
     i\<lparr>iCoh := (iCoh i)\<lparr>cDel := mk_release key (cDel (iCoh i)), cWrite := mk_release key (cWrite (iCoh i))\<rparr>\<rparr>"

definition markWrite :: "jsstr \<Rightarrow> hash \<Rightarrow> nat \<Rightarrow> int \<Rightarrow> nat \<Rightarrow> proc \<Rightarrow> proc" where
  "markWrite key h at' sub n p =
     (let (sq, m) = mk_mark key h at' sub (yMarkSeq p, cWrite (iCoh (inst_of n p)))
      in (upd_inst n (\<lambda>i. i\<lparr>iCoh := (iCoh i)\<lparr>cWrite := m\<rparr>\<rparr>) p)\<lparr>yMarkSeq := sq\<rparr>)"

definition markDelete :: "jsstr \<Rightarrow> hash \<Rightarrow> nat \<Rightarrow> int \<Rightarrow> nat \<Rightarrow> proc \<Rightarrow> proc" where
  "markDelete key h at' sub n p =
     (let (sq, m) = mk_mark key h at' sub (yMarkSeq p, cDel (iCoh (inst_of n p)))
      in (upd_inst n (\<lambda>i. i\<lparr>iCoh := (iCoh i)\<lparr>cDel := m\<rparr>\<rparr>) p)\<lparr>yMarkSeq := sq\<rparr>)"

definition set_l1 ::
    "(jsstr \<Rightarrow> hash option) \<Rightarrow> env \<Rightarrow> nat \<Rightarrow> jsstr \<Rightarrow> jsval \<Rightarrow> nat option \<Rightarrow> ms \<Rightarrow> nat \<Rightarrow> inst \<Rightarrow> inst" where
  "set_l1 HK e level key lv len ttl at' i =
     (if level = 1 then
        l1_at (l1Put (gL1 (iCfg i)) key lv (HK key) len
                 (if ttl > 0 then eMono e + ttl else 0) (if gId (iCfg i) = 0 then - 1 else int at')) i
      else l1_at (l1Drop key) i)"

text \<open>\<^verbatim>\<open>minLevel: 3\<close>: nothing is kept locally, so what the arena holds has to go.\<close>

definition set_evict :: "(jsstr \<Rightarrow> hash option) \<Rightarrow> env \<Rightarrow> nat \<Rightarrow> jsstr \<Rightarrow> nat \<Rightarrow> proc \<Rightarrow> proc" where
  "set_evict HK e at' key n p =
     (let i = inst_of n p
      in if gId (iCfg i) = 0 then dropOthers key n (snd (publishArenaDel HK key 0 p))
         else if vDead (iLive i) then p
         else if kRing (iLink i) \<noteq> None then
           (let (ok, p1) = publishRingDel HK e n (kRing (iLink i)) key p
            in if ok then markWrite key (hash_of HK key) at' (submitPosNow (yArena p1) (inst_of n p1)) n p1
               else upd_inst n (bump ''writesShed'') p1)
         else publishOutbox e n key (ODel key) (int (length key + 48))
                (markWrite key (hash_of HK key) at' (- 1) n p))"

definition set_primary :: "(jsstr \<Rightarrow> hash option) \<Rightarrow> env \<Rightarrow> nat \<Rightarrow> jsstr \<Rightarrow> jsval \<Rightarrow> ms \<Rightarrow> nat \<Rightarrow> proc \<Rightarrow> bool \<times> proc" where
  "set_primary HK e level key enc ttl n p =
     (let (ok, p1) = publishArenaSet HK e key enc 0 ttl p
      in if ok then (True, queued (queueSet e key enc ttl level) n (dropOthers key n p1))
         else (False, upd_inst n (\<lambda>i. l1_at (l1Drop key) (bump ''rejectedSize'' i)) p1))"

definition set_worker :: "(jsstr \<Rightarrow> hash option) \<Rightarrow> env \<Rightarrow> nat \<Rightarrow> nat \<Rightarrow> jsstr \<Rightarrow> jsval \<Rightarrow> ms \<Rightarrow> nat \<Rightarrow> proc \<Rightarrow> proc" where
  "set_worker HK e level at' key enc ttl n p =
     (let i = inst_of n p
      in queued (queueSet e key enc ttl level) n
           (if vDead (iLive i) then upd_inst n (bump ''writesShed'') p
            else if kRing (iLink i) \<noteq> None then
              (let (ok, p1) = publishRingSet HK e n (kRing (iLink i)) key enc ttl p
               in if ok then
                    (let p2 = upd_inst n (bump ''sent'') p1
                     in if level \<noteq> 1
                        then markWrite key (hash_of HK key) at' (submitPosNow (yArena p2) (inst_of n p2)) n p2
                        else p2)
                  else upd_inst n (bump ''writesShed'') p1)
            else publishOutbox e n key (OSet key enc ttl) (int (encodedBytes enc + length key + 48))
                   (if level \<noteq> 1 then markWrite key (hash_of HK key) at' (- 1) n p else p)))"

text \<open>The write itself, once every check has passed. Without any storage option the length of the
  encoding is read off the value itself, after the marks are gone, and null has none.\<close>

definition set_publish ::
    "(jsstr \<Rightarrow> hash option) \<Rightarrow> env \<Rightarrow> nat \<Rightarrow> nat \<Rightarrow> jsstr \<Rightarrow> jsval \<Rightarrow> ms \<Rightarrow> nat \<Rightarrow> proc \<Rightarrow> bool \<times> proc" where
  "set_publish HK e level at' key enc ttl n p =
     (if level = 3 then (True, queued (queueSet e key enc ttl level) n (set_evict HK e at' key n p))
      else if gId (iCfg (inst_of n p)) = 0 then set_primary HK e level key enc ttl n p
      else (True, set_worker HK e level at' key enc ttl n p))"

definition set_commit ::
    "(jsstr \<Rightarrow> hash option) \<Rightarrow> env \<Rightarrow> nat \<Rightarrow> jsstr \<Rightarrow> jsval \<Rightarrow> jsval \<Rightarrow> ms \<Rightarrow> nat \<Rightarrow> proc \<Rightarrow> bool answer \<times> proc" where
  "set_commit HK e level key lv enc ttl n p =
     (let i = inst_of n p;
          p1 = upd_inst n (releaseMarks key) p;
          at' = (if gId (iCfg i) = 0 then 0 else ringHeadNow (yReady p) (yArena p) i)
      in case (if level = 1 \<and> \<not> cNoCodec (gL1 (iCfg i)) then length_read enc else Inr (Some 0)) of
           Inl x \<Rightarrow> (Inl x, p1)
         | Inr len \<Rightarrow>
             (let (ok, p2) = set_publish HK e level at' key enc ttl n (upd_inst n (set_l1 HK e level key lv len ttl at') p1)
              in (Inr ok, p2)))"

definition set_body ::
    "(jsstr \<Rightarrow> hash option) \<Rightarrow> env \<Rightarrow> nat \<Rightarrow> jsstr \<Rightarrow> jsval \<Rightarrow> numArg option \<Rightarrow> nat \<Rightarrow> proc \<Rightarrow> bool answer \<times> proc" where
  "set_body HK e level key v ttlRead n p =
     (case ttlRead of
        None \<Rightarrow> (Inr False, p)
      | Some t \<Rightarrow>
          (case prepare (inst_of n p) key v of
             Inl c \<Rightarrow> (Inr False, upd_inst n (bump c) p)
           | Inr (Inl x) \<Rightarrow> (Inl x, p)
           | Inr (Inr (lv, enc)) \<Rightarrow>
               set_commit HK e level key lv enc (clampTtl t) n p))"

definition setKey ::
    "(jsstr \<Rightarrow> hash option) \<Rightarrow> env \<Rightarrow> jsval \<Rightarrow> jsval \<Rightarrow> setOpts option \<Rightarrow> nat \<Rightarrow> proc \<Rightarrow> bool answer \<times> proc" where
  "setKey HK e k v opts n p =
     (case (case opts of None \<Rightarrow> Inr 1 | Some o' \<Rightarrow> level_of (yReady p) (inst_of n p) (soLevel o')) of
        Inl x \<Rightarrow> (Inl x, p)
      | Inr level \<Rightarrow>
          (let p1 = upd_inst n (bump ''sets'') (check_at e n p)
           in case k of
                VStr key \<Rightarrow> set_body HK e level key v (case opts of None \<Rightarrow> Some (Num 0) | Some o' \<Rightarrow> soTtl o') n p1
              | _ \<Rightarrow> (Inr False, upd_inst n (bump ''rejectedKey'') p1)))"

text \<open>What an asynchronous form promises: an answer at once, or that of a promise of the queue.\<close>

datatype promised = Now bool | Await nat | Nothing

definition take_last :: "nat \<Rightarrow> proc \<Rightarrow> nat option \<times> proc" where
  "take_last n p = (iLastQ (inst_of n p), upd_inst n (set_last None) p)"

definition setAsync ::
    "(jsstr \<Rightarrow> hash option) \<Rightarrow> env \<Rightarrow> jsval \<Rightarrow> jsval \<Rightarrow> setOpts option \<Rightarrow> nat \<Rightarrow> proc \<Rightarrow> promised answer \<times> proc" where
  "setAsync HK e k v opts n p =
     (case setKey HK e k v opts n p of
        (Inl x, p1) \<Rightarrow> (Inl x, p1)
      | (Inr False, p1) \<Rightarrow> (Inr (Now False), p1)
      | (Inr True, p1) \<Rightarrow>
          (let (x, p2) = take_last n p1 in (Inr (case x of None \<Rightarrow> Now True | Some pid \<Rightarrow> Await pid), p2)))"

section \<open>Delete\<close>

definition delete_primary :: "(jsstr \<Rightarrow> hash option) \<Rightarrow> env \<Rightarrow> jsstr \<Rightarrow> nat \<Rightarrow> proc \<Rightarrow> bool \<times> proc" where
  "delete_primary HK e key n p =
     (let (had, p1) = publishArenaDel HK key 0 p;
          p2 = dropOthers key n (upd_inst n (l1_at (l1Drop key)) p1);
          i = inst_of n p2;
          p3 = (if iQueue i \<noteq> None \<and> yReady p2 \<and> \<not> vDead (iLive i)
                then upd_inst n (noteDeleted key (ringHead (yArena p2))) p2 else p2)
      in (had, queued (queue_op e (delete_op key)) n p3))"

definition delete_worker :: "(jsstr \<Rightarrow> hash option) \<Rightarrow> env \<Rightarrow> jsstr \<Rightarrow> nat \<Rightarrow> proc \<Rightarrow> bool option \<times> proc" where
  "delete_worker HK e key n p =
     (let i = inst_of n p;
          had = (if map_of (l1Map (iL1 i)) key \<noteq> None then Some True
                 else if yReady p then Some (n_has (eTick e) (yArena p) key) else None);
          p1 = upd_inst n (l1_at (l1Drop key)) p;
          p2 = (if vDead (iLive i) then p1
                else markDelete key (hash_of HK key) (ringHeadNow (yReady p) (yArena p) i) (- 1) n p1);
          p3 = queued (queue_op e (delete_op key)) n p2
      in (had,
          if kRing (iLink i) \<noteq> None then
            (let (ok, p4) = publishRingDel HK e n (kRing (iLink i)) key p3
             in if ok then p4
                else upd_inst n (\<lambda>i. (bump ''writesShed'' i)
                                       \<lparr>iCoh := (iCoh i)\<lparr>cDel := mk_release key (cDel (iCoh i))\<rparr>\<rparr>) p4)
          else publishOutbox e n key (ODel key) (int (length key + 48)) p3))"

definition delete :: "(jsstr \<Rightarrow> hash option) \<Rightarrow> env \<Rightarrow> jsval \<Rightarrow> nat \<Rightarrow> proc \<Rightarrow> bool option \<times> proc" where
  "delete HK e k n p =
     (let p1 = check_at e n p
      in case k of
           VStr key \<Rightarrow>
             (let p2 = upd_inst n (bump ''deletes'') p1
              in if gId (iCfg (inst_of n p2)) = 0
                 then (let (had, p3) = delete_primary HK e key n p2 in (Some had, p3))
                 else delete_worker HK e key n p2)
         | _ \<Rightarrow> (Some False, p1))"

definition deleteAsync :: "(jsstr \<Rightarrow> hash option) \<Rightarrow> env \<Rightarrow> jsval \<Rightarrow> nat \<Rightarrow> proc \<Rightarrow> promised \<times> proc" where
  "deleteAsync HK e k n p =
     (if \<not> isStringKey k then (Now False, p)
      else (let (had, p1) = delete HK e k n p; (x, p2) = take_last n p1
            in (case x of None \<Rightarrow> (case had of None \<Rightarrow> Nothing | Some b \<Rightarrow> Now b) | Some pid \<Rightarrow> Await pid, p2)))"

section \<open>Clear\<close>

definition openClearGen :: "env \<Rightarrow> nat \<Rightarrow> proc \<Rightarrow> proc" where
  "openClearGen e n p =
     (if gId (iCfg (inst_of n p)) = 0 then clearBegin p
      else publishOutboxOp e n OOpen False p)"

text \<open>The boolean says that a timer will chase what is still queued.\<close>

definition settleClearGen :: "env \<Rightarrow> bool \<Rightarrow> nat \<Rightarrow> proc \<Rightarrow> bool \<times> proc" where
  "settleClearGen e resend n p =
     (if gId (iCfg (inst_of n p)) = 0 then (False, clearSettle p)
      else (let p1 = (if resend then p else publishOutboxOp e n OSettle False p);
                p2 = flush_at e n p1
            in (kOut (iLink (inst_of n p2)) \<noteq> [] \<and> eSend e \<noteq> SendGone, p2)))"

definition queueClear_settled :: "env \<Rightarrow> nat \<Rightarrow> proc \<Rightarrow> bool \<times> proc" where
  "queueClear_settled e n p = settleClearGen e False n (p\<lparr>yClears := yClears p - 1\<rparr>)"

definition clearAll :: "env \<Rightarrow> nat \<Rightarrow> proc \<Rightarrow> proc" where
  "clearAll e n p =
     (let p1 = upd_inst n clearLocal p;
          p2 = (if iQueue (inst_of n p1) \<noteq> None
                then queued (queue_op e clear_op) n (openClearGen e n (p1\<lparr>yClears := yClears p1 + 1\<rparr>))
                else p1)
      in if gId (iCfg (inst_of n p2)) = 0 then clearOthers n (publishArenaClear 0 p2)
         else publishOutboxOp e n OClear True p2)"

end
