(* ===== verification/Primary.thy ===== *)
theory Primary
  imports Lifecycle
begin

text \<open>
  The primary's side (\<^verbatim>\<open>src/src/turbokv.js\<close>, lines 1119 to 1216, 3496 to 3656 and 4103 to 4160):
  draining the submission rings, invalidating the tiers of the primary's own cache objects from the
  ring, applying a worker's batch, and the clear generations that each attachment has opened.
\<close>

section \<open>The primary's own tiers\<close>

definition primary_record :: "ringRec \<Rightarrow> proc \<Rightarrow> proc" where
  "primary_record r p =
     (if rrHash r = FLUSH_ALL then all_open clearLocal p
      else if rrWriter r = 0 then p
      else all_open (dropByHash (rrHash r)) p)"

fun primary_rounds :: "nat \<Rightarrow> proc \<Rightarrow> proc" where
  "primary_rounds 0 p = p"
| "primary_rounds (Suc rounds) p =
     (let r = ringRead (yCursor p) 1024 (yArena p)
      in if rbWrapped r then (all_open dropCachedValues p)\<lparr>yCursor := rbHead r\<rparr>
         else (let p1 = (fold primary_record (rbRecs r) p)\<lparr>yCursor := rbHead r\<rparr>
               in if length (rbRecs r) < 1024 then p1 else primary_rounds rounds p1))"

definition primaryInvalidate :: "proc \<Rightarrow> proc" where
  "primaryInvalidate p = primary_rounds 64 p"

definition drainSubmissions :: "(jsstr \<Rightarrow> hash option) \<Rightarrow> env \<Rightarrow> nat \<Rightarrow> proc \<Rightarrow> nat \<times> proc" where
  "drainSubmissions HK e budget p =
     (if \<not> ySubmit p \<and> \<not> yReady p then (0, p)
      else if \<not> ySubmit p then (0, p)
      else (let (n, a) = submitDrain (hash_of HK) (eFits e) (eTick e) budget (yArena p);
                p1 = p\<lparr>yArena := a\<rparr>
            in (n, if n > 0 then primaryInvalidate p1 else p1)))"

text \<open>The loop that drains until nothing is left: at most 512 rounds of 8192 records.\<close>

fun drain_until_empty :: "(jsstr \<Rightarrow> hash option) \<Rightarrow> env \<Rightarrow> nat \<Rightarrow> proc \<Rightarrow> proc" where
  "drain_until_empty HK e 0 p = p"
| "drain_until_empty HK e (Suc rounds) p =
     (let (n, p1) = drainSubmissions HK e 8192 p in if n > 0 then drain_until_empty HK e rounds p1 else p1)"

section \<open>Clear generations\<close>

definition attachmentOf :: "cacheMsg \<Rightarrow> string option" where
  "attachmentOf m = (case gmNonce m of Some s \<Rightarrow> if s \<noteq> [] then Some s else None | None \<Rightarrow> None)"

definition owed_of :: "string \<Rightarrow> proc \<Rightarrow> nat" where
  "owed_of who p = (case map_of (yOwed p) who of None \<Rightarrow> 0 | Some n \<Rightarrow> n)"

definition l3ClearOpenFor :: "string \<Rightarrow> proc \<Rightarrow> proc" where
  "l3ClearOpenFor who p =
     clearBegin (p\<lparr>yOwed := AList.update who (owed_of who p + 1) (yOwed p)\<rparr>)"

definition l3ClearSettleFor :: "string \<Rightarrow> proc \<Rightarrow> bool \<times> proc" where
  "l3ClearSettleFor who p =
     (let owed = owed_of who p
      in if owed \<le> 0 then (False, p)
         else (True, clearSettle
                       (p\<lparr>yOwed := (if owed = 1 then AList.delete who (yOwed p) else AList.update who (owed - 1) (yOwed p))\<rparr>)))"

text \<open>\<^verbatim>\<open>releaseWorker\<close>: the loop runs as often as the attachment owes.\<close>

function release_loop :: "string \<Rightarrow> proc \<Rightarrow> nat \<times> proc" where
  "release_loop who p =
     (let (settled, p1) = l3ClearSettleFor who p
      in if settled then (let (n, p2) = release_loop who p1 in (n + 1, p2)) else (0, p1))"
  by pat_completeness auto
termination
proof (relation "measure (\<lambda>(who, p). owed_of who p)")
  fix who p x settled p1
  assume x: "x = l3ClearSettleFor who p" "(settled, p1) = x" and s: settled
  have "owed_of who p1 = owed_of who p - 1 \<and> owed_of who p > 0"
    using x s by (auto simp: l3ClearSettleFor_def clearSettle_def owed_of_def Let_def split: if_splits option.splits)
  then show "((who, p1), (who, p)) \<in> measure (\<lambda>(who, p). owed_of who p)" by simp
qed simp

declare release_loop.simps [simp del]

text \<open>\<open>None\<close> is an argument that is not an object: a thrown error.\<close>

definition releaseWorker :: "cacheMsg option \<Rightarrow> proc \<Rightarrow> (nat \<times> proc) option" where
  "releaseWorker who p =
     (case who of
        None \<Rightarrow> None
      | Some m \<Rightarrow> Some (case attachmentOf m of None \<Rightarrow> (0, p) | Some key \<Rightarrow> release_loop key p))"

section \<open>A batch\<close>

definition apply_op :: "(jsstr \<Rightarrow> hash option) \<Rightarrow> env \<Rightarrow> cacheMsg \<Rightarrow> obOp \<Rightarrow> proc \<Rightarrow> proc" where
  "apply_op HK e m op p =
     (case op of
        OSet key enc ttl \<Rightarrow> localDrop key (snd (publishArenaSet HK e key enc (gmId m) ttl p))
      | ODel key \<Rightarrow> localDrop key (snd (publishArenaDel HK key (gmId m) p))
      | ORetime key enc cap \<Rightarrow>
          (let (r, a) = (if yReady p then capArena HK (eFits e key) (eTick e) key enc cap (yArena p) else (Moot, yArena p)); p1 = p\<lparr>yArena := a\<rparr>
           in if r = Capped then localDrop key p1 else p1)
      | OClear \<Rightarrow> all_open clearLocal (publishArenaClear (gmId m) p)
      | OOpen \<Rightarrow> (case attachmentOf m of None \<Rightarrow> p | Some who \<Rightarrow> l3ClearOpenFor who p)
      | OSettle \<Rightarrow> (case attachmentOf m of None \<Rightarrow> p | Some who \<Rightarrow> snd (l3ClearSettleFor who p)))"

definition applyBatch :: "(jsstr \<Rightarrow> hash option) \<Rightarrow> env \<Rightarrow> cacheMsg \<Rightarrow> proc \<Rightarrow> proc" where
  "applyBatch HK e m p =
     fold (apply_op HK e m) (gmOps m) (if ySubmit p then drain_until_empty HK e 512 p else p)"

text \<open>What a channel of \<^verbatim>\<open>install\<close> does: a doorbell, a batch, the end of the worker. \<open>last\<close> is the
  name of the last batch's sender.\<close>

datatype channelEvent = Doorbell | Batch cacheMsg | Gone

fun on_channel :: "(jsstr \<Rightarrow> hash option) \<Rightarrow> env \<Rightarrow> channelEvent \<Rightarrow> cacheMsg option \<times> proc \<Rightarrow> cacheMsg option \<times> proc" where
  "on_channel HK e Doorbell (l, p) = (l, snd (drainSubmissions HK e 4096 p))"
| "on_channel HK e (Batch m) (l, p) = (Some (m\<lparr>gmOps := []\<rparr>), applyBatch HK e m p)"
| "on_channel HK e Gone (l, p) =
     (l, (case l of None \<Rightarrow> p | Some m \<Rightarrow> (case releaseWorker (Some m) p of None \<Rightarrow> p | Some (_, p1) \<Rightarrow> p1)))"

text \<open>One tick of the maintenance timer, up to the sweep: \<open>swept\<close> are the keys the slice covers.\<close>

definition maintenance_tick :: "(jsstr \<Rightarrow> hash option) \<Rightarrow> env \<Rightarrow> jsstr list \<Rightarrow> proc \<Rightarrow> proc" where
  "maintenance_tick HK e swept p =
     (let p1 = (if ySubmit p then snd (drainSubmissions HK e 8192 p) else p)
      in if yReady p1 then p1\<lparr>yArena := fold (\<lambda>key. n_sweep (hash_of HK key) (eTick e) key) swept (yArena p1)\<rparr> else p1)"

end
