(* ===== verification/Promote.thy ===== *)
theory Promote
  imports Write Primary
begin

text \<open>
  Reading through to the shared store (\<^verbatim>\<open>src/src/turbokv.js\<close>, lines 1866 to 1990, 2203 to 2491 and
  3284 to 3318): \<open>getAsync\<close>, the decision whether what came back may be placed locally
  (\<open>promotionBlock\<close>), the placement, and \<open>hasAsync\<close>. A read in flight is an entry of \<open>iReads\<close>, filed by
  level and key: the position of the invalidation ring and the clear generation when it began. The
  reply of the adapter is an argument of \<open>getAsync_done\<close>; a deadline that expires is a throw.
\<close>

datatype l3Reply = L3Threw | L3Absent | L3Rec jsval numArg

definition get_at ::
    "(jsstr \<Rightarrow> hash option) \<Rightarrow> env \<Rightarrow> jsval \<Rightarrow> numArg \<Rightarrow> nat \<Rightarrow> proc \<Rightarrow> jsval answer \<times> proc" where
  "get_at HK e k minLevel n p =
     (let (v, i, fired) = get HK (env_in p e) (mapped p) k minLevel (inst_of n p);
          p1 = upd_inst n (\<lambda>_. i) p
      in (v, if fired then degrade p1 else p1))"

definition has_at :: "(jsstr \<Rightarrow> hash option) \<Rightarrow> env \<Rightarrow> jsval \<Rightarrow> nat \<Rightarrow> proc \<Rightarrow> bool answer \<times> proc" where
  "has_at HK e k n p =
     (let (v, i, fired) = has HK (env_in p e) (mapped p) k (inst_of n p);
          p1 = upd_inst n (\<lambda>_. i) p
      in (v, if fired then degrade p1 else p1))"

section \<open>Starting a read\<close>

datatype asyncGet = Done jsval | Joined nat jsstr | Asked nat jsstr bool

definition clears_open :: "nat \<Rightarrow> proc \<Rightarrow> bool" where
  "clears_open n p \<longleftrightarrow> yClears p > 0 \<or> sharedClearsInFlight (yReady p) (yArena p) (inst_of n p) > 0"

definition start_fetch :: "nat \<Rightarrow> jsstr \<Rightarrow> nat \<Rightarrow> proc \<Rightarrow> asyncGet \<times> proc" where
  "start_fetch level key n p =
     (let i = inst_of n p;
          mark = (if yReady p \<and> \<not> vDead (iLive i) then int (ringHead (yArena p)) else - 1);
          clearMark = (if mark < 0 then 0 else aGen (yArena p))
      in (Asked level key (willCacheRead (yReady p) (vDead (iLive i)) level),
          upd_inst n (\<lambda>i. i\<lparr>iReads := AList.update (level, key) (mark, clearMark) (iReads i)\<rparr>) p))"

definition getAsync ::
    "(jsstr \<Rightarrow> hash option) \<Rightarrow> env \<Rightarrow> jsval \<Rightarrow> numArg \<Rightarrow> nat \<Rightarrow> proc \<Rightarrow> asyncGet answer \<times> proc" where
  "getAsync HK e k minLevel n p0 =
     (let (local, p) = get_at HK e k minLevel n p0
      in case local of
           Inl x \<Rightarrow> (Inl x, p)
         | Inr v \<Rightarrow>
             if v \<noteq> VUndef then (Inr (Done v), p)
             else if \<not> gHasL3 (iCfg (inst_of n p)) then (Inr (Done VUndef), p)
             else (case k of
                     VStr key \<Rightarrow>
                       if deletedHere (inst_of n p) key then (Inr (Done VUndef), p)
                       else (case level_of (yReady p) (inst_of n p) minLevel of
                               Inl x \<Rightarrow> (Inl x, p)
                             | Inr level \<Rightarrow>
                                 if clears_open n p then (Inr (Done VUndef), upd_inst n (bump ''l3Misses'') p)
                                 else if map_of (iReads (inst_of n p)) (level, key) \<noteq> None
                                 then (Inr (Joined level key), p)
                                 else (let (r, p1) = start_fetch level key n p in (Inr r, p1)))
                   | _ \<Rightarrow> (Inr (Done VUndef), p)))"

section \<open>May it be placed?\<close>

function ring_quiet :: "hash \<Rightarrow> nat \<Rightarrow> arena \<Rightarrow> bool" where
  "ring_quiet h cursor a =
     (let r = ringRead cursor 1024 a
      in if rbWrapped r then False
         else if list_ex (\<lambda>x. rrHash x = FLUSH_ALL \<or> rrHash x = h) (rbRecs r) then False
         else if rbHead r \<le> cursor \<or> rbHead r \<ge> rbRingHead r then True
         else ring_quiet h (rbHead r) a)"
  by pat_completeness auto
termination
  by (relation "measure (\<lambda>(h, cursor, a). ringHead a - cursor)") (auto simp: ringRead_def Let_def ringHead_def)

declare ring_quiet.simps [simp del]

definition promotionBlock ::
    "(jsstr \<Rightarrow> hash option) \<Rightarrow> env \<Rightarrow> nat \<Rightarrow> jsstr \<Rightarrow> int \<Rightarrow> nat \<Rightarrow> proc \<Rightarrow> string option \<times> proc" where
  "promotionBlock HK e n key mark clearMark p =
     (let i = inst_of n p;
          owed = (case iQueue i of None \<Rightarrow> None | Some q \<Rightarrow> outstandingKind q key)
      in if owed = Some KDelete \<or> mk_has (cDel (iCoh i)) key then (Some ''l3DeletedWhileReading'', p)
         else if (case map_of (cDeletedAt (iCoh i)) key of None \<Rightarrow> False | Some pos \<Rightarrow> int pos > mark)
         then (Some ''l3DeletedWhileReading'', p)
         else if yClears p > 0 then (Some ''l3ClearedWhileReading'', p)
         else if mark \<ge> 0 \<and> yReady p \<and> \<not> vDead (iLive i) \<and>
                 (sharedClearsInFlight (yReady p) (yArena p) i > 0 \<or> aGen (yArena p) \<noteq> clearMark)
         then (Some ''l3ClearedWhileReading'', p)
         else if owed = Some KSet then (Some ''l3PromotionsBlockedSelf'', p)
         else if gId (iCfg i) \<noteq> 0 \<and>
                 ((case map_of (l1Map (iL1 i)) key of None \<Rightarrow> False | Some mine \<Rightarrow> eOwnAt mine \<ge> 0) \<or>
                  mk_has (cWrite (iCoh i)) key)
         then (Some ''l3PromotionsBlockedSelf'', p)
         else if mark < 0 \<or> \<not> yReady p \<or> vDead (iLive i) then (Some ''l3PromotionsBlocked'', p)
         else (let p1 = (if gId (iCfg i) = 0 \<and> ySubmit p then drain_until_empty HK e 512 p else p)
               in case HK key of
                    None \<Rightarrow> (Some ''l3UnhashableKeys'', p1)
                  | Some h \<Rightarrow>
                      (if ring_quiet h (nat mark) (yArena p1) then None else Some ''l3PromotionsBlocked'', p1)))"

section \<open>What came back\<close>

text \<open>\<^verbatim>\<open>#acceptFromL3\<close>: what the arena stores and what the caller is handed; \<open>None\<close> where it throws.\<close>

definition acceptFromL3 :: "cfg \<Rightarrow> jsval \<Rightarrow> (jsval \<times> jsval) option" where
  "acceptFromL3 g raw =
     (case gCodec g of
        None \<Rightarrow>
          (case raw of
             VView b \<Rightarrow> Some (VBuf b, VBuf b)
           | VUndef \<Rightarrow> None
           | VObj _ \<Rightarrow> None
           | VFun _ \<Rightarrow> None
           | VSym _ \<Rightarrow> None
           | _ \<Rightarrow> Some (raw, raw))
      | Some c \<Rightarrow> (case raw of VStr _ \<Rightarrow> map_option (\<lambda>v. (raw, v)) (cDecode c raw) | _ \<Rightarrow> None))"

definition fillFromL3 ::
    "(jsstr \<Rightarrow> hash option) \<Rightarrow> env \<Rightarrow> nat \<Rightarrow> jsstr \<Rightarrow> numArg \<Rightarrow> nat \<Rightarrow> jsval \<Rightarrow> jsval \<Rightarrow> proc \<Rightarrow> unit answer \<times> proc" where
  "fillFromL3 HK e n key ttl level enc v p =
     (let g = iCfg (inst_of n p);
          cap = l3Ttl (gL3Ttl g) ttl;
          p1 = (if level \<le> 2 then snd (publishL3Derived HK e key enc cap n (gId g) p) else p)
      in if level = 1 then
           (case (if cNoCodec (gL1 g) then Inr (Some 0) else length_read enc) of
              Inl x \<Rightarrow> (Inl x, p1)
            | Inr len \<Rightarrow>
                (Inr (), upd_inst n (l1_at (l1Put (gL1 g) key (if gCodec g \<noteq> None \<and> \<not> gL1Decoded g then enc else v)
                                              (HK key) len (if cap \<noteq> 0 then eMono e + cap else 0) (- 1))) p1))
         else (Inr (), p1))"

definition answer_only :: "string \<Rightarrow> bool" where
  "answer_only why \<longleftrightarrow> why = ''l3DeletedWhileReading'' \<or> why = ''l3ClearedWhileReading''"

definition fetched ::
    "(jsstr \<Rightarrow> hash option) \<Rightarrow> env \<Rightarrow> nat \<Rightarrow> nat \<Rightarrow> jsstr \<Rightarrow> int \<Rightarrow> nat \<Rightarrow> l3Reply \<Rightarrow> proc \<Rightarrow> jsval answer \<times> proc" where
  "fetched HK e n level key mark clearMark reply p =
     (case reply of
        L3Rec raw ttl \<Rightarrow>
          (case acceptFromL3 (iCfg (inst_of n p)) raw of
             None \<Rightarrow> (Inr VUndef, upd_inst n (bump ''l3BadValues'') (upd_inst n (bump ''l3Misses'') p))
           | Some (enc, v) \<Rightarrow>
               (let (why, p1) = promotionBlock HK e n key mark clearMark (upd_inst n (bump ''l3Hits'') p)
                in case why of
                     Some w \<Rightarrow> (Inr (if answer_only w then VUndef else v), upd_inst n (bump w) p1)
                   | None \<Rightarrow>
                       (case fillFromL3 HK e n key ttl level enc v p1 of
                          (Inl x, p2) \<Rightarrow> (Inl x, p2)
                        | (Inr _, p2) \<Rightarrow> (Inr v, p2))))
      | _ \<Rightarrow> (Inr VUndef, upd_inst n (bump ''l3Misses'') p))"

text \<open>The end of a read: its entry goes, whatever the outcome.\<close>

definition getAsync_done ::
    "(jsstr \<Rightarrow> hash option) \<Rightarrow> env \<Rightarrow> nat \<Rightarrow> nat \<Rightarrow> jsstr \<Rightarrow> l3Reply \<Rightarrow> proc \<Rightarrow> (jsval answer \<times> proc) option" where
  "getAsync_done HK e n level key reply p =
     (case map_of (iReads (inst_of n p)) (level, key) of
        None \<Rightarrow> None
      | Some (mark, clearMark) \<Rightarrow>
          (let (v, p1) = fetched HK e n level key mark clearMark reply p
           in Some (v, upd_inst n (\<lambda>i. i\<lparr>iReads := AList.delete (level, key) (iReads i)\<rparr>) p1)))"

section \<open>Existence\<close>

datatype asyncHas = HasDone bool | HasAsked jsstr

definition hasAsync ::
    "(jsstr \<Rightarrow> hash option) \<Rightarrow> env \<Rightarrow> jsval \<Rightarrow> nat \<Rightarrow> proc \<Rightarrow> asyncHas answer \<times> proc" where
  "hasAsync HK e k n p0 =
     (let (here, p) = has_at HK e k n p0
      in case here of
           Inl x \<Rightarrow> (Inl x, p)
         | Inr True \<Rightarrow> (Inr (HasDone True), p)
         | Inr False \<Rightarrow>
             if \<not> gHasL3 (iCfg (inst_of n p)) \<or> clears_open n p then (Inr (HasDone False), p)
             else (case k of
                     VStr key \<Rightarrow>
                       (Inr (if deletedHere (inst_of n p) key then HasDone False else HasAsked key), p)
                   | _ \<Rightarrow> (Inr (HasDone False), p)))"

text \<open>The reply of \<^verbatim>\<open>has\<close>, where the adapter has one, or of \<^verbatim>\<open>get\<close>; \<open>None\<close> when it failed.\<close>

definition hasAsync_done :: "jsval option + l3Reply \<Rightarrow> bool" where
  "hasAsync_done reply =
     (case reply of
        Inl r \<Rightarrow> r = Some (VBool True)
      | Inr r \<Rightarrow> (case r of L3Rec _ _ \<Rightarrow> True | _ \<Rightarrow> False))"

end
