(* ===== verification/Upkeep.thy ===== *)
theory Upkeep
  imports Promote
begin

text \<open>
  The end of a cache object (\<^verbatim>\<open>src/src/turbokv.js\<close>, lines 3657 to 3700 and 3775 to 3921), the
  enumeration of the arena's keys, and the size of a maintenance slice (3706 to 3718). \<open>close\<close> is in the
  steps its promise takes: the local half at once, then the queue told to stop once it is drained or the
  bound has expired, then the adapter. The slots of the arena's index are the keys that \<^verbatim>\<open>ScanKeys\<close> of
  \<^verbatim>\<open>src/src/binding.cc\<close> answers with, \<open>None\<close> for a slot it passes over.
\<close>

section \<open>Closing\<close>

text \<open>The first boolean says that the process's submission ring was released, the second that the
  arena was destroyed.\<close>

definition usesRing :: "inst \<Rightarrow> bool" where
  "usesRing i \<longleftrightarrow> kRing (iLink i) \<noteq> None"

definition shut :: "inst \<Rightarrow> inst" where
  "shut i =
     (let i1 = stopCapTimer (set_caps [] (fold capEntryUnconfirmed (jskeys (pMap (iCaps i))) i))
      in i1\<lparr>iLive := (iLive i1)\<lparr>vClosed := True\<rparr>, iLink := (iLink i1)\<lparr>kRing := None\<rparr>\<rparr>)"

definition closeLocal :: "nat \<Rightarrow> proc \<Rightarrow> bool \<times> bool \<times> proc" where
  "closeLocal n p =
     (let p1 = upd_inst n shut p;
          p2 = (if open_insts p1 = [] \<and> rvTimer (yRecov p1)
                then set_recov (\<lambda>r. r\<lparr>rvTimer := False, rvDegraded := False\<rparr>) p1 else p1);
          released = (\<not> list_ex (\<lambda>(_, i). \<not> vClosed (iLive i) \<and> usesRing i) (yInsts p2))
      in if gId (iCfg (inst_of n p)) = 0 \<and> yReady p2
         then (released, True, p2\<lparr>ySubmit := False, yPrimary := False, yReady := False\<rparr>)
         else (released, False, p2))"

definition on_queue :: "(queue \<Rightarrow> queue) \<Rightarrow> inst \<Rightarrow> inst" where
  "on_queue f i = i\<lparr>iQueue := map_option f (iQueue i)\<rparr>"

definition close :: "nat \<Rightarrow> nat \<Rightarrow> proc \<Rightarrow> proc" where
  "close w n p =
     (if vClosed (iLive (inst_of n p)) then p
      else upd_inst n (on_queue (queue_drain w)) (snd (snd (closeLocal n p))))"

definition close_drained :: "nat \<Rightarrow> proc \<Rightarrow> proc" where
  "close_drained n p = upd_inst n (on_queue queue_close) p"

definition close_done :: "nat \<Rightarrow> proc \<Rightarrow> proc" where
  "close_done n p = upd_inst n (\<lambda>i. i\<lparr>iReads := []\<rparr>) p"

definition clearAsync :: "env \<Rightarrow> nat \<Rightarrow> proc \<Rightarrow> promised \<times> proc" where
  "clearAsync e n p =
     (let (x, p1) = take_last n (clearAll e n p) in (case x of None \<Rightarrow> Now True | Some pid \<Rightarrow> Await pid, p1))"

section \<open>Enumeration\<close>

fun scan_slots :: "nat \<Rightarrow> jsstr option list \<Rightarrow> jsstr list \<times> nat" where
  "scan_slots m [] = ([], 0)"
| "scan_slots 0 slots = ([], 0)"
| "scan_slots (Suc m) (None # slots) = (let (ks, n) = scan_slots (Suc m) slots in (ks, n + 1))"
| "scan_slots (Suc m) (Some k # slots) = (let (ks, n) = scan_slots m slots in (k # ks, n + 1))"

record scanBatch =
  saKeys :: "jsstr list"
  saDone :: bool
  saCursor :: nat

definition scanKeys :: "jsstr option list \<Rightarrow> nat \<Rightarrow> int \<Rightarrow> scanBatch" where
  "scanKeys slots cursor max' =
     (let m = (if max' \<le> 0 \<or> max' > 10000 then 10000 else nat max');
          (ks, n) = scan_slots m (drop cursor slots)
      in \<lparr>saKeys = ks, saDone = (cursor + n \<ge> length slots), saCursor = cursor + n\<rparr>)"

text \<open>The inner loop of \<open>keys\<close>: what it yields, the count, and whether the limit ended it.\<close>

fun yield_keys :: "nat \<Rightarrow> nat \<Rightarrow> jsstr list \<Rightarrow> jsstr list \<times> nat \<times> bool" where
  "yield_keys limit yielded [] = ([], yielded, False)"
| "yield_keys limit yielded (k # ks) =
     (if yielded \<ge> limit then ([], yielded + 1, True)
      else (let (r, y, stop) = yield_keys limit (yielded + 1) ks in (k # r, y, stop)))"

partial_function (option) keys_loop :: "jsstr option list \<Rightarrow> nat \<Rightarrow> int \<Rightarrow> nat \<Rightarrow> nat \<Rightarrow> jsstr list option" where
  "keys_loop slots limit batch cursor yielded =
     (let r = scanKeys slots cursor batch
      in case yield_keys limit yielded (saKeys r) of (out, y, stop) \<Rightarrow>
           if stop \<or> saDone r then Some out
           else Option.bind (keys_loop slots limit batch (saCursor r) y) (\<lambda>rest. Some (out @ rest)))"

definition keys :: "jsstr option list \<Rightarrow> nat \<Rightarrow> int \<Rightarrow> jsstr list option" where
  "keys slots limit batch = keys_loop slots limit batch 0 0"

section \<open>Maintenance\<close>

definition or_default :: "rat \<Rightarrow> rat \<Rightarrow> rat" where
  "or_default x d = (if x = 0 then d else x)"

definition sweep_slice :: "nat \<Rightarrow> rat \<Rightarrow> rat \<Rightarrow> int \<Rightarrow> int" where
  "sweep_slice slots0 maintenanceMs sweepFullPassMs sweepSlots =
     (let everyMs = or_default maintenanceMs 500; fullPassMs = or_default sweepFullPassMs 30000;
          slots = (if slots0 = 0 then 65536 else slots0)
      in if sweepSlots \<noteq> 0 then sweepSlots
         else max 1024 \<lceil>of_nat slots / max 1 (fullPassMs / everyMs)\<rceil>)"

section \<open>Lemmas\<close>

lemma scan_slots_some: "scan_slots m slots = (ks, n) \<Longrightarrow> ks = List.map the (filter (\<lambda>x. x \<noteq> None) (take n slots)) \<and>
  n \<le> length slots \<and> (0 < m \<and> slots \<noteq> [] \<longrightarrow> 0 < n)"
proof (induction m slots arbitrary: ks n rule: scan_slots.induct)
  case (3 m slots)
  obtain ks' n' where "scan_slots (Suc m) slots = (ks', n')" by force
  then show ?case using 3(1) [of ks' n'] 3(2) by auto
next
  case (4 m k slots)
  obtain ks' n' where "scan_slots m slots = (ks', n')" by force
  then show ?case using 4(1) [of ks' n'] 4(2) by auto
qed auto

lemma scanKeys_some:
  assumes "r = scanKeys slots cursor batch" "cursor \<le> length slots"
  shows "saKeys r = List.map the (filter (\<lambda>x. x \<noteq> None) (take (saCursor r - cursor) (drop cursor slots)))"
    and "cursor \<le> saCursor r" "saCursor r \<le> length slots" "saDone r \<longleftrightarrow> saCursor r = length slots"
    and "\<not> saDone r \<Longrightarrow> cursor < saCursor r"
proof -
  let ?m = "if batch \<le> 0 \<or> batch > 10000 then 10000 else nat batch"
  obtain ks n where s: "scan_slots ?m (drop cursor slots) = (ks, n)" by force
  have m: "0 < ?m" by simp
  have r: "r = \<lparr>saKeys = ks, saDone = (cursor + n \<ge> length slots), saCursor = cursor + n\<rparr>"
    using assms(1) s by (simp add: scanKeys_def Let_def)
  note f = scan_slots_some [OF s]
  show "saKeys r = List.map the (filter (\<lambda>x. x \<noteq> None) (take (saCursor r - cursor) (drop cursor slots)))"
    "cursor \<le> saCursor r" "saCursor r \<le> length slots" "saDone r \<longleftrightarrow> saCursor r = length slots"
    using f r assms(2) by auto
  show "cursor < saCursor r" if "\<not> saDone r" using that f m r by auto
qed

lemma yield_keys_take:
  "yield_keys limit y ks =
     (take (limit - y) ks, y + length (take (Suc (limit - y)) ks), limit - y < length ks)"
  by (induction limit y ks rule: yield_keys.induct) (auto simp: Let_def Suc_diff_le take_Cons' not_le)

end
