(* ===== verification/ProcInv.thy ===== *)
theory ProcInv
  imports Upkeep L3QueueProps
begin

text \<open>
  The invariant of a process and that every operation keeps it: each cache object is well formed
  (\<open>inst_ok\<close>), its guard entries are bounded and have a timer, the bytes in flight are those of the
  messages on the wire, its queue is a queue that operations of the queue produced, and every mark
  is no newer than the counter of the process. The relation \<open>proc_step\<close> holds the operations, as
  the calls and the events make them.
\<close>

named_theorems good_intros

section \<open>Well-formed parts\<close>

definition wire_bytes :: "(obOp list \<times> int \<times> jsstr list \<times> nat) list \<Rightarrow> int" where
  "wire_bytes w = sum_list (List.map (\<lambda>(_, n, _, _). n) w)"

definition link_ok :: "link \<Rightarrow> bool" where
  "link_ok l \<longleftrightarrow> 0 \<le> kOutBytes l \<and> list_all (\<lambda>(_, n, _, _). 0 \<le> n) (kWire l) \<and> kFlight l = wire_bytes (kWire l)"

definition caps_ok :: "caps \<Rightarrow> bool" where
  "caps_ok c \<longleftrightarrow> wf_map (pMap c) \<and> length (pMap c) \<le> L3_CAP_MAX \<and> (pMap c \<noteq> [] \<longrightarrow> pTimer c)"

definition queue_ok :: "queue option \<Rightarrow> bool" where
  "queue_ok x = (case x of None \<Rightarrow> True | Some q \<Rightarrow> \<exists>m r. queue_reach m r q)"

definition marks_old :: "nat \<Rightarrow> pendingMarks \<Rightarrow> bool" where
  "marks_old sq m \<longleftrightarrow> (\<forall>k r. map_of (byKey m) k = Some r \<longrightarrow> mSeq r \<le> sq)"

definition good :: "(jsstr \<Rightarrow> hash option) \<Rightarrow> nat \<Rightarrow> inst \<Rightarrow> bool" where
  "good HK sq i \<longleftrightarrow>
     inst_ok HK i \<and> caps_ok (iCaps i) \<and> link_ok (iLink i) \<and> queue_ok (iQueue i) \<and>
     marks_old sq (cDel (iCoh i)) \<and> marks_old sq (cWrite (iCoh i))"

definition proc_ok :: "(jsstr \<Rightarrow> hash option) \<Rightarrow> proc \<Rightarrow> bool" where
  "proc_ok HK p \<longleftrightarrow> wf_map (yInsts p) \<and> (\<forall>n i. map_of (yInsts p) n = Some i \<longrightarrow> good HK (yMarkSeq p) i)"

lemma goodD:
  "good HK sq i \<Longrightarrow> inst_ok HK i" "good HK sq i \<Longrightarrow> caps_ok (iCaps i)" "good HK sq i \<Longrightarrow> link_ok (iLink i)"
  "good HK sq i \<Longrightarrow> queue_ok (iQueue i)" "good HK sq i \<Longrightarrow> marks_old sq (cDel (iCoh i))"
  "good HK sq i \<Longrightarrow> marks_old sq (cWrite (iCoh i))"
  by (simp_all add: good_def)

lemma good_later: "good HK s i \<Longrightarrow> s \<le> t \<Longrightarrow> good HK t i"
  by (force simp: good_def marks_old_def)

text \<open>An object whose parts are as before.\<close>

lemma good_same:
  assumes "good HK sq i" "inst_ok HK i \<Longrightarrow> inst_ok HK j" "caps_ok (iCaps i) \<Longrightarrow> caps_ok (iCaps j)"
    and "link_ok (iLink i) \<Longrightarrow> link_ok (iLink j)" "iQueue j = iQueue i" "cDel (iCoh j) = cDel (iCoh i)"
    and "cWrite (iCoh j) = cWrite (iCoh i)"
  shows "good HK sq j"
  using assms by (simp add: good_def)

lemma marks_old_fewer:
  assumes "marks_old sq m" "\<And>k r. map_of (byKey m') k = Some r \<Longrightarrow> map_of (byKey m) k = Some r"
  shows "marks_old sq m'"
  using assms by (auto simp: marks_old_def)

lemma marks_old_simps [simp]:
  "marks_old sq (mk_clear m)" "marks_old sq m \<Longrightarrow> marks_old sq (mk_release k m)"
  "marks_old sq m \<Longrightarrow> marks_old sq (mk_releaseUpTo k n m)" "marks_old sq m \<Longrightarrow> marks_old sq (mk_touch k m)"
  "marks_old sq empty_marks"
  by (auto simp: marks_old_def mk_releaseUpTo_lookup empty_marks_def split: if_splits)

lemma inst_ok_parts:
  "inst_ok HK i \<Longrightarrow> iL1 j = iL1 i \<Longrightarrow> iCoh j = iCoh i \<Longrightarrow> inst_ok HK j"
  by (simp add: inst_ok_def)

section \<open>The operations of one object\<close>

lemma bump_good [good_intros]: "good HK sq i \<Longrightarrow> good HK sq (bump c i)"
  by (erule good_same) (auto simp: inst_ok_def)

lemma add_stat_good [good_intros]: "good HK sq i \<Longrightarrow> good HK sq (add_stat c n i)"
  by (erule good_same) (auto simp: inst_ok_def)

lemma stats_l1_good:
  "good HK sq i \<Longrightarrow> l1_inv HK s \<Longrightarrow> good HK sq (i\<lparr>iL1 := s\<rparr>)"
  by (erule good_same) (auto simp: inst_ok_def)

lemma good_l1: "good HK sq i \<Longrightarrow> l1_inv HK (iL1 i)"
  by (simp add: good_def inst_ok_def)

lemma l1Drop_good [good_intros]: "good HK sq i \<Longrightarrow> good HK sq (i\<lparr>iL1 := l1Drop key (iL1 i)\<rparr>)"
  by (rule stats_l1_good) (simp_all add: good_l1 l1Drop_inv)

lemma l1_at_good [good_intros]:
  "good HK sq i \<Longrightarrow> (l1_inv HK (iL1 i) \<Longrightarrow> l1_inv HK (f (iL1 i))) \<Longrightarrow> good HK sq (l1_at f i)"
  unfolding l1_at_def by (rule stats_l1_good) (simp_all add: good_l1)

lemma dropCachedValues_good [good_intros]: "good HK sq i \<Longrightarrow> good HK sq (dropCachedValues i)"
  unfolding dropCachedValues_def by (rule stats_l1_good) (simp_all add: l1_clear_inv)

lemma caps_ok_Nil [simp]: "pMap c = [] \<Longrightarrow> caps_ok c"
  by (simp add: caps_ok_def)

lemma clearLocal_good [good_intros]: "good HK sq i \<Longrightarrow> good HK sq (clearLocal i)"
  by (simp add: good_def clearLocal_ok)

lemma setDead_link: "iLink (setDead d i) = (if d then (iLink i)\<lparr>kRing := None\<rparr> else iLink i)"
  by (cases d) (simp_all add: setDead_def Let_def)

lemma setDead_good [good_intros]: "good HK sq i \<Longrightarrow> good HK sq (setDead d i)"
  by (simp add: good_def inst_ok_def setDead_link link_ok_def)

lemma caps_ok_delete: "caps_ok c \<Longrightarrow> caps_ok (c\<lparr>pMap := AList.delete k (pMap c)\<rparr>)"
  using le_trans [OF length_delete_le [of k "pMap c"], of L3_CAP_MAX] by (auto simp: caps_ok_def)

lemma cancelCap_good [good_intros]: "good HK sq i \<Longrightarrow> good HK sq (cancelCap k i)"
  by (erule good_same) (simp_all add: inst_ok_def, simp add: cancelCap_def caps_ok_delete)

lemma cancelOwnCaps_good [good_intros]: "good HK sq i \<Longrightarrow> good HK sq (cancelOwnCaps i)"
  by (erule good_same) (auto simp: inst_ok_def)

lemma dropByHash_good [good_intros]: "good HK sq i \<Longrightarrow> good HK sq (dropByHash h i)"
  by (erule good_same) (auto simp: inst_ok_def dropByHash_inv)

lemma noteDeleted_good [good_intros]: "good HK sq i \<Longrightarrow> good HK sq (noteDeleted k pos i)"
  by (erule good_same) (auto simp: inst_ok_def noteDeleted_ok)

lemma coh_counters_good:
  "good HK sq i \<Longrightarrow> good HK sq (i\<lparr>iCoh := (iCoh i)\<lparr>cOwedDel := n\<rparr>\<rparr>)"
  "good HK sq i \<Longrightarrow> good HK sq (i\<lparr>iCoh := (iCoh i)\<lparr>cOwedWrite := n\<rparr>\<rparr>)"
  "good HK sq i \<Longrightarrow> good HK sq (set_cursor c i)"
  by (erule good_same; auto simp: inst_ok_def coh_ok_def set_cursor_def)+

lemma checkPrimary_link [simp]: "link_ok (iLink i) \<Longrightarrow> link_ok (iLink (fst (checkPrimary e i)))"
  by (simp add: checkPrimary_def Let_def setDead_link link_ok_def)

lemma checkPrimary_good [good_intros]: "good HK sq i \<Longrightarrow> good HK sq (fst (checkPrimary e i))"
  by (erule good_same) (auto simp: inst_ok_def)

lemma reconcileWrites_good [good_intros]: "good HK sq i \<Longrightarrow> good HK sq (reconcileWrites a i)"
proof -
  assume g: "good HK sq i"
  have "marks_old sq (cWrite (iCoh (reconcileWrites a i)))"
    by (rule marks_old_fewer [OF goodD(6) [OF g]]) (auto simp: reconcileWrites_lookup split: option.splits if_splits)
  then show ?thesis using g by (simp add: good_def reconcileWrites_ok)
qed

lemma reconcileRemovals_good [good_intros]: "good HK sq i \<Longrightarrow> good HK sq (reconcileRemovals n a h i)"
proof -
  assume g: "good HK sq i"
  have "marks_old sq (cDel (iCoh (reconcileRemovals n a h i)))"
    by (rule marks_old_fewer [OF goodD(5) [OF g]]) (auto simp: reconcileRemovals_lookup split: option.splits if_splits)
  then show ?thesis using g by (simp add: good_def reconcileRemovals_ok)
qed

lemma drain_record_good [good_intros]: "good HK sq i \<Longrightarrow> good HK sq (drain_record h p i)"
  by (simp add: good_def drain_record_ok drain_record_marks split: option.split)

lemma drain_records_good [good_intros]: "good HK sq i \<Longrightarrow> good HK sq (fst (drain_records p rs i))"
  by (induction p rs i rule: drain_records.induct) (simp_all add: drain_record_good clearLocal_good)

lemma drain_wrapped_good [good_intros]:
  assumes "good HK sq i"
  shows "good HK sq (drain_wrapped n a h i)"
proof -
  let ?i2 = "(dropCachedValues i)\<lparr>iCoh := (iCoh (dropCachedValues i))
    \<lparr>cOwedWrite := int (mk_size (cWrite (iCoh (dropCachedValues i))))\<rparr>\<rparr>"
  let ?i3 = "if cOwedWrite (iCoh ?i2) \<noteq> 0 then reconcileWrites a ?i2 else ?i2"
  let ?i4 = "?i3\<lparr>iCoh := (iCoh ?i3)\<lparr>cOwedDel := int (mk_size (cDel (iCoh ?i3)))\<rparr>\<rparr>"
  have 2: "good HK sq ?i2" using assms by (intro coh_counters_good(2) dropCachedValues_good)
  have 3: "good HK sq ?i3" using 2 reconcileWrites_good [OF 2] by (cases "cOwedWrite (iCoh ?i2) \<noteq> 0") simp_all
  have 4: "good HK sq ?i4" using 3 by (rule coh_counters_good(1))
  have "good HK sq (if cOwedDel (iCoh ?i4) \<noteq> 0 then reconcileRemovals n a h ?i4 else ?i4)"
    using 4 reconcileRemovals_good [OF 4] by (cases "cOwedDel (iCoh ?i4) \<noteq> 0") simp_all
  then show ?thesis unfolding drain_wrapped_def Let_def by (rule coh_counters_good(3))
qed

lemma drain_good [good_intros]: "good HK sq i \<Longrightarrow> good HK sq (fst (drain e a i))"
proof -
  assume g: "good HK sq i"
  have "good HK sq (drain_ring n a j)" if j: "good HK sq j" for n j
  proof -
    have "good HK sq (drain_owed n a j)"
      using j by (simp add: drain_owed_def Let_def reconcileRemovals_good reconcileWrites_good)
    then show ?thesis by (simp add: drain_ring_def Let_def drain_wrapped_good coh_counters_good(3) drain_records_good)
  qed
  then show ?thesis
    using g checkPrimary_good [OF g, of e] by (simp add: drain_def case_prod_beta split: prod.split)
qed

lemma fill_from_l2_good [good_intros]: "good HK sq i \<Longrightarrow> good HK sq (snd (fill_from_l2 HK e lv key raw rem i))"
  by (auto simp: fill_from_l2_def Let_def good_l1 l1Put_inv intro!: stats_l1_good split: option.splits sum.splits if_splits)

lemma get_l2_good [good_intros]: "good HK sq i \<Longrightarrow> good HK sq (snd (get_l2 HK e a lv key i))"
  by (simp add: get_l2_def bump_good fill_from_l2_good split: option.split)

lemma get_drained_good [good_intros]: "good HK sq i \<Longrightarrow> good HK sq (snd (get_drained HK e a lv key i))"
  using stats_l1_good [of HK sq i "l1_hit key (iL1 i)"]
  by (simp add: get_drained_def get_l2_good l1Drop_good bump_good good_l1 l1_hit_inv split: option.split)

lemma get_good [good_intros]:
  assumes "good HK sq i"
  shows "good HK sq (fst (snd (get HK e a k lv i)))"
proof -
  have "good HK sq (snd (get_drained HK e a level key (fst (drain e a i))))" for level key
    using assms by (intro good_intros)
  then show ?thesis using assms by (simp add: get_def Let_def case_prod_beta split: jsval.split sum.split)
qed

lemma has_good [good_intros]:
  assumes "good HK sq i"
  shows "good HK sq (fst (snd (has HK e a k i)))"
proof -
  have d: "good HK sq (snd (has_drained HK e a key j))" if j: "good HK sq j" for key j
    using j l1Drop_good [OF j, of key]
    by (auto simp: has_drained_def Let_def case_prod_beta split: option.split intro: get_good)
  show ?thesis using assms d [OF drain_good [OF assms]] by (simp add: has_def Let_def case_prod_beta split: jsval.split)
qed

end
