(* ===== verification/ProcOps.thy ===== *)
theory ProcOps
  imports ProcInv
begin

text \<open>The second half of the invariant: the caps, the outbox, the writes, and the operations of a process.\<close>

section \<open>Caps\<close>

lemma capLost_frame [simp]:
  "iL1 (capLost k b i) = iL1 i" "iCoh (capLost k b i) = iCoh i" "iLink (capLost k b i) = iLink i"
  "iQueue (capLost k b i) = iQueue i" "pTimer (iCaps (capLost k b i)) = pTimer (iCaps i)" "iCfg (capLost k b i) = iCfg i"
  "iLive (capLost k b i) = iLive i"
  by (simp_all add: capLost_def countCapLost_def set_caps_def split: option.split)

lemma jskeys_update_present: "k \<in> fst ` set m \<Longrightarrow> jskeys (AList.update k v m) = jskeys m"
  by (induction m) auto

lemma capLost_jskeys: "jskeys (pMap (iCaps (capLost k b i))) = jskeys (pMap (iCaps i))"
proof (cases "map_of (pMap (iCaps i)) k")
  case (Some c)
  then have "k \<in> fst ` set (pMap (iCaps i))" by (rule map_of_Some_mem)
  then show ?thesis using Some by (simp add: capLost_def countCapLost_def set_caps_def jskeys_update_present)
qed (simp add: capLost_def)

lemma caps_ok_keys:
  assumes "jskeys (pMap c) = jskeys (pMap d)" "pTimer c = pTimer d" "caps_ok d"
  shows "caps_ok c"
proof -
  have "length (pMap c) = length (pMap d)" using arg_cong [OF assms(1), of length] by simp
  moreover have "pMap c = [] \<longleftrightarrow> pMap d = []" using calculation by auto
  ultimately show ?thesis using assms by (simp add: caps_ok_def)
qed

lemma capLost_good [good_intros]: "good HK sq i \<Longrightarrow> good HK sq (capLost k b i)"
  using caps_ok_keys [OF capLost_jskeys [of k b i]] by (simp add: good_def inst_ok_def)

lemma capUnapplied_good [good_intros]: "good HK sq i \<Longrightarrow> good HK sq (capUnapplied k i)"
  "good HK sq i \<Longrightarrow> good HK sq (capEntryUnconfirmed k i)"
  by (simp_all add: capUnapplied_def capEntryUnconfirmed_def capLost_good)

lemma fold_good: "(\<And>x i. good HK sq i \<Longrightarrow> good HK sq (f x i)) \<Longrightarrow> good HK sq i \<Longrightarrow> good HK sq (fold f xs i)"
  by (induction xs arbitrary: i) simp_all

lemma countCapLost_good [good_intros]: "good HK sq i \<Longrightarrow> good HK sq (countCapLost b i)"
  by (simp add: countCapLost_def bump_good)

lemma good_caps:
  "good HK sq i \<Longrightarrow> (caps_ok (iCaps i) \<Longrightarrow> caps_ok c) \<Longrightarrow> good HK sq (i\<lparr>iCaps := c\<rparr>)"
  by (erule good_same) (auto simp: inst_ok_def)

lemma noteCap_good [good_intros]:
  assumes "good HK sq i"
  shows "good HK sq (noteCap e a key enc cap i)"
proof -
  have "caps_ok ((iCaps i)\<lparr>pMap := AList.update key c (pMap (iCaps i)), pTimer := True\<rparr>)"
    if "length (pMap (iCaps i)) < L3_CAP_MAX" for c
    using goodD(2) [OF assms] that length_update_le [of key c "pMap (iCaps i)"] by (simp add: caps_ok_def)
  then have "good HK sq (i\<lparr>iCaps := (iCaps i)\<lparr>pMap := AList.update key c (pMap (iCaps i)), pTimer := True\<rparr>\<rparr>)"
    if "length (pMap (iCaps i)) < L3_CAP_MAX" for c
    using that by (intro good_caps [OF assms])
  then show ?thesis
    using countCapLost_good [OF assms] by (auto simp: noteCap_def Let_def set_caps_def)
qed

lemma judgeRetiredCaps_good [good_intros]: "good HK sq i \<Longrightarrow> good HK sq (judgeRetiredCaps HK t a rs i)"
  unfolding judgeRetiredCaps_def Let_def
  by (auto intro!: fold_good simp: judge_one_def Let_def capUnapplied_good split: option.split)

lemma caps_ok_deletes: "caps_ok c \<Longrightarrow> caps_ok (c\<lparr>pMap := fold AList.delete ks (pMap c)\<rparr>)"
proof (induction ks arbitrary: c)
  case (Cons k ks)
  then show ?case using caps_ok_delete [of c k] Cons.IH [of "c\<lparr>pMap := AList.delete k (pMap c)\<rparr>"] by simp
qed simp

lemma stopCapTimer_good: "good HK sq i \<Longrightarrow> pMap (iCaps i) = [] \<Longrightarrow> good HK sq (stopCapTimer i)"
  unfolding stopCapTimer_def by (rule good_caps) simp_all

lemma runCaps_good [good_intros]:
  assumes "good HK sq i"
  shows "good HK sq (runCaps HK e a i)"
proof -
  let ?r = "filter (\<lambda>(key, c). eMono e \<ge> rUntil c) (pMap (iCaps i))"
  let ?j = "judgeRetiredCaps HK (eTick e) a ?r i"
  have "good HK sq (set_caps (fold AList.delete (List.map fst ?r) (pMap (iCaps ?j))) ?j)"
    unfolding set_caps_def
    by (intro good_caps judgeRetiredCaps_good [OF assms] caps_ok_deletes) simp_all
  moreover have "good HK sq (set_caps [] (fold capEntryUnconfirmed ks i))" for ks
    unfolding set_caps_def by (intro good_caps fold_good [OF capUnapplied_good(2)] assms) simp_all
  moreover have "pMap (iCaps (set_caps [] j)) = []" for j by (simp add: set_caps_def)
  ultimately show ?thesis
    using assms by (auto simp: runCaps_def Let_def stopCapTimer_good)
qed

section \<open>The outbox\<close>

lemma good_coh:
  "good HK sq i \<Longrightarrow> (coh_ok HK (iCoh i) \<Longrightarrow> coh_ok HK c) \<Longrightarrow> (marks_old sq (cDel (iCoh i)) \<Longrightarrow> marks_old sq (cDel c)) \<Longrightarrow>
   (marks_old sq (cWrite (iCoh i)) \<Longrightarrow> marks_old sq (cWrite c)) \<Longrightarrow> good HK sq (i\<lparr>iCoh := c\<rparr>)"
  by (simp add: good_def inst_ok_def)

lemma release_op_good [good_intros]: "good HK sq i \<Longrightarrow> good HK sq (release_op n op i)"
  by (cases op) (auto intro!: good_coh simp: coh_ok_def)

lemma releaseBatchMarks_good [good_intros]: "good HK sq i \<Longrightarrow> good HK sq (releaseBatchMarks ops n i)"
  unfolding releaseBatchMarks_def by (rule fold_good [OF release_op_good])

lemma good_link: "good HK sq i \<Longrightarrow> (link_ok (iLink i) \<Longrightarrow> link_ok l) \<Longrightarrow> good HK sq (i\<lparr>iLink := l\<rparr>)"
  by (erule good_same) (auto simp: inst_ok_def)

lemma link_ok_simps [simp]:
  "link_ok (l\<lparr>kOut := x\<rparr>) = link_ok l" "link_ok (l\<lparr>kCapKeys := c\<rparr>) = link_ok l" "link_ok (l\<lparr>kScheduled := b\<rparr>) = link_ok l"
  "link_ok (l\<lparr>kDoorbell := b\<rparr>) = link_ok l" "link_ok (l\<lparr>kRing := r\<rparr>) = link_ok l" "link_ok (l\<lparr>kRingMax := n\<rparr>) = link_ok l"
  "link_ok (l\<lparr>kMaxValue := n\<rparr>) = link_ok l" "link_ok l \<Longrightarrow> link_ok (l\<lparr>kOutBytes := 0\<rparr>)"
  by (simp_all add: link_ok_def)

lemma push_op_good [good_intros]: "good HK sq i \<Longrightarrow> good HK sq (push_op op i)"
  unfolding push_op_def by (rule good_link) simp_all

lemma ringDoorbell_good [good_intros]: "good HK sq i \<Longrightarrow> good HK sq (ringDoorbell i)"
  unfolding ringDoorbell_def by (auto intro: good_link)

lemma dropOutboxCaps_good [good_intros]: "good HK sq i \<Longrightarrow> good HK sq (dropOutboxCaps i)"
  unfolding dropOutboxCaps_def Let_def
  by (intro good_link fold_good [OF capUnapplied_good(1)]) simp_all

lemma shed_outbox_good [good_intros]: "good HK sq i \<Longrightarrow> good HK sq (shed_outbox n i)"
  unfolding shed_outbox_def Let_def
  by (intro good_link dropOutboxCaps_good add_stat_good releaseBatchMarks_good) simp_all

lemma batch_lost_good [good_intros]: "good HK sq i \<Longrightarrow> good HK sq (batch_lost b c n i)"
  unfolding batch_lost_def by (intro fold_good [OF capUnapplied_good(1)] releaseBatchMarks_good bump_good)

lemma wire_bytes_simps [simp]:
  "wire_bytes [] = 0" "wire_bytes ((b, n, c, s) # w) = n + wire_bytes w" "wire_bytes (w @ w') = wire_bytes w + wire_bytes w'"
  by (simp_all add: wire_bytes_def)

lemma wire_bytes_nonneg: "list_all (\<lambda>(_, n, _, _). 0 \<le> n) w \<Longrightarrow> 0 \<le> wire_bytes w"
  by (induction w) auto

lemma send_batch_good [good_intros]:
  assumes "good HK sq i"
  shows "good HK sq (fst (send_batch e n i))"
proof -
  let ?l = "(iLink i)\<lparr>kOut := [], kOutBytes := 0, kCapKeys := []\<rparr>"
  let ?i2 = "add_stat ''sent'' (length (kOut (iLink i))) (bump ''flushes'' (i\<lparr>iLink := ?l\<rparr>))"
  have 2: "good HK sq ?i2" using assms by (intro good_intros good_link) simp_all
  have b: "0 \<le> kOutBytes (iLink i)" using goodD(3) [OF assms] by (simp add: link_ok_def)
  have f: "0 \<le> kFlight (iLink i)" using goodD(3) [OF assms] wire_bytes_nonneg by (simp add: link_ok_def)
  have 3: "good HK sq (?i2\<lparr>iLink := (iLink ?i2)\<lparr>kFlight := kFlight (iLink ?i2) + kOutBytes (iLink i),
        kWire := kWire (iLink ?i2) @ [(kOut (iLink i), kOutBytes (iLink i), kCapKeys (iLink i), n)]\<rparr>\<rparr>)"
    using b by (intro good_link [OF 2]) (simp add: link_ok_def)
  have 4: "good HK sq (?i2\<lparr>iLink := (iLink ?i2)\<lparr>kFlight := max 0 (kFlight (iLink i))\<rparr>\<rparr>)"
    using f by (intro good_link [OF 2]) (simp add: link_ok_def)
  show ?thesis
    using batch_lost_good [OF 2] batch_lost_good [OF 4] 3 bump_good [OF 3]
    by (auto simp: send_batch_def Let_def split: sendResult.split)
qed

lemma flush_good [good_intros]:
  assumes "good HK sq i"
  shows "good HK sq (fst (flush e n i))"
proof -
  have "good HK sq (i\<lparr>iLink := (iLink i)\<lparr>kScheduled := False\<rparr>\<rparr>)" using assms by (rule good_link) simp
  then show ?thesis by (simp add: flush_def Let_def shed_outbox_good send_batch_good)
qed

lemma send_done_good [good_intros]:
  assumes "good HK sq i"
  shows "good HK sq (send_done failed i)"
proof (cases "kWire (iLink i)")
  case (Cons x rest)
  obtain b n c s where x: "x = (b, n, c, s)" by (cases x) auto
  have "link_ok ((iLink i)\<lparr>kFlight := max 0 (kFlight (iLink i) - n), kWire := rest\<rparr>)"
    using goodD(3) [OF assms] Cons x wire_bytes_nonneg [of rest] by (simp add: link_ok_def)
  then have "good HK sq (i\<lparr>iLink := (iLink i)\<lparr>kFlight := max 0 (kFlight (iLink i) - n), kWire := rest\<rparr>\<rparr>)"
    by (intro good_link [OF assms])
  then show ?thesis using Cons x by (simp add: send_done_def Let_def batch_lost_good)
qed (use assms in \<open>simp add: send_done_def\<close>)

section \<open>The queue\<close>

lemma queue_op_good [good_intros]:
  assumes "good HK sq i" "0 \<le> oBytes op"
  shows "good HK sq (snd (queue_op e op i))"
proof (cases "iQueue i")
  case (Some q)
  obtain m r where "queue_reach m r q" using goodD(4) [OF assms(1)] Some by (auto simp: queue_ok_def)
  then have "queue_reach m r (snd (push op (Some (eWall e)) q))" by (rule reach_step) (rule queue_step.push [OF assms(2)])
  then have "queue_ok (Some (snd (push op (Some (eWall e)) q)))" by (auto simp: queue_ok_def)
  then show ?thesis using Some assms(1) by (simp add: queue_op_def case_prod_beta good_def inst_ok_def)
qed (use assms in \<open>simp add: queue_op_def\<close>)

lemma queueSet_good [good_intros]: "good HK sq i \<Longrightarrow> good HK sq (snd (queueSet e key enc ttl level i))"
  by (simp add: queueSet_def queue_op_good bump_good set_op_def)

lemma set_last_good [good_intros]: "good HK sq i \<Longrightarrow> good HK sq (set_last x i)"
  unfolding set_last_def by (erule good_same) (auto simp: inst_ok_def)

lemma set_l1_good [good_intros]: "good HK sq i \<Longrightarrow> good HK sq (set_l1 HK e level key lv len ttl p i)"
  unfolding set_l1_def by (auto intro!: l1_at_good l1Put_inv l1Drop_inv)

lemma releaseMarks_good [good_intros]: "good HK sq i \<Longrightarrow> good HK sq (releaseMarks key i)"
  unfolding releaseMarks_def by (erule good_coh) (simp_all add: coh_ok_def)

lemma release_del_good: "good HK sq i \<Longrightarrow> good HK sq (i\<lparr>iCoh := (iCoh i)\<lparr>cDel := mk_release key (cDel (iCoh i))\<rparr>\<rparr>)"
  by (erule good_coh) (simp_all add: coh_ok_def)

lemma recovered_good [good_intros]: "good HK sq i \<Longrightarrow> good HK sq (recovered b r i)"
proof -
  assume g: "good HK sq i"
  have "good HK sq (set_cursor c (clearLocal i))" for c by (intro coh_counters_good clearLocal_good g)
  then show ?thesis
    by (auto simp: recovered_def Let_def useSubmissionRing_def good_def inst_ok_def link_ok_def split: option.split prod.split)
qed

end
