(* ===== verification/ProcStep.thy ===== *)
theory ProcStep
  imports ProcOps
begin

text \<open>
  The operations of a process as steps, and the invariant of every process they reach. A new cache
  object is what the constructor leaves behind (\<^verbatim>\<open>src/src/turbokv.js\<close>, lines 509 to 786).
\<close>

definition new_inst :: "cfg \<Rightarrow> (int \<times> ms) option \<Rightarrow> nat \<Rightarrow> inst" where
  "new_inst g l3 maxValue =
     \<lparr>iCfg = g, iL1 = l1_empty,
      iCoh = \<lparr>cDel = empty_marks, cWrite = empty_marks, cDeletedAt = [], cOwedDel = 0, cOwedWrite = 0, cCursor = 0\<rparr>,
      iLive = \<lparr>vDead = False, vLastCheck = 0, vWarned = False, vClosed = False\<rparr>,
      iLink = \<lparr>kRing = None, kRingMax = 0, kMaxValue = maxValue, kOut = [], kCapKeys = [], kOutBytes = 0,
               kFlight = 0, kWire = [], kScheduled = False, kDoorbell = False\<rparr>,
      iCaps = \<lparr>pMap = [], pTimer = False\<rparr>,
      iQueue = map_option (\<lambda>(maxBytes, retryMs). new_queue maxBytes retryMs) l3,
      iLastQ = None, iReads = [], iStats = (\<lambda>_. 0)\<rparr>"

lemma new_inst_good: "good HK sq (new_inst g l3 mv)"
proof -
  have "queue_reach m r (new_queue m r)" for m r by (simp add: queue_reach_def)
  then show ?thesis
    by (auto simp: good_def new_inst_def inst_ok_def coh_ok_def link_ok_def queue_ok_def split: option.split)
qed

section \<open>The frame of a process\<close>

lemma proc_ok_frame [simp]:
  "proc_ok HK (p\<lparr>yArena := a\<rparr>) = proc_ok HK p" "proc_ok HK (p\<lparr>yReady := b\<rparr>) = proc_ok HK p"
  "proc_ok HK (p\<lparr>yClears := c\<rparr>) = proc_ok HK p" "proc_ok HK (p\<lparr>yOwed := ow\<rparr>) = proc_ok HK p"
  "proc_ok HK (p\<lparr>yCursor := k\<rparr>) = proc_ok HK p" "proc_ok HK (p\<lparr>ySent := s\<rparr>) = proc_ok HK p"
  "proc_ok HK (p\<lparr>yRecov := r\<rparr>) = proc_ok HK p" "proc_ok HK (p\<lparr>ySubmit := d\<rparr>) = proc_ok HK p"
  "proc_ok HK (p\<lparr>yPrimary := f\<rparr>) = proc_ok HK p"
  by (simp_all add: proc_ok_def)

lemma set_recov_ok [simp]: "proc_ok HK (set_recov f p) = proc_ok HK p"
  by (simp add: set_recov_def)

lemma proc_okD: "proc_ok HK p \<Longrightarrow> map_of (yInsts p) n = Some i \<Longrightarrow> good HK (yMarkSeq p) i"
  by (simp add: proc_ok_def)

lemma keys_map: "List.map fst (List.map (\<lambda>(m, i). (m, f m i)) xs) = List.map fst xs"
  by (induction xs) auto

lemma keys_upd [simp]: "jskeys (yInsts (upd_inst n f p)) = jskeys (yInsts p)"
  "jskeys (yInsts (all_open g p)) = jskeys (yInsts p)" "jskeys (yInsts (other_open n g p)) = jskeys (yInsts p)"
  by (simp_all add: upd_inst_def all_open_def other_open_def keys_map [of "\<lambda>m i. if m = n then f i else i"]
      keys_map [of "\<lambda>m i. if vClosed (iLive i) then i else g i"]
      keys_map [of "\<lambda>m i. if vClosed (iLive i) \<or> m = n then i else g i"] del: map_map)

lemma upd_ok [good_intros]:
  assumes "proc_ok HK p" "\<And>i. map_of (yInsts p) n = Some i \<Longrightarrow> good HK (yMarkSeq p) i \<Longrightarrow> good HK (yMarkSeq p) (f i)"
  shows "proc_ok HK (upd_inst n f p)"
  using assms by (auto simp: proc_ok_def split: if_splits)

lemma all_open_ok [good_intros]:
  assumes "proc_ok HK p" "\<And>i. good HK (yMarkSeq p) i \<Longrightarrow> good HK (yMarkSeq p) (f i)"
  shows "proc_ok HK (all_open f p)"
  using assms by (auto simp: proc_ok_def)

lemma other_open_ok [good_intros]:
  assumes "proc_ok HK p" "\<And>i. good HK (yMarkSeq p) i \<Longrightarrow> good HK (yMarkSeq p) (f i)"
  shows "proc_ok HK (other_open n f p)"
  using assms by (auto simp: proc_ok_def)

lemma inst_of_good: "proc_ok HK p \<Longrightarrow> map_of (yInsts p) n = Some i \<Longrightarrow> good HK (yMarkSeq p) (inst_of n p)"
  by (simp add: inst_of_def proc_okD)

lemma inst_of_Some: "map_of (yInsts p) n = Some i \<Longrightarrow> inst_of n p = i"
  by (simp add: inst_of_def)

section \<open>Publishing\<close>

lemma cancelCaps_ok [good_intros]: "proc_ok HK p \<Longrightarrow> proc_ok HK (cancelCaps k p)"
  "proc_ok HK p \<Longrightarrow> proc_ok HK (cancelAllCaps p)"
  by (simp_all add: cancelCaps_def cancelAllCaps_def all_open_ok cancelCap_good cancelOwnCaps_good)

lemma dropOthers_ok [good_intros]: "proc_ok HK p \<Longrightarrow> proc_ok HK (dropOthers k n p)"
  "proc_ok HK p \<Longrightarrow> proc_ok HK (clearOthers n p)" "proc_ok HK p \<Longrightarrow> proc_ok HK (localDrop k p)"
  by (simp_all add: dropOthers_def clearOthers_def localDrop_def all_open_ok other_open_ok l1Drop_good clearLocal_good)

lemma publishArena_ok [good_intros]:
  "proc_ok HK' p \<Longrightarrow> proc_ok HK' (snd (publishArenaSet HK e key enc w ttl p))"
  "proc_ok HK' p \<Longrightarrow> proc_ok HK' (snd (publishArenaDel HK key w p))"
  "proc_ok HK' p \<Longrightarrow> proc_ok HK' (publishArenaClear w p)"
  by (simp_all add: publishArenaSet_def publishArenaDel_def publishArenaClear_def case_prod_beta Let_def cancelCaps_ok
      split: option.split)

lemma publishL3Derived_ok [good_intros]:
  "proc_ok HK' p \<Longrightarrow> proc_ok HK' (snd (publishL3Derived HK e key enc ttl n b p))"
  by (simp add: publishL3Derived_def case_prod_beta Let_def dropOthers_ok publishArena_ok)

lemma publishRing_ok [good_intros]: "proc_ok HK' p \<Longrightarrow> proc_ok HK' (snd (publishRing HK e n ring key op p))"
  "proc_ok HK' p \<Longrightarrow> proc_ok HK' (snd (publishRingSet HK e n ring key enc ttl p))"
  "proc_ok HK' p \<Longrightarrow> proc_ok HK' (snd (publishRingDel HK e n ring key p))"
proof -
  show r: "proc_ok HK' (snd (publishRing HK e n ring key op p))" if "proc_ok HK' p" for op
    using that by (simp add: publishRing_def case_prod_beta Let_def upd_ok cancelCaps_ok ringDoorbell_good)
  show "proc_ok HK' p \<Longrightarrow> proc_ok HK' (snd (publishRingSet HK e n ring key enc ttl p))"
    "proc_ok HK' p \<Longrightarrow> proc_ok HK' (snd (publishRingDel HK e n ring key p))"
    by (simp_all add: publishRingSet_def publishRingDel_def r)
qed

lemma flush_at_ok [good_intros]: "proc_ok HK p \<Longrightarrow> proc_ok HK (flush_at e n p)"
  by (auto simp: flush_at_def case_prod_beta Let_def flush_good intro!: upd_ok split: option.split)

lemma schedule_ok [good_intros]:
  assumes "proc_ok HK p" "0 \<le> b"
  shows "proc_ok HK (schedule e n b p)"
proof -
  have "proc_ok HK (upd_inst n (\<lambda>i. i\<lparr>iLink := (iLink i)\<lparr>kOutBytes := kOutBytes (iLink i) + b\<rparr>\<rparr>) p)"
    using assms by (intro upd_ok good_link) (simp_all add: link_ok_def)
  then show ?thesis
    by (auto simp: schedule_def Let_def intro!: flush_at_ok upd_ok good_link split: option.split)
qed

lemma publishOutbox_ok [good_intros]:
  "proc_ok HK p \<Longrightarrow> 0 \<le> b \<Longrightarrow> proc_ok HK (publishOutbox e n key op b p)"
  "proc_ok HK p \<Longrightarrow> proc_ok HK (publishOutboxOp e n op supersedes p)"
  "proc_ok HK p \<Longrightarrow> proc_ok HK (retimeOutbox e n key enc cap p)"
  unfolding publishOutbox_def publishOutboxOp_def retimeOutbox_def Let_def
  by (auto intro!: schedule_ok cancelCaps_ok upd_ok push_op_good good_link)

section \<open>Life and death\<close>

lemma degrade_ok [good_intros]: "proc_ok HK p \<Longrightarrow> proc_ok HK (degrade p)"
  by (auto simp: degrade_def Let_def intro!: all_open_ok setDead_good)

lemma check_at_ok [good_intros]: "proc_ok HK p \<Longrightarrow> proc_ok HK (check_at e n p)"
  by (auto simp: check_at_def case_prod_beta Let_def checkPrimary_good intro!: degrade_ok upd_ok split: option.split)

lemma tryRecover_ok [good_intros]: "proc_ok HK p \<Longrightarrow> proc_ok HK (tryRecover r p)"
  by (auto simp: tryRecover_def intro!: all_open_ok recovered_good)

lemma get_at_ok [good_intros]: "proc_ok HK p \<Longrightarrow> proc_ok HK (snd (get_at HK e k lv n p))"
  "proc_ok HK p \<Longrightarrow> proc_ok HK (snd (has_at HK e k n p))"
  by (auto simp: get_at_def has_at_def case_prod_beta Let_def inst_of_Some intro!: degrade_ok upd_ok get_good has_good)

section \<open>Writes\<close>

lemma queued_ok [good_intros]:
  "proc_ok HK p \<Longrightarrow> (\<And>i. good HK (yMarkSeq p) i \<Longrightarrow> good HK (yMarkSeq p) (snd (f i))) \<Longrightarrow> proc_ok HK (queued f n p)"
  by (simp add: queued_def case_prod_beta Let_def upd_ok set_last_good)

lemma mark_old_mark:
  "wf_map (byKey m) \<Longrightarrow> marks_old s m \<Longrightarrow> marks_old (Suc s) (snd (mk_mark key h p sub (s, m)))"
  by (auto simp: marks_old_def mk_mark_lookup split: if_splits) (meson le_SucI)

lemma markWrite_ok [good_intros]:
  assumes "proc_ok HK p"
  shows "proc_ok HK (markWrite key (hash_of HK key) pos sub n p)"
    and "proc_ok HK (markDelete key (hash_of HK key) pos sub n p)"
proof -
  have l: "good HK (Suc (yMarkSeq p)) i" if "good HK (yMarkSeq p) i" for i
    using good_later [OF that, of "Suc (yMarkSeq p)"] by simp
  have w: "good HK (Suc (yMarkSeq p)) (i\<lparr>iCoh := (iCoh i)\<lparr>cWrite := snd (mk_mark key (hash_of HK key) pos sub (yMarkSeq p, cWrite (iCoh i)))\<rparr>\<rparr>)"
    and d: "good HK (Suc (yMarkSeq p)) (i\<lparr>iCoh := (iCoh i)\<lparr>cDel := snd (mk_mark key (hash_of HK key) pos sub (yMarkSeq p, cDel (iCoh i)))\<rparr>\<rparr>)"
    if "good HK (yMarkSeq p) i" for i
  proof -
    have c: "marks_wf (hash_of HK) (cDel (iCoh i))" "marks_wf (hash_of HK) (cWrite (iCoh i))"
      using that by (simp_all add: good_def inst_ok_def coh_ok_def)
    note m = mark_old_mark [OF marks_wf_byKey [OF c(1)] goodD(5) [OF that]]
      mark_old_mark [OF marks_wf_byKey [OF c(2)] goodD(6) [OF that]]
    show "good HK (Suc (yMarkSeq p)) (i\<lparr>iCoh := (iCoh i)\<lparr>cWrite := snd (mk_mark key (hash_of HK key) pos sub (yMarkSeq p, cWrite (iCoh i)))\<rparr>\<rparr>)"
      "good HK (Suc (yMarkSeq p)) (i\<lparr>iCoh := (iCoh i)\<lparr>cDel := snd (mk_mark key (hash_of HK key) pos sub (yMarkSeq p, cDel (iCoh i)))\<rparr>\<rparr>)"
      using l [OF that] m by (simp_all add: good_def inst_ok_def coh_ok_def)
  qed
  show "proc_ok HK (markWrite key (hash_of HK key) pos sub n p)"
    using assms w l by (auto simp: proc_ok_def markWrite_def case_prod_beta Let_def inst_of_Some split: if_splits)
  show "proc_ok HK (markDelete key (hash_of HK key) pos sub n p)"
    using assms d l by (auto simp: proc_ok_def markDelete_def case_prod_beta Let_def inst_of_Some split: if_splits)
qed

lemma capL2_ok [good_intros]:
  "proc_ok HK' p \<Longrightarrow> proc_ok HK' (snd (capL2AfterL3Failure HK e n key enc cap p))"
  by (auto simp: capL2AfterL3Failure_def case_prod_beta Let_def
      intro!: upd_ok countCapLost_good noteCap_good dropOthers_ok publishOutbox_ok)

lemma l1_touch_inv:
  "l1_inv H s \<Longrightarrow> map_of (l1Map s) key = Some e \<Longrightarrow> l1_inv H (l1_set key (e\<lparr>eExp := d\<rparr>) s)"
  by (auto simp: l1_inv_def l1_set_def l1_counted_def l1_hashed_def bsum_hit split: if_splits)

lemma capAfterL3Failure_ok [good_intros]:
  assumes "proc_ok HK' p"
  shows "proc_ok HK' (capAfterL3Failure HK e n key enc ttl p)"
proof -
  have t: "proc_ok HK' (upd_inst n (l1_at (l1_set key (en\<lparr>eExp := d\<rparr>))) p)"
    if "map_of (l1Map (iL1 (inst_of n p))) key = Some en" for en d
    using assms that by (intro upd_ok l1_at_good l1_touch_inv) (simp_all add: inst_of_Some)
  have c: "proc_ok HK' (snd (case map_of (l1Map (iL1 (inst_of n p))) key of
               None \<Rightarrow> (False, p)
             | Some en \<Rightarrow> if eExp en = 0 \<or> eExp en > d
                 then (True, upd_inst n (l1_at (l1_set key (en\<lparr>eExp := d\<rparr>))) p) else (False, p)))" for d
    using assms t by (simp split: option.split)
  show ?thesis
    unfolding capAfterL3Failure_def Let_def case_prod_beta
    by (simp only: if_split fst_conv snd_conv) (intro conjI impI upd_ok bump_good capL2_ok c)
qed

lemma queueSet_settled_ok [good_intros]:
  "proc_ok HK' p \<Longrightarrow> proc_ok HK' (queueSet_settled HK e n key enc ttl level okay p)"
  by (simp add: queueSet_settled_def capAfterL3Failure_ok)

lemma set_evict_ok [good_intros]: "proc_ok HK p \<Longrightarrow> proc_ok HK (set_evict HK e pos key n p)"
  by (auto simp: set_evict_def Let_def case_prod_beta
      intro!: dropOthers_ok publishArena_ok publishRing_ok markWrite_ok upd_ok bump_good publishOutbox_ok)

lemma set_primary_ok [good_intros]: "proc_ok HK p \<Longrightarrow> proc_ok HK (snd (set_primary HK e level key enc ttl n p))"
  by (auto simp: set_primary_def Let_def case_prod_beta
      intro!: queued_ok queueSet_good dropOthers_ok publishArena_ok upd_ok l1_at_good bump_good l1Drop_inv)

lemma set_worker_ok [good_intros]: "proc_ok HK p \<Longrightarrow> proc_ok HK (set_worker HK e level pos key enc ttl n p)"
  by (auto simp: set_worker_def Let_def case_prod_beta
      intro!: queued_ok queueSet_good publishRing_ok markWrite_ok upd_ok bump_good publishOutbox_ok)

lemma set_commit_ok [good_intros]: "proc_ok HK p \<Longrightarrow> proc_ok HK (snd (set_commit HK e level key lv enc ttl n p))"
  by (auto simp: set_commit_def set_publish_def Let_def case_prod_beta
      intro!: queued_ok queueSet_good set_evict_ok set_primary_ok set_worker_ok upd_ok set_l1_good releaseMarks_good
      split: sum.split)

lemma setKey_ok [good_intros]: "proc_ok HK p \<Longrightarrow> proc_ok HK (snd (setKey HK e k v opts n p))"
proof -
  assume p: "proc_ok HK p"
  have b: "proc_ok HK (snd (set_body HK e level key v t n q))" if "proc_ok HK q" for level key t q
    using that by (auto simp: set_body_def intro!: upd_ok bump_good set_commit_ok split: option.split sum.split prod.split)
  have q: "proc_ok HK (upd_inst n (bump ''sets'') (check_at e n p))" using p by (intro good_intros)
  then show ?thesis using p
    by (auto simp: setKey_def Let_def b intro!: upd_ok bump_good split: sum.split jsval.split option.split)
qed

lemma take_last_ok [good_intros]: "proc_ok HK p \<Longrightarrow> proc_ok HK (snd (take_last n p))"
  by (simp add: take_last_def upd_ok set_last_good)

lemma setAsync_ok [good_intros]: "proc_ok HK p \<Longrightarrow> proc_ok HK (snd (setAsync HK e k v opts n p))"
  using setKey_ok [of HK p e k v opts n] take_last_ok [of HK "snd (setKey HK e k v opts n p)" n]
  by (auto simp: setAsync_def case_prod_beta Let_def split: sum.split bool.split)

lemma shed_delete_good:
  "good HK sq i \<Longrightarrow> good HK sq ((bump c i)\<lparr>iCoh := (iCoh i)\<lparr>cDel := mk_release key (cDel (iCoh i))\<rparr>\<rparr>)"
  using release_del_good [OF bump_good, of HK sq i key c] by simp

lemma delete_ok [good_intros]: "proc_ok HK p \<Longrightarrow> proc_ok HK (snd (delete HK e k n p))"
proof -
  assume p: "proc_ok HK p"
  have 1: "proc_ok HK (snd (delete_primary HK e key n q))" if "proc_ok HK q" for key q
    using that by (auto simp: delete_primary_def Let_def case_prod_beta delete_op_def
        intro!: queued_ok queue_op_good upd_ok noteDeleted_good dropOthers_ok publishArena_ok l1_at_good l1Drop_inv)
  have 2: "proc_ok HK (snd (delete_worker HK e key n q))" if "proc_ok HK q" for key q
  proof -
    have "proc_ok HK (queued (queue_op e (delete_op key)) n
             (if vDead (iLive (inst_of n q)) then upd_inst n (l1_at (l1Drop key)) q
              else markDelete key (hash_of HK key) (ringHeadNow (yReady q) (yArena q) (inst_of n q)) (- 1) n
                     (upd_inst n (l1_at (l1Drop key)) q)))" (is "proc_ok HK ?q3")
      using that by (auto intro!: queued_ok queue_op_good markWrite_ok upd_ok l1_at_good l1Drop_inv simp: delete_op_def)
    then have "proc_ok HK (snd (publishRingDel HK e n r key ?q3))" "proc_ok HK (publishOutbox e n key op (int (length key + 48)) ?q3)"
      for r op by (auto intro!: publishRing_ok publishOutbox_ok)
    then show ?thesis
      by (auto simp: delete_worker_def Let_def case_prod_beta intro!: upd_ok shed_delete_good)
  qed
  have "proc_ok HK (upd_inst n (bump ''deletes'') (check_at e n p))" using p by (intro good_intros)
  then show ?thesis using p 1 2
    by (auto simp: delete_def Let_def case_prod_beta intro: check_at_ok split: jsval.split)
qed

lemma deleteAsync_ok [good_intros]: "proc_ok HK p \<Longrightarrow> proc_ok HK (snd (deleteAsync HK e k n p))"
  by (simp add: deleteAsync_def case_prod_beta Let_def take_last_ok delete_ok)

lemma clear_ok [good_intros]: "proc_ok HK p \<Longrightarrow> proc_ok HK (openClearGen e n p)"
  "proc_ok HK p \<Longrightarrow> proc_ok HK (snd (settleClearGen e again n p))"
  "proc_ok HK p \<Longrightarrow> proc_ok HK (snd (queueClear_settled e n p))"
  by (auto simp: openClearGen_def settleClearGen_def queueClear_settled_def clearBegin_def clearSettle_def Let_def
      intro!: publishOutbox_ok flush_at_ok)

lemma clearAll_ok [good_intros]: "proc_ok HK p \<Longrightarrow> proc_ok HK (clearAll e n p)"
  by (auto simp: clearAll_def Let_def clear_op_def
      intro!: dropOthers_ok publishArena_ok publishOutbox_ok queued_ok queue_op_good clear_ok upd_ok clearLocal_good)

section \<open>Reading through\<close>

lemma reads_good: "good HK sq i \<Longrightarrow> good HK sq (i\<lparr>iReads := r\<rparr>)"
  by (erule good_same) (auto simp: inst_ok_def)

lemma getAsync_ok [good_intros]: "proc_ok HK p \<Longrightarrow> proc_ok HK (snd (getAsync HK e k lv n p))"
proof -
  assume "proc_ok HK p"
  then have g: "proc_ok HK (snd (get_at HK e k lv n p))" by (rule get_at_ok)
  have s: "proc_ok HK (snd (start_fetch level key n q))" if "proc_ok HK q" for level key q
    using that by (simp add: start_fetch_def Let_def upd_ok reads_good)
  show ?thesis
    using g s [OF g] by (auto simp: getAsync_def Let_def case_prod_beta intro!: upd_ok bump_good split: sum.split jsval.split option.split)
qed

lemma primary_rounds_ok [good_intros]: "proc_ok HK p \<Longrightarrow> proc_ok HK (primary_rounds r p)"
proof (induction r arbitrary: p)
  case (Suc r)
  have f: "proc_ok HK (fold primary_record rs p)" if "proc_ok HK p" for rs p
    using that by (induction rs arbitrary: p) (simp_all add: primary_record_def all_open_ok clearLocal_good dropByHash_good)
  show ?case using Suc f by (auto simp: Let_def intro!: all_open_ok dropCachedValues_good)
qed simp

lemma drainSubmissions_ok [good_intros]: "proc_ok HK' p \<Longrightarrow> proc_ok HK' (snd (drainSubmissions HK e b p))"
  by (simp add: drainSubmissions_def case_prod_beta Let_def primaryInvalidate_def primary_rounds_ok)

lemma drain_until_empty_ok [good_intros]: "proc_ok HK' p \<Longrightarrow> proc_ok HK' (drain_until_empty HK e r p)"
proof (induction r arbitrary: p)
  case (Suc r)
  then show ?case using drainSubmissions_ok [OF Suc.prems, of HK e 8192] by (simp add: case_prod_beta)
qed simp

lemma promotionBlock_ok [good_intros]: "proc_ok HK' p \<Longrightarrow> proc_ok HK' (snd (promotionBlock HK e n key mark cm p))"
  by (simp add: promotionBlock_def Let_def drain_until_empty_ok split: option.split)

lemma fillFromL3_ok [good_intros]: "proc_ok HK p \<Longrightarrow> proc_ok HK (snd (fillFromL3 HK e n key ttl level enc v p))"
  by (auto simp: fillFromL3_def Let_def intro!: upd_ok l1_at_good l1Put_inv publishL3Derived_ok split: sum.split)

lemma fetched_ok [good_intros]: "proc_ok HK p \<Longrightarrow> proc_ok HK (snd (fetched HK e n level key mark cm reply p))"
proof -
  assume p: "proc_ok HK p"
  have b: "proc_ok HK (snd (promotionBlock HK e n key mark cm (upd_inst n (bump ''l3Hits'') p)))"
    using p by (intro good_intros)
  have "proc_ok HK (snd (fillFromL3 HK e n key ttl level enc v (snd (promotionBlock HK e n key mark cm (upd_inst n (bump ''l3Hits'') p)))))"
    for ttl enc v using b by (rule fillFromL3_ok)
  then show ?thesis
    using p b by (auto simp: fetched_def case_prod_beta Let_def intro!: upd_ok bump_good split: l3Reply.split option.split sum.split)
qed

lemma getAsync_done_ok [good_intros]:
  "proc_ok HK p \<Longrightarrow> getAsync_done HK e n level key reply p = Some (v, q) \<Longrightarrow> proc_ok HK q"
  by (auto simp: getAsync_done_def case_prod_beta Let_def intro!: upd_ok reads_good fetched_ok split: option.splits)

lemma hasAsync_ok [good_intros]: "proc_ok HK p \<Longrightarrow> proc_ok HK (snd (hasAsync HK e k n p))"
  using get_at_ok(2) [of HK p e k n]
  by (auto simp: hasAsync_def Let_def case_prod_beta split: sum.split bool.split jsval.split)

section \<open>The primary\<close>

lemma clearGen_ok [good_intros]: "proc_ok HK p \<Longrightarrow> proc_ok HK (l3ClearOpenFor who p)"
  "proc_ok HK p \<Longrightarrow> proc_ok HK (snd (l3ClearSettleFor who p))"
  by (simp_all add: l3ClearOpenFor_def l3ClearSettleFor_def clearBegin_def clearSettle_def Let_def)

lemma release_loop_ok [good_intros]: "proc_ok HK p \<Longrightarrow> proc_ok HK (snd (release_loop who p))"
proof (induction who p rule: release_loop.induct)
  case (1 who p)
  show ?case using 1(1) [OF refl prod.collapse] clearGen_ok(2) [OF 1(2), of who]
    by (subst release_loop.simps) (simp add: case_prod_beta Let_def)
qed

lemma applyBatch_ok [good_intros]: "proc_ok HK' p \<Longrightarrow> proc_ok HK' (applyBatch HK e m p)"
proof -
  assume p: "proc_ok HK' p"
  have a: "proc_ok HK' (apply_op HK e m op q)" if "proc_ok HK' q" for op q
    using that by (auto simp: apply_op_def case_prod_beta Let_def split: obOp.split option.split
        intro!: dropOthers_ok publishArena_ok all_open_ok clearLocal_good clearGen_ok)
  have "proc_ok HK' (fold (apply_op HK e m) ops q)" if "proc_ok HK' q" for ops q
    using that by (induction ops arbitrary: q) (simp_all add: a)
  then show ?thesis using p by (simp add: applyBatch_def drain_until_empty_ok)
qed

lemma on_channel_ok [good_intros]: "proc_ok HK' p \<Longrightarrow> proc_ok HK' (snd (on_channel HK e ev (l, p)))"
  by (cases ev) (auto simp: releaseWorker_def drainSubmissions_ok applyBatch_ok
      split: option.splits prod.splits, metis release_loop_ok snd_conv)

lemma maintenance_ok [good_intros]: "proc_ok HK' p \<Longrightarrow> proc_ok HK' (maintenance_tick HK e swept p)"
  by (simp add: maintenance_tick_def Let_def drainSubmissions_ok)

section \<open>Closing\<close>

lemma shut_good [good_intros]: "good HK sq i \<Longrightarrow> good HK sq (shut i)"
proof -
  assume g: "good HK sq i"
  let ?j = "set_caps [] (fold capEntryUnconfirmed (jskeys (pMap (iCaps i))) i)"
  have "good HK sq ?j"
    unfolding set_caps_def by (intro good_caps fold_good [OF capUnapplied_good(2)] g) simp_all
  then have "good HK sq (stopCapTimer ?j)" by (rule stopCapTimer_good) (simp add: set_caps_def)
  then have "good HK sq ((stopCapTimer ?j)\<lparr>iLive := l, iLink := (iLink (stopCapTimer ?j))\<lparr>kRing := None\<rparr>\<rparr>)" for l
    by (rule good_same) (auto simp: inst_ok_def)
  then show ?thesis by (simp add: shut_def Let_def)
qed

lemma on_queue_good:
  assumes "good HK sq i" "\<And>q. queue_step q (f q)"
  shows "good HK sq (on_queue f i)"
proof -
  have "queue_ok (iQueue (on_queue f i))"
    using goodD(4) [OF assms(1)] reach_step [OF _ assms(2)] unfolding queue_ok_def on_queue_def
    by (cases "iQueue i") (simp, simp, blast)
  then show ?thesis using assms(1) by (simp add: good_def on_queue_def inst_ok_def)
qed

lemma close_ok [good_intros]: "proc_ok HK p \<Longrightarrow> proc_ok HK (close w n p)"
  "proc_ok HK p \<Longrightarrow> proc_ok HK (close_drained n p)" "proc_ok HK p \<Longrightarrow> proc_ok HK (close_done n p)"
proof -
  assume p: "proc_ok HK p"
  have "proc_ok HK (upd_inst n shut p)" using p by (intro upd_ok shut_good)
  then have l: "proc_ok HK (snd (snd (closeLocal n p)))"
    by (auto simp: closeLocal_def Let_def split: if_splits)
  show "proc_ok HK (close w n p)"
    using p l by (auto simp: close_def intro!: upd_ok on_queue_good queue_step.drain)
  show "proc_ok HK (close_drained n p)"
    unfolding close_drained_def using p by (intro upd_ok on_queue_good queue_step.close)
  show "proc_ok HK (close_done n p)"
    unfolding close_done_def using p by (intro upd_ok reads_good)
qed

section \<open>The step relation\<close>

inductive proc_step :: "(jsstr \<Rightarrow> hash option) \<Rightarrow> proc \<Rightarrow> proc \<Rightarrow> bool" for HK where
  opens: "map_of (yInsts p) n = None \<Longrightarrow> proc_step HK p (p\<lparr>yInsts := yInsts p @ [(n, new_inst g l3 mv)]\<rparr>)"
| ring: "proc_step HK p (upd_inst n (useSubmissionRing r) p)"
| set: "proc_step HK p (snd (setKey HK e k v opts n p))"
| set_async: "proc_step HK p (snd (setAsync HK e k v opts n p))"
| del: "proc_step HK p (snd (delete HK e k n p))"
| del_async: "proc_step HK p (snd (deleteAsync HK e k n p))"
| clear: "proc_step HK p (clearAll e n p)"
| clear_async: "proc_step HK p (snd (clearAsync e n p))"
| get: "proc_step HK p (snd (get_at HK e k lv n p))"
| has: "proc_step HK p (snd (has_at HK e k n p))"
| get_async: "proc_step HK p (snd (getAsync HK e k lv n p))"
| get_done: "gHasL3 (iCfg (inst_of n p)) \<Longrightarrow> getAsync_done HK e n level key reply p = Some (v, q) \<Longrightarrow> proc_step HK p q"
| has_async: "proc_step HK p (snd (hasAsync HK e k n p))"
| queue: "map_of (yInsts p) n = Some i \<Longrightarrow> iQueue i = Some q \<Longrightarrow> queue_step q q' \<Longrightarrow>
    proc_step HK p (upd_inst n (\<lambda>i. i\<lparr>iQueue := Some q'\<rparr>) p)"
| set_settled: "proc_step HK p (queueSet_settled HK e n key enc ttl level okay p)"
| clear_settled: "proc_step HK p (snd (queueClear_settled e n p))"
| chase: "proc_step HK p (snd (settleClearGen e True n p))"
| flush: "proc_step HK p (flush_at e n p)"
| sent: "proc_step HK p (upd_inst n (send_done failed) p)"
| doorbell: "proc_step HK p (upd_inst n (\<lambda>i. i\<lparr>iLink := (iLink i)\<lparr>kDoorbell := False\<rparr>\<rparr>) p)"
| caps: "proc_step HK p (upd_inst n (runCaps HK (env_in p e) (yArena p)) p)"
| gc: "proc_step HK p (upd_inst n (\<lambda>i. l1_at (\<lambda>s. fst (onGc (gL1 (iCfg i)) used limit s)) i) p)"
| recover: "proc_step HK p (tryRecover r p)"
| message: "proc_step HK p (snd (on_channel HK e ev (l, p)))"
| tick: "proc_step HK p (maintenance_tick HK e swept p)"
| elsewhere: "(arena_step (hash_of HK))\<^sup>*\<^sup>* (yArena p) a \<Longrightarrow> proc_step HK p (p\<lparr>yArena := a\<rparr>)"
| close: "proc_step HK p (close w n p)"
| close_drained: "proc_step HK p (close_drained n p)"
| close_done: "proc_step HK p (close_done n p)"

definition boot :: "arena \<Rightarrow> bool \<Rightarrow> bool \<Rightarrow> string \<Rightarrow> bool \<Rightarrow> proc" where
  "boot a primary rings nonce named =
     \<lparr>yInsts = [], yArena = a, yReady = True, yPrimary = primary, ySubmit = rings, yMarkSeq = 0, yClears = 0,
      yOwed = [], yCursor = 0, ySent = [], yNonce = nonce,
      yRecov = \<lparr>rvDegraded = False, rvTimer = False, rvLastHb = - 1, rvArenaId = None, rvName = named\<rparr>\<rparr>"

definition proc_reach :: "(jsstr \<Rightarrow> hash option) \<Rightarrow> proc \<Rightarrow> bool" where
  "proc_reach HK p \<longleftrightarrow> (\<exists>a primary rings nonce named. (proc_step HK)\<^sup>*\<^sup>* (boot a primary rings nonce named) p)"

lemma proc_step_ok: "proc_step HK p q \<Longrightarrow> proc_ok HK p \<Longrightarrow> proc_ok HK q"
proof (induction rule: proc_step.induct)
  case (opens p n g l3 mv)
  then show ?case
    using new_inst_good [of HK "yMarkSeq p" g l3 mv]
    by (auto simp: proc_ok_def map_of_eq_None_iff map_add_def simp flip: map_of_eq_None_iff split: option.split)
next
  case (queue p n i q q')
  have "good HK (yMarkSeq p) (i\<lparr>iQueue := Some q'\<rparr>)"
  proof -
    have g: "good HK (yMarkSeq p) i" using queue(1,4) by (rule proc_okD [rotated])
    then obtain m r where "queue_reach m r q" using goodD(4) [OF g] queue(2) by (auto simp: queue_ok_def)
    then have "queue_reach m r q'" using queue(3) by (rule reach_step)
    then have "queue_ok (Some q')" by (auto simp: queue_ok_def)
    then show ?thesis using g by (simp add: good_def inst_ok_def)
  qed
  then show ?case using queue(1,4) by (intro upd_ok) simp_all
next
  case (gc p n used limit)
  then show ?case by (intro upd_ok l1_at_good onGc_inv) simp_all
next
  case (ring p n r)
  then show ?case by (intro upd_ok) (auto simp: useSubmissionRing_def intro!: good_link split: option.split)
next
  case (doorbell p n)
  then show ?case by (intro upd_ok good_link) simp_all
next
  case (clear_async p e n)
  then show ?case by (simp add: clearAsync_def case_prod_beta Let_def take_last_ok clearAll_ok)
qed (auto intro: setKey_ok setAsync_ok delete_ok deleteAsync_ok clearAll_ok get_at_ok getAsync_ok getAsync_done_ok
    hasAsync_ok queueSet_settled_ok clear_ok flush_at_ok upd_ok send_done_good runCaps_good tryRecover_ok on_channel_ok
    maintenance_ok close_ok)

lemma boot_ok [simp]: "proc_ok HK (boot a primary rings nonce named)"
  by (simp add: proc_ok_def boot_def)

definition booted :: "proc \<Rightarrow> bool" where
  "booted p \<longleftrightarrow> (\<exists>a primary rings nonce named. p = boot a primary rings nonce named)"

interpretation pr: step_invariant "proc_step HK" booted "proc_ok HK" for HK
  by unfold_locales (auto simp: booted_def intro: proc_step_ok)

lemma proc_reach_booted: "proc_reach HK p \<longleftrightarrow> (\<exists>b. booted b \<and> (proc_step HK)\<^sup>*\<^sup>* b p)"
  unfolding proc_reach_def booted_def by blast

lemma proc_reach_ok: "proc_reach HK p \<Longrightarrow> proc_ok HK p"
  using pr.inv_reached by (auto simp: proc_reach_booted)

end
