(* ===== verification/Moves.thy ===== *)
theory Moves
  imports ProcStep
begin

text \<open>
  Every operation of a process moves the arena by steps that its ring records, so that what the
  readers of the ring conclude holds whoever wrote. The one exception is the recovery, which maps another arena.
\<close>

definition moves :: "(jsstr \<Rightarrow> hash option) \<Rightarrow> proc \<Rightarrow> proc \<Rightarrow> bool" where
  "moves HK p q \<longleftrightarrow> (arena_step (hash_of HK))\<^sup>*\<^sup>* (yArena p) (yArena q)"

named_theorems move_intros

lemma moves_refl [simp]: "moves HK p p"
  by (simp add: moves_def)

lemma moves_trans: "moves HK p q \<Longrightarrow> moves HK q r \<Longrightarrow> moves HK p r"
  unfolding moves_def by (rule rtranclp_trans)

lemma moves_same: "yArena q = yArena p \<Longrightarrow> moves HK p q"
  by (simp add: moves_def)

lemma moves_frame [simp]:
  "moves HK p (upd_inst n f q) = moves HK p q" "moves HK p (all_open g q) = moves HK p q"
  "moves HK p (other_open n g q) = moves HK p q" "moves HK (upd_inst n f p) q = moves HK p q"
  "moves HK p (q\<lparr>yMarkSeq := m\<rparr>) = moves HK p q" "moves HK p (q\<lparr>yReady := b\<rparr>) = moves HK p q"
  "moves HK p (q\<lparr>yClears := c\<rparr>) = moves HK p q" "moves HK p (q\<lparr>yOwed := ow\<rparr>) = moves HK p q"
  "moves HK p (q\<lparr>yCursor := k\<rparr>) = moves HK p q" "moves HK p (q\<lparr>ySent := s\<rparr>) = moves HK p q"
  "moves HK p (set_recov r q) = moves HK p q" "moves HK p (cancelCaps key q) = moves HK p q"
  "moves HK p (cancelAllCaps q) = moves HK p q" "moves HK p (dropOthers key n q) = moves HK p q"
  "moves HK p (clearOthers n q) = moves HK p q" "moves HK p (localDrop key q) = moves HK p q"
  "moves HK p (q\<lparr>ySubmit := b\<rparr>) = moves HK p q" "moves HK p (q\<lparr>yPrimary := b\<rparr>) = moves HK p q"
  "moves HK p (queued qf n q) = moves HK p q" "moves HK p (q\<lparr>yInsts := xs\<rparr>) = moves HK p q"
  by (simp_all add: moves_def cancelCaps_def cancelAllCaps_def dropOthers_def clearOthers_def localDrop_def queued_def)

lemma moves_from [simp]:
  "moves HK (p\<lparr>yClears := c\<rparr>) q = moves HK p q"
  by (simp add: moves_def)

lemma hash_of_Some: "HK key = Some h \<Longrightarrow> hash_of HK key = h"
  by (simp add: hash_of_def)

lemma step_set: "HK key = Some h \<Longrightarrow> n_set h room now key enc w ttl a = (b, a') \<Longrightarrow> (arena_step (hash_of HK))\<^sup>*\<^sup>* a a'"
  using arena_step.set [of "hash_of HK" a key room now enc w ttl] by (simp add: hash_of_Some)

lemma step_del: "HK key = Some h \<Longrightarrow> n_del h key w a = (b, a') \<Longrightarrow> (arena_step (hash_of HK))\<^sup>*\<^sup>* a a'"
  using arena_step.del [of "hash_of HK" a key w] by (simp add: hash_of_Some)

lemma publishArena_moves [move_intros]:
  "moves HK p (snd (publishArenaSet HK e key enc w ttl p))"
  "moves HK p (snd (publishArenaDel HK key w p))" "moves HK p (publishArenaClear w p)"
proof -
  show "moves HK p (snd (publishArenaSet HK e key enc w ttl p))"
    using step_set [of HK key] by (force simp: publishArenaSet_def moves_def cancelCaps_def Let_def split: option.split prod.split)
  show "moves HK p (snd (publishArenaDel HK key w p))"
    using step_del [of HK key] by (force simp: publishArenaDel_def moves_def cancelCaps_def Let_def split: option.split prod.split)
  show "moves HK p (publishArenaClear w p)"
    using arena_step.clear [of "hash_of HK" "yArena p" w] by (auto simp: publishArenaClear_def moves_def cancelAllCaps_def)
qed

lemma publishL3Derived_moves [move_intros]: "moves HK p (snd (publishL3Derived HK e key enc ttl n b p))"
  using publishArena_moves(1) by (simp add: publishL3Derived_def case_prod_beta Let_def)

lemma submit_steps: "submit e ring op a = (b, a') \<Longrightarrow> (arena_step H)\<^sup>*\<^sup>* a a'"
  using arena_step.submit [of H a _ op "eNeed e" "ePad e"]
  by (auto simp: submit_def split: option.splits) (metis r_into_rtranclp snd_conv)

lemma publishRing_moves [move_intros]:
  "moves HK p (snd (publishRing HK' e n ring key op p))"
  "moves HK p (snd (publishRingSet HK' e n ring key enc ttl p))" "moves HK p (snd (publishRingDel HK' e n ring key p))"
proof -
  show r: "moves HK p (snd (publishRing HK' e n ring key op p))" for op
  proof -
    obtain b a where s: "submit e ring op (yArena p) = (b, a)" by force
    show ?thesis using s submit_steps [OF s] by (simp add: publishRing_def Let_def) (simp add: moves_def)
  qed
  show "moves HK p (snd (publishRingSet HK' e n ring key enc ttl p))" "moves HK p (snd (publishRingDel HK' e n ring key p))"
    by (simp_all add: publishRingSet_def publishRingDel_def r)
qed

lemma flush_at_arena [simp]: "yArena (flush_at e n p) = yArena p"
  by (simp add: flush_at_def case_prod_beta Let_def split: option.split)

lemma outbox_arena [simp]:
  "yArena (schedule e n b p) = yArena p" "yArena (publishOutbox e n key op b p) = yArena p"
  "yArena (publishOutboxOp e n op supersedes p) = yArena p" "yArena (retimeOutbox e n key enc cap p) = yArena p"
proof -
  show s: "yArena (schedule e n b p) = yArena p" for b p by (simp add: schedule_def Let_def split: option.split)
  show "yArena (publishOutbox e n key op b p) = yArena p" "yArena (publishOutboxOp e n op supersedes p) = yArena p"
    "yArena (retimeOutbox e n key enc cap p) = yArena p"
    by (simp_all add: publishOutbox_def publishOutboxOp_def retimeOutbox_def Let_def s cancelCaps_def cancelAllCaps_def)
qed

lemma outbox_moves [simp]:
  "moves HK p (publishOutbox e n key op b q) = moves HK p q" "moves HK p (publishOutboxOp e n op supersedes q) = moves HK p q"
  "moves HK p (retimeOutbox e n key enc cap q) = moves HK p q" "moves HK p (flush_at e n q) = moves HK p q"
  by (simp_all add: moves_def)

lemma degrade_arena [simp]: "yArena (degrade p) = yArena p" "yArena (check_at e n p) = yArena p"
proof -
  show d: "yArena (degrade p) = yArena p" for p by (simp add: degrade_def Let_def)
  show "yArena (check_at e n p) = yArena p" by (simp add: check_at_def case_prod_beta Let_def d split: option.split)
qed

lemma mark_arena [simp]:
  "yArena (markWrite key h pos sub n p) = yArena p" "yArena (markDelete key h pos sub n p) = yArena p"
  by (simp_all add: markWrite_def markDelete_def case_prod_beta Let_def)

lemma arena_moves [simp]:
  "moves HK p (degrade q) = moves HK p q" "moves HK p (check_at e n q) = moves HK p q"
  "moves HK p (markWrite key h pos sub n q) = moves HK p q" "moves HK p (markDelete key h pos sub n q) = moves HK p q"
  by (simp_all add: moves_def)

lemma capArena_steps: "(arena_step (hash_of HK))\<^sup>*\<^sup>* a (snd (capArena HK room tick key enc cap a))"
proof -
  have "(arena_step (hash_of HK))\<^sup>*\<^sup>* a (snd (retimeArena HK room tick key enc cap a))"
    using arena_step.set [of "hash_of HK" a key room tick enc 0 "readTtlMs cap"]
    by (auto simp: retimeArena_def hash_of_Some split: option.split)
  then show ?thesis by (auto simp: capArena_def Let_def case_prod_beta split: option.split)
qed

lemma capL2_moves [move_intros]: "moves HK p (snd (capL2AfterL3Failure HK e n key enc cap p))"
  using capArena_steps [of HK "yArena p" "eFits e key" "eTick e" key enc cap]
  by (simp add: capL2AfterL3Failure_def Let_def case_prod_beta) (simp add: moves_def)

lemma capAfterL3Failure_moves [move_intros]: "moves HK p (capAfterL3Failure HK e n key enc ttl p)"
proof -
  have "moves HK (snd x) (snd (capL2AfterL3Failure HK e n key enc cap (snd x)))" for x :: "bool \<times> proc" and cap
    by (rule capL2_moves)
  moreover have "moves HK p (snd (case map_of (l1Map (iL1 (inst_of n p))) key of
               None \<Rightarrow> (False, p)
             | Some en \<Rightarrow> if eExp en = 0 \<or> eExp en > d
                 then (True, upd_inst n (l1_at (l1_set key (en\<lparr>eExp := d\<rparr>))) p) else (False, p)))" for d
    by (simp split: option.split)
  ultimately show ?thesis
    unfolding capAfterL3Failure_def Let_def case_prod_beta
    by (simp only: if_split fst_conv snd_conv moves_frame) (meson moves_trans)
qed

lemma queueSet_settled_moves [move_intros]: "moves HK p (queueSet_settled HK e n key enc ttl level okay p)"
  by (simp add: queueSet_settled_def capAfterL3Failure_moves)

section \<open>Writes\<close>

lemma set_evict_moves [move_intros]: "moves HK p (set_evict HK e pos key n p)"
  using publishArena_moves(2) [of HK p key 0] publishRing_moves(3) [of HK p HK e n _ key]
  by (simp add: set_evict_def Let_def case_prod_beta)

lemma set_primary_moves [move_intros]: "moves HK p (snd (set_primary HK e level key enc ttl n p))"
  using publishArena_moves(1) [of HK p e key enc 0 ttl] by (simp add: set_primary_def Let_def case_prod_beta)

lemma set_worker_moves [move_intros]: "moves HK p (set_worker HK e level pos key enc ttl n p)"
  using publishRing_moves(2) [of HK p HK e n _ key enc ttl] by (simp add: set_worker_def Let_def case_prod_beta)

lemma set_commit_moves [move_intros]: "moves HK p (snd (set_commit HK e level key lv enc ttl n p))"
proof -
  have "moves HK q (snd (set_publish HK e level pos key enc ttl n q))" for pos q
    by (simp add: set_publish_def set_evict_moves set_primary_moves set_worker_moves)
  then have "moves HK p (snd (set_publish HK e level pos key enc ttl n (upd_inst n f (upd_inst n g p))))" for pos f g
    by (metis moves_frame(4))
  then show ?thesis by (auto simp: set_commit_def Let_def case_prod_beta split: sum.split)
qed

lemma setKey_moves [move_intros]: "moves HK p (snd (setKey HK e k v opts n p))"
proof -
  have b: "moves HK q (snd (set_body HK e level key v t n q))" for level key t q
    by (auto simp: set_body_def set_commit_moves split: option.split sum.split prod.split)
  have "moves HK p (snd (set_body HK e level key v t n (upd_inst n (bump ''sets'') (check_at e n p))))" for level key t
    by (rule moves_trans [OF _ b]) simp
  then show ?thesis by (auto simp: setKey_def Let_def split: sum.split jsval.split option.split)
qed

lemma setAsync_moves [move_intros]: "moves HK p (snd (setAsync HK e k v opts n p))"
  using setKey_moves [of HK p e k v opts n]
  by (auto simp: setAsync_def take_last_def case_prod_beta Let_def split: sum.split bool.split)

lemma delete_moves [move_intros]: "moves HK p (snd (delete HK e k n p))"
proof -
  have 1: "moves HK q (snd (delete_primary HK e key n q))" for key q
    using publishArena_moves(2) [of HK q key 0] by (simp add: delete_primary_def Let_def case_prod_beta)
  have 2: "moves HK q (snd (delete_worker HK e key n q))" for key q
  proof -
    have "moves HK q (snd (publishRingDel HK e n ring key r))" if "moves HK q r" for ring r
      using moves_trans [OF that publishRing_moves(3)] .
    then show ?thesis by (simp add: delete_worker_def Let_def case_prod_beta)
  qed
  have "moves HK p (snd (delete_primary HK e key n (upd_inst n (bump ''deletes'') (check_at e n p))))"
    "moves HK p (snd (delete_worker HK e key n (upd_inst n (bump ''deletes'') (check_at e n p))))" for key
    by (rule moves_trans [OF _ 1], simp, rule moves_trans [OF _ 2], simp)
  then show ?thesis by (auto simp: delete_def Let_def case_prod_beta split: jsval.split)
qed

lemma deleteAsync_moves [move_intros]: "moves HK p (snd (deleteAsync HK e k n p))"
  using delete_moves by (simp add: deleteAsync_def case_prod_beta Let_def take_last_def)

lemma step_gen: "(arena_step H)\<^sup>*\<^sup>* a (l3ClearBegin a)" "(arena_step H)\<^sup>*\<^sup>* a (l3ClearSettle a)"
  by (auto intro: arena_step.intros)

lemma clearGen_moves [move_intros]:
  "moves HK p (openClearGen e n p)" "moves HK p (snd (settleClearGen e again n p))" "moves HK p (snd (queueClear_settled e n p))"
  using step_gen [of "hash_of HK" "yArena p"]
  by (auto simp: openClearGen_def settleClearGen_def queueClear_settled_def clearBegin_def clearSettle_def Let_def moves_def)

lemma clearAll_moves [move_intros]: "moves HK p (clearAll e n p)" "moves HK p (snd (clearAsync e n p))"
proof -
  have o: "moves HK p (openClearGen e n ((upd_inst n clearLocal p)\<lparr>yClears := c\<rparr>))" for c
    using clearGen_moves(1) [of HK "(upd_inst n clearLocal p)\<lparr>yClears := c\<rparr>" e n] by simp
  have c: "moves HK p (publishArenaClear 0 q)" if "moves HK p q" for q
    using that publishArena_moves(3) by (rule moves_trans)
  show k: "moves HK p (clearAll e n p)" using o c by (simp add: clearAll_def Let_def)
  show "moves HK p (snd (clearAsync e n p))" using k by (simp add: clearAsync_def take_last_def case_prod_beta Let_def)
qed

section \<open>Reads, the primary\<close>

lemma get_at_moves [move_intros]:
  "moves HK p (snd (get_at HK e k lv n p))" "moves HK p (snd (has_at HK e k n p))"
  by (simp_all add: get_at_def has_at_def case_prod_beta Let_def)

lemma getAsync_moves [move_intros]: "moves HK p (snd (getAsync HK e k lv n p))"
  using get_at_moves(1) [of HK p e k lv n]
  by (auto simp: getAsync_def start_fetch_def Let_def case_prod_beta split: sum.split jsval.split option.split)

lemma primary_rounds_arena [simp]: "yArena (primary_rounds r p) = yArena p"
proof (induction r arbitrary: p)
  case (Suc r)
  have "yArena (fold primary_record rs p) = yArena p" for rs p
    by (induction rs arbitrary: p) (simp_all add: primary_record_def)
  then show ?case using Suc by (simp add: Let_def)
qed simp

lemma drainSubmissions_moves [move_intros]: "moves HK p (snd (drainSubmissions HK e b p))"
  using submitDrain_steps [of "hash_of HK" "yArena p" "eFits e" "eTick e" b]
  by (simp add: drainSubmissions_def case_prod_beta Let_def primaryInvalidate_def moves_def)

lemma drain_until_empty_moves [move_intros]: "moves HK p (drain_until_empty HK e r p)"
proof (induction r arbitrary: p)
  case (Suc r)
  show ?case
    using moves_trans [OF drainSubmissions_moves Suc.IH] drainSubmissions_moves [of HK p e 8192]
    by (simp add: case_prod_beta)
qed simp

lemma promotionBlock_moves [move_intros]: "moves HK p (snd (promotionBlock HK e n key mark cm p))"
  by (simp add: promotionBlock_def Let_def drain_until_empty_moves split: option.split)

lemma fillFromL3_moves [move_intros]: "moves HK p (snd (fillFromL3 HK e n key ttl level enc v p))"
  using publishL3Derived_moves [of HK p e key enc _ n] by (auto simp: fillFromL3_def Let_def split: sum.split)

lemma fetched_moves [move_intros]: "moves HK p (snd (fetched HK e n level key mark cm reply p))"
proof -
  let ?q = "snd (promotionBlock HK e n key mark cm (upd_inst n (bump ''l3Hits'') p))"
  have b: "moves HK p ?q"
    using promotionBlock_moves [of HK "upd_inst n (bump ''l3Hits'') p" e n key mark cm] by simp
  then have "moves HK p (snd (fillFromL3 HK e n key ttl level enc v ?q))" for ttl enc v
    using fillFromL3_moves by (rule moves_trans)
  then show ?thesis
    using b by (auto simp: fetched_def case_prod_beta Let_def split: l3Reply.split option.split sum.split)
qed

lemma getAsync_done_moves [move_intros]:
  "getAsync_done HK e n level key reply p = Some (v, q) \<Longrightarrow> moves HK p q"
  by (auto simp: getAsync_done_def case_prod_beta Let_def fetched_moves split: option.splits)

lemma hasAsync_moves [move_intros]: "moves HK p (snd (hasAsync HK e k n p))"
  using get_at_moves(2) [of HK p e k n]
  by (auto simp: hasAsync_def Let_def case_prod_beta split: sum.split bool.split jsval.split)

lemma clearFor_moves [move_intros]: "moves HK p (l3ClearOpenFor who p)" "moves HK p (snd (l3ClearSettleFor who p))"
  using step_gen [of "hash_of HK" "yArena p"]
  by (simp_all add: l3ClearOpenFor_def l3ClearSettleFor_def clearBegin_def clearSettle_def Let_def) (simp_all add: moves_def)

lemma release_loop_moves [move_intros]: "moves HK p (snd (release_loop who p))"
proof (induction who p rule: release_loop.induct)
  case (1 who p)
  show ?case using 1(1) [OF refl prod.collapse] clearFor_moves(2) [of HK p who] moves_trans
    by (subst release_loop.simps) (auto simp: case_prod_beta Let_def)
qed

lemma apply_op_moves: "moves HK p (apply_op HK e m op p)"
proof (cases op)
  case (ORetime key enc cap)
  then show ?thesis
    using capArena_steps [of HK "yArena p" "eFits e key" "eTick e" key enc cap]
    by (simp add: apply_op_def case_prod_beta Let_def) (simp add: moves_def)
qed (auto simp: apply_op_def publishArena_moves clearFor_moves split: option.split)

lemma applyBatch_moves [move_intros]: "moves HK p (applyBatch HK e m p)"
proof -
  have "moves HK q (fold (apply_op HK e m) ops q)" for ops q
    by (induction ops arbitrary: q) (auto intro: moves_trans apply_op_moves)
  then have "moves HK (drain_until_empty HK e 512 p) (applyBatch HK e m p)" if "ySubmit p"
    using that by (simp add: applyBatch_def)
  moreover have "moves HK p (fold (apply_op HK e m) ops p)" for ops
    by (induction ops arbitrary: p) (auto intro: moves_trans apply_op_moves)
  ultimately show ?thesis
    using moves_trans [OF drain_until_empty_moves] by (cases "ySubmit p") (auto simp: applyBatch_def)
qed

lemma on_channel_moves [move_intros]: "moves HK p (snd (on_channel HK e ev (l, p)))"
proof (cases ev)
  case Gone
  have "moves HK p q" if "release_loop who p = (k, q)" for who k q
    using release_loop_moves [of HK p who] that by simp
  then show ?thesis using Gone by (auto simp: releaseWorker_def split: option.split prod.split)
qed (simp_all add: drainSubmissions_moves applyBatch_moves)

lemma maintenance_moves [move_intros]: "moves HK p (maintenance_tick HK e swept p)"
proof -
  have "(arena_step (hash_of HK))\<^sup>*\<^sup>* a (fold (\<lambda>key. n_sweep (hash_of HK key) (eTick e) key) ks a)" for ks a
  proof (induction ks arbitrary: a)
    case (Cons k ks)
    show ?case using converse_rtranclp_into_rtranclp [OF arena_step.sweep Cons.IH] by simp
  qed simp
  then show ?thesis
    using drainSubmissions_moves [of HK p e 8192]
    by (auto simp: maintenance_tick_def Let_def moves_def intro: rtranclp_trans)
qed

lemma close_moves [move_intros]: "moves HK p (close w n p)" "moves HK p (close_drained n p)" "moves HK p (close_done n p)"
  by (auto simp: close_def close_drained_def close_done_def closeLocal_def Let_def)

text \<open>The theorem the coherence rests on: a step moves the arena by recorded steps, or is a recovery.\<close>

lemma proc_step_moves: "proc_step HK p q \<Longrightarrow> moves HK p q \<or> (\<exists>r. q = tryRecover r p)"
proof (induction rule: proc_step.induct)
  case (elsewhere p a)
  then show ?case by (simp add: moves_def)
qed (auto intro: move_intros)

end
