(* ===== verification/CohRun.thy ===== *)
theory CohRun
  imports Moves
begin

text \<open>
  Coherence over the runs of a process. \<open>tame\<close> relates a cache object before and after: a worker's object without
  a shared store that was coherent with the arena of then is coherent with the arena of now. Every
  operation is tame on every object of its process.
\<close>

definition tame :: "(jsstr \<Rightarrow> hash option) \<Rightarrow> arena \<Rightarrow> arena \<Rightarrow> inst \<Rightarrow> inst \<Rightarrow> bool" where
  "tame HK a b i j \<longleftrightarrow>
     iCfg j = iCfg i \<and> (vDead (iLive i) \<longrightarrow> vDead (iLive j)) \<and> (vClosed (iLive i) \<longrightarrow> vClosed (iLive j)) \<and>
     (gId (iCfg i) \<noteq> 0 \<and> \<not> gHasL3 (iCfg i) \<and> worker_inv HK a i \<longrightarrow> worker_inv HK b j)"

named_theorems tame_intros

lemma tame_refl [simp]: "tame HK a a i i"
  by (simp add: tame_def)

lemma tame_trans: "tame HK a b i j \<Longrightarrow> tame HK b c j k \<Longrightarrow> tame HK a c i k"
  by (simp add: tame_def)

lemma tame_then:
  assumes "tame HK a b i j" "iCfg k = iCfg j" "vDead (iLive j) \<Longrightarrow> vDead (iLive k)" "vClosed (iLive j) \<Longrightarrow> vClosed (iLive k)"
    and "gId (iCfg j) \<noteq> 0 \<Longrightarrow> worker_inv HK b j \<Longrightarrow> worker_inv HK b k"
  shows "tame HK a b i k"
  using assms by (simp add: tame_def)

lemma worker_inv_parts:
  assumes "worker_inv HK a i" "iCfg j = iCfg i" "iL1 j = iL1 i" "cCursor (iCoh j) = cCursor (iCoh i)"
    and "coh_ok HK (iCoh i) \<Longrightarrow> coh_ok HK (iCoh j)"
  shows "worker_inv HK a j"
proof -
  have "fresh HK a j"
    by (rule fresh_fewer [OF worker_invD(3) [OF assms(1)] assms(2,4)]) (use assms(3) in \<open>auto simp: same_entry_def\<close>)
  then show ?thesis using assms by (simp add: worker_inv_def inst_ok_def)
qed

text \<open>The frame: neither the tier nor the cursor.\<close>

lemma tame_frame:
  assumes "tame HK a b i j" "iCfg k = iCfg j" "iL1 k = iL1 j" "cCursor (iCoh k) = cCursor (iCoh j)"
    and "coh_ok HK (iCoh j) \<Longrightarrow> coh_ok HK (iCoh k)" "iLive k = iLive j"
  shows "tame HK a b i k"
  using assms(1,2) by (rule tame_then) (use assms worker_inv_parts in auto)

lemma tame_fewer:
  assumes "tame HK a b i j" "iCfg k = iCfg j" "cCursor (iCoh k) = cCursor (iCoh j)" "iLive k = iLive j"
    and "l1_within (iL1 k) (iL1 j)" "inst_ok HK j \<Longrightarrow> inst_ok HK k"
    and "inst_ok HK j \<Longrightarrow> l1_indexed HK (iL1 j) \<Longrightarrow> l1_indexed HK (iL1 k)"
  shows "tame HK a b i k"
  using assms(1,2)
proof (rule tame_then)
  assume w: "worker_inv HK b j"
  have "fresh HK b k"
    by (rule fresh_fewer [OF worker_invD(3) [OF w] assms(2,3)]) (use assms(5) in \<open>auto simp: l1_within_def\<close>)
  then show "worker_inv HK b k" using w assms(6,7) by (simp add: worker_inv_def)
qed (use assms(4) in simp_all)

section \<open>The operations of one object\<close>

lemma bump_tame [tame_intros]:
  "tame HK a b i j \<Longrightarrow> tame HK a b i (bump c j)" "tame HK a b i j \<Longrightarrow> tame HK a b i (add_stat c n j)"
  by (erule tame_frame; simp)+

lemma caps_tame [tame_intros]:
  "tame HK a b i j \<Longrightarrow> tame HK a b i (cancelCap k j)" "tame HK a b i j \<Longrightarrow> tame HK a b i (cancelOwnCaps j)"
  "tame HK a b i j \<Longrightarrow> tame HK a b i (capLost k c j)" "tame HK a b i j \<Longrightarrow> tame HK a b i (countCapLost c j)"
  "tame HK a b i j \<Longrightarrow> tame HK a b i (capUnapplied k j)" "tame HK a b i j \<Longrightarrow> tame HK a b i (capEntryUnconfirmed k j)"
  "tame HK a b i j \<Longrightarrow> tame HK a b i (set_caps m j)" "tame HK a b i j \<Longrightarrow> tame HK a b i (stopCapTimer j)"
  "tame HK a b i j \<Longrightarrow> tame HK a b i (j\<lparr>iCaps := c'\<rparr>)"
  by (erule tame_frame; simp add: countCapLost_def capUnapplied_def capEntryUnconfirmed_def set_caps_def stopCapTimer_def)+

lemma fold_tame: "(\<And>x j. tame HK a b i j \<Longrightarrow> tame HK a b i (f x j)) \<Longrightarrow> tame HK a b i j \<Longrightarrow> tame HK a b i (fold f xs j)"
  by (induction xs arbitrary: j) simp_all

lemma noteCap_tame [tame_intros]: "tame HK a b i j \<Longrightarrow> tame HK a b i (noteCap e c key enc cap j)"
  by (auto simp: noteCap_def Let_def intro: caps_tame)

lemma runCaps_tame [tame_intros]: "tame HK a b i j \<Longrightarrow> tame HK a b i (runCaps HK' e c j)"
proof -
  assume t: "tame HK a b i j"
  have "tame HK a b i (judgeRetiredCaps HK' (eTick e) c rs j)" for rs
    unfolding judgeRetiredCaps_def Let_def
    by (auto intro!: fold_tame t simp: judge_one_def Let_def caps_tame split: option.split)
  then show ?thesis using t by (auto simp: runCaps_def Let_def intro!: caps_tame fold_tame)
qed

lemma link_tame [tame_intros]:
  "tame HK a b i j \<Longrightarrow> tame HK a b i (j\<lparr>iLink := l\<rparr>)" "tame HK a b i j \<Longrightarrow> tame HK a b i (j\<lparr>iQueue := q\<rparr>)"
  "tame HK a b i j \<Longrightarrow> tame HK a b i (j\<lparr>iReads := r\<rparr>)" "tame HK a b i j \<Longrightarrow> tame HK a b i (set_last x j)"
  "tame HK a b i j \<Longrightarrow> tame HK a b i (push_op op j)" "tame HK a b i j \<Longrightarrow> tame HK a b i (ringDoorbell j)"
  by (erule tame_frame; simp add: set_last_def push_op_def ringDoorbell_def)+

lemma ring_tame [tame_intros]: "tame HK a b i j \<Longrightarrow> tame HK a b i (useSubmissionRing r j)"
  by (erule tame_frame; simp add: useSubmissionRing_def split: option.split)

lemma marks_tame [tame_intros]:
  "tame HK a b i j \<Longrightarrow> tame HK a b i (releaseMarks k j)"
  "tame HK a b i j \<Longrightarrow> tame HK a b i (noteDeleted k pos j)"
  "tame HK a b i j \<Longrightarrow> tame HK a b i (release_op n op j)"
  "tame HK a b i j \<Longrightarrow> tame HK a b i (j\<lparr>iCoh := (iCoh j)\<lparr>cDel := mk_release k (cDel (iCoh j))\<rparr>\<rparr>)"
proof -
  show "tame HK a b i j \<Longrightarrow> tame HK a b i (releaseMarks k j)"
    "tame HK a b i j \<Longrightarrow> tame HK a b i (j\<lparr>iCoh := (iCoh j)\<lparr>cDel := mk_release k (cDel (iCoh j))\<rparr>\<rparr>)"
    by (erule tame_frame; simp add: releaseMarks_def coh_ok_def)+
  show "tame HK a b i j \<Longrightarrow> tame HK a b i (noteDeleted k pos j)"
    by (erule tame_frame) (simp_all add: noteDeleted_ok)
  show "tame HK a b i j \<Longrightarrow> tame HK a b i (release_op n op j)"
    by (cases op) (auto elim!: tame_frame simp: coh_ok_def)
qed

lemma outbox_tame [tame_intros]:
  "tame HK a b i j \<Longrightarrow> tame HK a b i (releaseBatchMarks ops n j)" "tame HK a b i j \<Longrightarrow> tame HK a b i (dropOutboxCaps j)"
  "tame HK a b i j \<Longrightarrow> tame HK a b i (batch_lost ops ks n j)" "tame HK a b i j \<Longrightarrow> tame HK a b i (shed_outbox n j)"
proof -
  show r: "tame HK a b i j \<Longrightarrow> tame HK a b i (releaseBatchMarks ops n j)" for j ops
    unfolding releaseBatchMarks_def by (intro fold_tame marks_tame)
  show d: "tame HK a b i j \<Longrightarrow> tame HK a b i (dropOutboxCaps j)" for j
    unfolding dropOutboxCaps_def Let_def by (intro link_tame fold_tame [OF caps_tame(5)])
  show "tame HK a b i j \<Longrightarrow> tame HK a b i (batch_lost ops ks n j)"
    unfolding batch_lost_def by (intro fold_tame [OF caps_tame(5)] r bump_tame)
  show "tame HK a b i j \<Longrightarrow> tame HK a b i (shed_outbox n j)"
    unfolding shed_outbox_def Let_def by (intro link_tame d r bump_tame)
qed

lemma flush_tame [tame_intros]:
  "tame HK a b i j \<Longrightarrow> tame HK a b i (fst (flush e n j))" "tame HK a b i j \<Longrightarrow> tame HK a b i (send_done failed j)"
proof -
  have s: "tame HK a b i j \<Longrightarrow> tame HK a b i (fst (send_batch e n j))" for j
    by (auto simp: send_batch_def Let_def intro!: outbox_tame link_tame bump_tame split: sendResult.split)
  show "tame HK a b i j \<Longrightarrow> tame HK a b i (fst (flush e n j))"
    by (auto simp: flush_def Let_def intro!: s outbox_tame link_tame)
  show "tame HK a b i j \<Longrightarrow> tame HK a b i (send_done failed j)"
    by (auto simp: send_done_def Let_def intro!: outbox_tame link_tame split: list.split)
qed

lemma queue_tame [tame_intros]:
  "tame HK a b i j \<Longrightarrow> tame HK a b i (snd (queue_op e op j))"
  "tame HK a b i j \<Longrightarrow> tame HK a b i (snd (queueSet e key enc ttl level j))"
  "tame HK a b i j \<Longrightarrow> tame HK a b i (on_queue f j)"
proof -
  show q: "tame HK a b i j \<Longrightarrow> tame HK a b i (snd (queue_op e op j))" for op j
    by (auto simp: queue_op_def case_prod_beta intro: link_tame split: option.split)
  show "tame HK a b i j \<Longrightarrow> tame HK a b i (snd (queueSet e key enc ttl level j))"
    by (auto simp: queueSet_def intro!: q bump_tame)
  show "tame HK a b i j \<Longrightarrow> tame HK a b i (on_queue f j)" by (simp add: on_queue_def link_tame)
qed

lemma setDead_tame [tame_intros]: "tame HK a b i j \<Longrightarrow> tame HK a b i (setDead True j)"
  by (erule tame_then) (auto elim: worker_inv_parts)

lemma checkPrimary_live: "vDead (iLive i) \<Longrightarrow> fst (checkPrimary e i) = i"
  "vClosed (iLive i) \<Longrightarrow> vClosed (iLive (fst (checkPrimary e i)))"
  by (auto simp: checkPrimary_def Let_def)

lemma checkPrimary_tame [tame_intros]: "tame HK a b i j \<Longrightarrow> tame HK a b i (fst (checkPrimary e j))"
  by (erule tame_then) (auto simp: checkPrimary_live checkPrimary_inv)

section \<open>The tier\<close>

lemma l1Drop_within: "l1_within (l1Drop k s) s"
  by (auto simp: l1_within_def split: if_splits)

lemma l1Drop_tame [tame_intros]:
  "inj_hash HK \<Longrightarrow> tame HK a b i j \<Longrightarrow> tame HK a b i (j\<lparr>iL1 := l1Drop k (iL1 j)\<rparr>)"
  "inj_hash HK \<Longrightarrow> tame HK a b i j \<Longrightarrow> tame HK a b i (l1_at (l1Drop k) j)"
  by (erule tame_fewer; simp add: l1_at_def l1Drop_within inst_ok_def l1Drop_inv l1Drop_indexed)+

lemma l1_clear_within [simp]: "l1_within (l1_clear s) s'"
  by (simp add: l1_within_def l1_clear_def)

lemma clear_tame [tame_intros]:
  "tame HK a b i j \<Longrightarrow> tame HK a b i (clearLocal j)" "tame HK a b i j \<Longrightarrow> tame HK a b i (dropCachedValues j)"
proof -
  show "tame HK a b i j \<Longrightarrow> tame HK a b i (clearLocal j)"
    by (erule tame_fewer) (simp_all add: clearLocal_ok)
  show "tame HK a b i j \<Longrightarrow> tame HK a b i (dropCachedValues j)"
    by (erule tame_fewer) (simp_all add: dropCachedValues_def inst_ok_def l1_clear_inv)
qed

lemma dropByHash_within: "l1_within (iL1 (dropByHash h i)) (iL1 i)"
  by (auto simp: l1_within_def dropByHash_l1 split: if_splits)

lemma dropByHash_tame [tame_intros]: "inj_hash HK \<Longrightarrow> tame HK a b i j \<Longrightarrow> tame HK a b i (dropByHash h j)"
  by (erule tame_fewer) (simp_all add: dropByHash_within inst_ok_def dropByHash_inv dropByHash_indexed)

lemma gc_tame [tame_intros]:
  assumes "inj_hash HK" "tame HK a b i j"
  shows "tame HK a b i (l1_at (\<lambda>s. fst (onGc c used limit s)) j)"
  using assms(2)
proof (rule tame_then)
  assume w: "worker_inv HK b j"
  have l1: "l1_inv HK (iL1 j)" using worker_invD(1) [OF w] by (rule inst_okD)
  have "l1_within (fst (onGc c used limit (iL1 j))) (iL1 j)" using l1 by (rule onGc_within)
  then have "fresh HK b (l1_at (\<lambda>s. fst (onGc c used limit s)) j)"
    by (intro fresh_fewer [OF worker_invD(3) [OF w]]) (auto simp: l1_at_def l1_within_def)
  then show "worker_inv HK b (l1_at (\<lambda>s. fst (onGc c used limit s)) j)"
    using w l1 onGc_indexed [OF assms(1) l1] onGc_inv [OF l1] by (simp add: worker_inv_def inst_ok_def l1_at_def)
qed (simp_all add: l1_at_def)

lemma set_l1_tame [tame_intros]:
  assumes "inj_hash HK" "tame HK a b i j"
  shows "tame HK a b i (set_l1 HK e level key lv len ttl pos j)"
proof (cases "level = 1")
  case True
  show ?thesis
    using assms(2)
  proof (rule tame_then)
    assume "gId (iCfg j) \<noteq> 0" and w: "worker_inv HK b j"
    then show "worker_inv HK b (set_l1 HK e level key lv len ttl pos j)"
      using True l1Put_worker_inv [OF assms(1) w, of "int pos"] by (simp add: set_l1_def l1_at_def)
  qed (use True in \<open>simp_all add: set_l1_def l1_at_def\<close>)
next
  case False
  then show ?thesis using l1Drop_tame(2) [OF assms] by (simp add: set_l1_def)
qed

lemma exp_tame [tame_intros]:
  assumes "tame HK a b i j" "map_of (l1Map (iL1 j)) key = Some en"
  shows "tame HK a b i (l1_at (l1_set key (en\<lparr>eExp := d\<rparr>)) j)"
  using assms(1)
proof (rule tame_then)
  assume w: "worker_inv HK b j"
  let ?k = "l1_at (l1_set key (en\<lparr>eExp := d\<rparr>)) j"
  have "inst_ok HK ?k" using worker_invD(1) [OF w] l1_touch_inv [OF _ assms(2)] by (simp add: inst_ok_def l1_at_def)
  moreover have "l1_indexed HK (iL1 ?k)"
    using worker_invD(2) [OF w] assms(2) by (auto simp: l1_indexed_def l1_at_def l1_set_def split: if_splits)
  moreover have "fresh HK b ?k"
    using worker_invD(3) [OF w] assms(2)
    by (auto simp: fresh_def l1_at_def l1_set_def fresh_entry_def unread_def split: if_splits)
  ultimately show "worker_inv HK b ?k" by (simp add: worker_inv_def)
qed (simp_all add: l1_at_def)

section \<open>Reads\<close>

lemma fill_live: "iLive (snd (fill_from_l2 HK e lv key raw rem i)) = iLive i"
  "iCfg (snd (fill_from_l2 HK e lv key raw rem i)) = iCfg i"
  by (auto simp: fill_from_l2_def Let_def split: option.splits sum.splits if_splits)

lemma get_drained_live [simp]: "iLive (snd (get_drained HK e a lv key i)) = iLive i"
  "iCfg (snd (get_drained HK e a lv key i)) = iCfg i"
proof -
  have l: "iLive (snd (get_l2 HK e a lv key j)) = iLive j \<and> iCfg (snd (get_l2 HK e a lv key j)) = iCfg j" for j
    by (simp add: get_l2_def fill_live split: option.split)
  show "iLive (snd (get_drained HK e a lv key i)) = iLive i" "iCfg (snd (get_drained HK e a lv key i)) = iCfg i"
    by (simp_all add: get_drained_def l split: option.split)
qed

lemma drain_live: "vDead (iLive i) \<Longrightarrow> fst (drain e a i) = i"
  "vClosed (iLive i) \<Longrightarrow> vClosed (iLive (fst (drain e a i)))" "iCfg (fst (drain e a i)) = iCfg i"
  by (auto simp: drain_def case_prod_beta checkPrimary_live split: prod.split)

lemma get_live: "vDead (iLive i) \<Longrightarrow> vDead (iLive (fst (snd (get HK e a k lv i))))"
  "vClosed (iLive i) \<Longrightarrow> vClosed (iLive (fst (snd (get HK e a k lv i))))" "iCfg (fst (snd (get HK e a k lv i))) = iCfg i"
  by (auto simp: get_def Let_def case_prod_beta drain_live split: jsval.split sum.split)

lemma get_tame [tame_intros]:
  "inj_hash HK \<Longrightarrow> tame HK a b i j \<Longrightarrow> reads_from b c e \<Longrightarrow> tame HK a b i (fst (snd (get HK e c k lv j)))"
  by (erule tame_then) (auto simp: get_live get_inv)

lemma has_live: "vDead (iLive i) \<Longrightarrow> vDead (iLive (fst (snd (has HK e a k i))))"
  "vClosed (iLive i) \<Longrightarrow> vClosed (iLive (fst (snd (has HK e a k i))))" "iCfg (fst (snd (has HK e a k i))) = iCfg i"
proof -
  have d: "(vDead (iLive j) \<longrightarrow> vDead (iLive (snd (has_drained HK e a key j)))) \<and>
      (vClosed (iLive j) \<longrightarrow> vClosed (iLive (snd (has_drained HK e a key j)))) \<and>
      iCfg (snd (has_drained HK e a key j)) = iCfg j" for key j
    using get_live [where i = j] get_live [where i = "j\<lparr>iL1 := l1Drop key (iL1 j)\<rparr>"]
    by (auto simp: has_drained_def Let_def case_prod_beta split: option.split)
  show "vDead (iLive i) \<Longrightarrow> vDead (iLive (fst (snd (has HK e a k i))))"
    "vClosed (iLive i) \<Longrightarrow> vClosed (iLive (fst (snd (has HK e a k i))))" "iCfg (fst (snd (has HK e a k i))) = iCfg i"
    using d by (auto simp: has_def Let_def case_prod_beta drain_live split: jsval.split)
qed

lemma has_tame [tame_intros]:
  "inj_hash HK \<Longrightarrow> tame HK a b i j \<Longrightarrow> reads_from b c e \<Longrightarrow> tame HK a b i (fst (snd (has HK e c k j)))"
  by (erule tame_then) (auto simp: has_live has_inv)

lemma shut_tame [tame_intros]: "tame HK a b i j \<Longrightarrow> tame HK a b i (shut j)"
proof -
  assume t: "tame HK a b i j"
  have c: "tame HK a b i (stopCapTimer (set_caps [] (fold capEntryUnconfirmed ks j)))" for ks
    by (intro caps_tame fold_tame [OF caps_tame(6)] t)
  have "tame HK a b i (k\<lparr>iLive := (iLive k)\<lparr>vClosed := True\<rparr>, iLink := l\<rparr>)" if "tame HK a b i k" for k l
    using that by (rule tame_then) (auto elim: worker_inv_parts)
  then show ?thesis using c by (simp add: shut_def Let_def)
qed

section \<open>The operations of a process\<close>

definition cohstep :: "(jsstr \<Rightarrow> hash option) \<Rightarrow> proc \<Rightarrow> proc \<Rightarrow> bool" where
  "cohstep HK p q \<longleftrightarrow>
     (\<forall>n j. map_of (yInsts q) n = Some j \<longrightarrow>
        (\<exists>i. map_of (yInsts p) n = Some i \<and> tame HK (yArena p) (yArena q) i j))"

named_theorems coh_intros

lemma cohstep_refl [simp]: "cohstep HK p p"
  by (simp add: cohstep_def)

lemma cohstep_trans:
  assumes "cohstep HK p q" "cohstep HK q r"
  shows "cohstep HK p r"
  unfolding cohstep_def
proof (intro allI impI)
  fix n k
  assume "map_of (yInsts r) n = Some k"
  then obtain j where j: "map_of (yInsts q) n = Some j" "tame HK (yArena q) (yArena r) j k"
    using assms(2) by (auto simp: cohstep_def)
  then obtain i where "map_of (yInsts p) n = Some i" "tame HK (yArena p) (yArena q) i j"
    using assms(1) by (auto simp: cohstep_def)
  then show "\<exists>i. map_of (yInsts p) n = Some i \<and> tame HK (yArena p) (yArena r) i k"
    using tame_trans [OF _ j(2)] by blast
qed

lemma tame_moves: "(arena_step (hash_of HK))\<^sup>*\<^sup>* a b \<Longrightarrow> tame HK a b i i"
  using fresh_step [OF _ arena_steps_recorded] by (auto simp: tame_def worker_inv_def)

lemma cohstep_arena:
  assumes "cohstep HK p q" "yInsts r = yInsts q" "moves HK q r"
  shows "cohstep HK p r"
proof -
  have "cohstep HK q r" using assms(2,3) tame_moves by (auto simp: cohstep_def moves_def)
  then show ?thesis using assms(1) cohstep_trans by blast
qed

lemma cohstep_frame [simp]:
  "cohstep HK p (q\<lparr>yReady := b\<rparr>) = cohstep HK p q" "cohstep HK p (q\<lparr>yMarkSeq := m\<rparr>) = cohstep HK p q"
  "cohstep HK p (q\<lparr>yClears := c\<rparr>) = cohstep HK p q" "cohstep HK p (q\<lparr>yOwed := ow\<rparr>) = cohstep HK p q"
  "cohstep HK p (q\<lparr>yCursor := k\<rparr>) = cohstep HK p q" "cohstep HK p (q\<lparr>ySent := s\<rparr>) = cohstep HK p q"
  "cohstep HK p (set_recov r q) = cohstep HK p q" "cohstep HK p (q\<lparr>ySubmit := d\<rparr>) = cohstep HK p q"
  "cohstep HK p (q\<lparr>yPrimary := f\<rparr>) = cohstep HK p q"
  by (simp_all add: cohstep_def)

lemma cohstep_upd [coh_intros]:
  assumes "cohstep HK p q"
    "\<And>j. map_of (yInsts q) n = Some j \<Longrightarrow> tame HK (yArena q) (yArena q) j (f j)"
  shows "cohstep HK p (upd_inst n f q)"
proof -
  have "cohstep HK q (upd_inst n f q)" using assms(2) by (auto simp: cohstep_def split: if_splits)
  then show ?thesis using assms(1) cohstep_trans by blast
qed

lemma cohstep_open [coh_intros]:
  assumes "cohstep HK p q" "\<And>j. tame HK (yArena q) (yArena q) j (f j)"
  shows "cohstep HK p (all_open f q)" "cohstep HK p (other_open n f q)"
proof -
  have "cohstep HK q (all_open f q)" "cohstep HK q (other_open n f q)" using assms(2) by (auto simp: cohstep_def)
  then show "cohstep HK p (all_open f q)" "cohstep HK p (other_open n f q)" using assms(1) cohstep_trans by blast+
qed

lemma cohstep_queued [coh_intros]:
  "cohstep HK p q \<Longrightarrow> (\<And>j. tame HK (yArena q) (yArena q) j (snd (f j))) \<Longrightarrow> cohstep HK p (queued f n q)"
  unfolding queued_def by (rule cohstep_upd) (auto simp: case_prod_beta Let_def intro: link_tame)

lemma cohstep_others [coh_intros]:
  "cohstep HK p q \<Longrightarrow> cohstep HK p (cancelCaps key q)" "cohstep HK p q \<Longrightarrow> cohstep HK p (cancelAllCaps q)"
  "cohstep HK p q \<Longrightarrow> cohstep HK p (clearOthers n q)"
  by (auto simp: cancelCaps_def cancelAllCaps_def clearOthers_def intro!: cohstep_open caps_tame clear_tame)

lemma cohstep_drops [coh_intros]:
  "inj_hash HK \<Longrightarrow> cohstep HK p q \<Longrightarrow> cohstep HK p (dropOthers key n q)"
  "inj_hash HK \<Longrightarrow> cohstep HK p q \<Longrightarrow> cohstep HK p (localDrop key q)"
  by (auto simp: dropOthers_def localDrop_def intro!: cohstep_open l1Drop_tame)

lemma cohstep_to: "cohstep HK p q \<Longrightarrow> cohstep HK q r \<Longrightarrow> cohstep HK p r"
  by (rule cohstep_trans)

lemma moves_arena: "(arena_step (hash_of HK))\<^sup>*\<^sup>* (yArena p) a \<Longrightarrow> cohstep HK p (p\<lparr>yArena := a\<rparr>)"
  by (rule cohstep_arena [OF cohstep_refl]) (simp_all add: moves_def)

lemma publishArena_coh:
  "cohstep HK p (snd (publishArenaSet HK e key enc w ttl p))"
  "cohstep HK p (snd (publishArenaDel HK key w p))" "cohstep HK p (publishArenaClear w p)"
proof -
  show "cohstep HK p (snd (publishArenaSet HK e key enc w ttl p))"
    using step_set [of HK key] moves_arena
    by (force simp: publishArenaSet_def Let_def intro: cohstep_others split: option.split prod.split)
  show "cohstep HK p (snd (publishArenaDel HK key w p))"
    using step_del [of HK key] moves_arena
    by (force simp: publishArenaDel_def Let_def intro: cohstep_others split: option.split prod.split)
  have "(arena_step (hash_of HK))\<^sup>*\<^sup>* (yArena p) (n_clearAll w (yArena p))" using arena_step.clear by blast
  then show "cohstep HK p (publishArenaClear w p)"
    by (auto simp: publishArenaClear_def intro!: cohstep_others moves_arena)
qed

lemma publishL3Derived_coh: "inj_hash HK \<Longrightarrow> cohstep HK p (snd (publishL3Derived HK e key enc ttl n b p))"
  using publishArena_coh(1) [of HK p e key enc 0 ttl]
  by (simp add: publishL3Derived_def case_prod_beta Let_def cohstep_drops)

lemma publishRing_coh:
  "cohstep HK p (snd (publishRing HK' e n ring key op p))"
  "cohstep HK p (snd (publishRingSet HK' e n ring key enc ttl p))" "cohstep HK p (snd (publishRingDel HK' e n ring key p))"
proof -
  show r: "cohstep HK p (snd (publishRing HK' e n ring key op p))" for op
  proof -
    obtain b a where s: "submit e ring op (yArena p) = (b, a)" by force
    show ?thesis using s moves_arena [OF submit_steps [OF s]]
      by (auto simp: publishRing_def Let_def intro!: cohstep_upd cohstep_others link_tame)
  qed
  show "cohstep HK p (snd (publishRingSet HK' e n ring key enc ttl p))" "cohstep HK p (snd (publishRingDel HK' e n ring key p))"
    by (simp_all add: publishRingSet_def publishRingDel_def r)
qed

lemma flush_at_coh [coh_intros]: "cohstep HK p q \<Longrightarrow> cohstep HK p (flush_at e n q)"
proof -
  assume p: "cohstep HK p q"
  have "tame HK a a i (fst (flush e m i))" for a m i by (intro flush_tame tame_refl)
  then show ?thesis using p
    by (auto simp: flush_at_def case_prod_beta Let_def intro!: cohstep_upd split: option.split)
qed

lemma schedule_coh [coh_intros]: "cohstep HK p q \<Longrightarrow> cohstep HK p (schedule e n b q)"
  by (auto simp: schedule_def Let_def intro!: flush_at_coh cohstep_upd link_tame split: option.split)

lemma outbox_coh [coh_intros]:
  "cohstep HK p q \<Longrightarrow> cohstep HK p (publishOutbox e n key op b q)"
  "cohstep HK p q \<Longrightarrow> cohstep HK p (publishOutboxOp e n op supersedes q)"
  "cohstep HK p q \<Longrightarrow> cohstep HK p (retimeOutbox e n key enc cap q)"
  unfolding publishOutbox_def publishOutboxOp_def retimeOutbox_def Let_def
  by (auto intro!: schedule_coh cohstep_others cohstep_upd link_tame)

lemma degrade_coh [coh_intros]: "cohstep HK p q \<Longrightarrow> cohstep HK p (degrade q)"
  by (auto simp: degrade_def Let_def intro!: cohstep_open setDead_tame)

lemma check_at_coh [coh_intros]: "cohstep HK p q \<Longrightarrow> cohstep HK p (check_at e n q)"
  by (auto simp: check_at_def case_prod_beta Let_def intro!: degrade_coh cohstep_upd checkPrimary_tame split: option.split)

lemma mark_coh [coh_intros]:
  assumes "cohstep HK p q"
  shows "cohstep HK p (markWrite key (hash_of HK key) pos sub n q)" "cohstep HK p (markDelete key (hash_of HK key) pos sub n q)"
proof -
  have w: "tame HK a a i (i\<lparr>iCoh := (iCoh i)\<lparr>cWrite := snd (mk_mark key (hash_of HK key) pos sub (s, cWrite (iCoh i)))\<rparr>\<rparr>)"
    and d: "tame HK a a i (i\<lparr>iCoh := (iCoh i)\<lparr>cDel := snd (mk_mark key (hash_of HK key) pos sub (s, cDel (iCoh i)))\<rparr>\<rparr>)" for a i s
    by (rule tame_frame [OF tame_refl]; simp add: coh_ok_def)+
  show "cohstep HK p (markWrite key (hash_of HK key) pos sub n q)"
    unfolding markWrite_def case_prod_beta Let_def
    by (simp del: upd_inst_lookup) (rule cohstep_upd [OF assms], simp add: inst_of_Some w)
  show "cohstep HK p (markDelete key (hash_of HK key) pos sub n q)"
    unfolding markDelete_def case_prod_beta Let_def
    by (simp del: upd_inst_lookup) (rule cohstep_upd [OF assms], simp add: inst_of_Some d)
qed

lemma capL2_coh: "inj_hash HK \<Longrightarrow> cohstep HK p (snd (capL2AfterL3Failure HK e n key enc cap p))"
  using moves_arena [OF capArena_steps [of HK "yArena p" "eFits e key" "eTick e" key enc cap]]
  by (auto simp: capL2AfterL3Failure_def Let_def case_prod_beta
      intro!: cohstep_drops outbox_coh cohstep_upd caps_tame noteCap_tame)

lemma capAfterL3Failure_coh:
  assumes "inj_hash HK"
  shows "cohstep HK p (capAfterL3Failure HK e n key enc ttl p)"
proof -
  have t: "cohstep HK p (snd (case map_of (l1Map (iL1 (inst_of n p))) key of
               None \<Rightarrow> (False, p)
             | Some en \<Rightarrow> if eExp en = 0 \<or> eExp en > d
                 then (True, upd_inst n (l1_at (l1_set key (en\<lparr>eExp := d\<rparr>))) p) else (False, p)))" for d
    by (auto intro!: cohstep_upd exp_tame simp: inst_of_Some split: option.split)
  have c: "cohstep HK p (snd (capL2AfterL3Failure HK e n key enc cap (snd x)))" if "cohstep HK p (snd x)" for x :: "bool \<times> proc" and cap
    using that capL2_coh [OF assms] by (rule cohstep_trans)
  show ?thesis
    unfolding capAfterL3Failure_def Let_def case_prod_beta
    by (simp only: if_split fst_conv snd_conv) (intro conjI impI cohstep_upd bump_tame tame_refl c t)
qed

lemma queueSet_settled_coh: "inj_hash HK \<Longrightarrow> cohstep HK p (queueSet_settled HK e n key enc ttl level okay p)"
  by (simp add: queueSet_settled_def capAfterL3Failure_coh)

section \<open>Writes\<close>

lemma set_evict_coh: "inj_hash HK \<Longrightarrow> cohstep HK p (set_evict HK e pos key n p)"
  using publishArena_coh(2) [of HK p key 0] publishRing_coh(3) [of HK p HK e n _ key]
  by (auto simp: set_evict_def Let_def case_prod_beta intro!: cohstep_drops mark_coh outbox_coh cohstep_upd bump_tame)

lemma set_primary_coh: "inj_hash HK \<Longrightarrow> cohstep HK p (snd (set_primary HK e level key enc ttl n p))"
  using publishArena_coh(1) [of HK p e key enc 0 ttl]
  by (auto simp: set_primary_def Let_def case_prod_beta
      intro!: cohstep_queued cohstep_drops queue_tame cohstep_upd l1Drop_tame bump_tame)

lemma set_worker_coh: "inj_hash HK \<Longrightarrow> cohstep HK p (set_worker HK e level pos key enc ttl n p)"
  using publishRing_coh(2) [of HK p HK e n _ key enc ttl]
  by (auto simp: set_worker_def Let_def case_prod_beta
      intro!: cohstep_queued queue_tame mark_coh outbox_coh cohstep_upd bump_tame)

lemma set_commit_coh: "inj_hash HK \<Longrightarrow> cohstep HK p (snd (set_commit HK e level key lv enc ttl n p))"
proof -
  assume inj: "inj_hash HK"
  have u: "cohstep HK q (snd (set_publish HK e level pos key enc ttl n q))" for pos q
    using inj by (auto simp: set_publish_def set_evict_coh set_primary_coh set_worker_coh intro!: cohstep_queued queue_tame)
  have "cohstep HK p (snd (set_publish HK e level pos key enc ttl n
            (upd_inst n (set_l1 HK e level key lv len ttl pos') (upd_inst n (releaseMarks key) p))))" for pos pos' len
    by (rule cohstep_trans [OF _ u]) (intro cohstep_upd set_l1_tame [OF inj] marks_tame tame_refl cohstep_refl)
  then show ?thesis
    by (auto simp: set_commit_def Let_def case_prod_beta intro!: cohstep_upd marks_tame split: sum.split)
qed

lemma setKey_coh: "inj_hash HK \<Longrightarrow> cohstep HK p (snd (setKey HK e k v opts n p))"
proof -
  assume inj: "inj_hash HK"
  have b: "cohstep HK q (snd (set_body HK e level key v t n q))" for level key t q
    using set_commit_coh [OF inj]
    by (auto simp: set_body_def intro!: cohstep_upd bump_tame split: option.split sum.split prod.split)
  have i: "cohstep HK p (upd_inst n (bump ''sets'') (check_at e n p))"
    by (intro cohstep_upd bump_tame tame_refl check_at_coh cohstep_refl)
  have "cohstep HK p (snd (set_body HK e level key v t n (upd_inst n (bump ''sets'') (check_at e n p))))" for level key t
    by (rule cohstep_trans [OF i b])
  then show ?thesis
    using i by (auto simp: setKey_def Let_def intro!: cohstep_upd bump_tame split: sum.split jsval.split option.split)
qed

lemma take_last_coh: "cohstep HK p q \<Longrightarrow> cohstep HK p (snd (take_last n q))"
  by (simp add: take_last_def cohstep_upd link_tame)

lemma setAsync_coh: "inj_hash HK \<Longrightarrow> cohstep HK p (snd (setAsync HK e k v opts n p))"
  using setKey_coh [of HK p e k v opts n] take_last_coh [of HK p "snd (setKey HK e k v opts n p)" n]
  by (auto simp: setAsync_def case_prod_beta Let_def split: sum.split bool.split)

lemma shed_delete_tame:
  "tame HK a b i ((bump c i')\<lparr>iCoh := (iCoh i')\<lparr>cDel := mk_release key (cDel (iCoh i'))\<rparr>\<rparr>)" if "tame HK a b i i'"
  using marks_tame(4) [OF bump_tame(1) [OF that], where k = key and c1 = c] by simp

lemma delete_coh: "inj_hash HK \<Longrightarrow> cohstep HK p (snd (delete HK e k n p))"
proof -
  assume inj: "inj_hash HK"
  have 1: "cohstep HK q (snd (delete_primary HK e key n q))" for key q
    using publishArena_coh(2) [of HK q key 0] inj
    by (auto simp: delete_primary_def Let_def case_prod_beta
        intro!: cohstep_queued queue_tame cohstep_upd marks_tame cohstep_drops l1Drop_tame)
  have 2: "cohstep HK q (snd (delete_worker HK e key n q))" for key q
  proof -
    let ?q3 = "queued (queue_op e (delete_op key)) n
             (if vDead (iLive (inst_of n q)) then upd_inst n (l1_at (l1Drop key)) q
              else markDelete key (hash_of HK key) (ringHeadNow (yReady q) (yArena q) (inst_of n q)) (- 1) n
                     (upd_inst n (l1_at (l1Drop key)) q))"
    have 3: "cohstep HK q ?q3"
      using inj by (auto intro!: cohstep_queued queue_tame mark_coh cohstep_upd l1Drop_tame)
    have "cohstep HK q (snd (publishRingDel HK e n r key ?q3))" for r
      using cohstep_trans [OF 3 publishRing_coh(3)] .
    then show ?thesis
      using outbox_coh(1) [OF 3]
      by (auto simp: delete_worker_def Let_def case_prod_beta intro!: cohstep_upd shed_delete_tame)
  qed
  have i: "cohstep HK p (upd_inst n (bump ''deletes'') (check_at e n p))"
    by (intro cohstep_upd bump_tame tame_refl check_at_coh cohstep_refl)
  show ?thesis
    using cohstep_trans [OF i 1] cohstep_trans [OF i 2]
    by (auto simp: delete_def Let_def case_prod_beta intro: check_at_coh split: jsval.split)
qed

lemma deleteAsync_coh: "inj_hash HK \<Longrightarrow> cohstep HK p (snd (deleteAsync HK e k n p))"
  using delete_coh by (simp add: deleteAsync_def case_prod_beta Let_def take_last_coh)

lemma clearGen_coh:
  "cohstep HK p q \<Longrightarrow> cohstep HK p (openClearGen e n q)" "cohstep HK p q \<Longrightarrow> cohstep HK p (snd (settleClearGen e again n q))"
  "cohstep HK p q \<Longrightarrow> cohstep HK p (snd (queueClear_settled e n q))"
proof -
  show "cohstep HK p q \<Longrightarrow> cohstep HK p (openClearGen e n q)"
    using cohstep_trans [OF _ moves_arena [OF step_gen(1)]] by (auto simp: openClearGen_def clearBegin_def intro!: outbox_coh)
  show s: "cohstep HK p q \<Longrightarrow> cohstep HK p (snd (settleClearGen e again n q))" for q again
    using cohstep_trans [OF _ moves_arena [OF step_gen(2)]]
    by (auto simp: settleClearGen_def clearSettle_def Let_def intro!: outbox_coh flush_at_coh)
  show "cohstep HK p q \<Longrightarrow> cohstep HK p (snd (queueClear_settled e n q))"
    unfolding queueClear_settled_def by (rule s) simp
qed

lemma clearAll_coh: "cohstep HK p (clearAll e n p)" "cohstep HK p (snd (clearAsync e n p))"
proof -
  have c: "cohstep HK p (clearOthers n (publishArenaClear w q))" if "cohstep HK p q" for w q
    by (intro cohstep_others cohstep_trans [OF that publishArena_coh(3)])
  show k: "cohstep HK p (clearAll e n p)"
    by (auto simp: clearAll_def Let_def intro!: c outbox_coh cohstep_queued queue_tame clearGen_coh cohstep_upd clear_tame)
  show "cohstep HK p (snd (clearAsync e n p))" using k by (simp add: clearAsync_def case_prod_beta Let_def take_last_coh)
qed

section \<open>Reads and the primary\<close>

lemma reads_mapped [simp]: "reads_from (yArena p) (mapped p) (env_in p e)"
  by (simp add: reads_from_def mapped_def no_store_def env_in_def)

lemma get_at_coh: "inj_hash HK \<Longrightarrow> cohstep HK p (snd (get_at HK e k lv n p))" "inj_hash HK \<Longrightarrow> cohstep HK p (snd (has_at HK e k n p))"
  by (auto simp: get_at_def has_at_def case_prod_beta Let_def inst_of_Some
      intro!: degrade_coh cohstep_upd get_tame has_tame)

lemma getAsync_coh: "inj_hash HK \<Longrightarrow> cohstep HK p (snd (getAsync HK e k lv n p))"
  using get_at_coh(1) [of HK p e k lv n]
  by (auto simp: getAsync_def start_fetch_def Let_def case_prod_beta intro!: cohstep_upd bump_tame link_tame
      split: sum.split jsval.split option.split)

lemma hasAsync_coh: "inj_hash HK \<Longrightarrow> cohstep HK p (snd (hasAsync HK e k n p))"
  using get_at_coh(2) [of HK p e k n]
  by (auto simp: hasAsync_def Let_def case_prod_beta split: sum.split bool.split jsval.split)

lemma primary_rounds_coh [coh_intros]: "inj_hash HK \<Longrightarrow> cohstep HK p q \<Longrightarrow> cohstep HK p (primary_rounds r q)"
proof (induction r arbitrary: q)
  case (Suc r)
  have r: "cohstep HK p (primary_record x u)" if "cohstep HK p u" for x u
    using that Suc.prems(1) by (auto simp: primary_record_def intro!: cohstep_open clear_tame dropByHash_tame)
  have f: "cohstep HK p (fold primary_record rs u)" if "cohstep HK p u" for rs u
    using that by (induction rs arbitrary: u) (simp_all add: r)
  show ?case using Suc f by (auto simp: Let_def intro!: cohstep_open clear_tame)
qed simp

lemma drainSubmissions_coh: "inj_hash HK \<Longrightarrow> cohstep HK p (snd (drainSubmissions HK e b p))"
  using moves_arena [OF submitDrain_steps [of "hash_of HK" "yArena p" "eFits e" "eTick e" b]]
  by (auto simp: drainSubmissions_def case_prod_beta Let_def primaryInvalidate_def intro!: primary_rounds_coh)

lemma drain_until_empty_coh: "inj_hash HK \<Longrightarrow> cohstep HK p (drain_until_empty HK e r p)"
proof (induction r arbitrary: p)
  case (Suc r)
  show ?case
    using cohstep_trans [OF drainSubmissions_coh [OF Suc.prems] Suc.IH [OF Suc.prems]] drainSubmissions_coh [OF Suc.prems]
    by (simp add: case_prod_beta)
qed simp

lemma promotionBlock_coh: "inj_hash HK \<Longrightarrow> cohstep HK p (snd (promotionBlock HK e n key mark cm p))"
  by (simp add: promotionBlock_def Let_def drain_until_empty_coh split: option.split)

text \<open>What the shared store answered concerns an object with a shared store.\<close>

lemma tame_l3:
  "gHasL3 (iCfg j) \<Longrightarrow> iCfg k = iCfg j \<Longrightarrow> iLive k = iLive j \<Longrightarrow> tame HK a a j k"
  by (simp add: tame_def)

definition l3_at :: "nat \<Rightarrow> proc \<Rightarrow> bool" where
  "l3_at n p \<longleftrightarrow> (\<forall>i. map_of (yInsts p) n = Some i \<longrightarrow> gHasL3 (iCfg i))"

lemma l3_at_coh: "l3_at n p \<Longrightarrow> cohstep HK p q \<Longrightarrow> l3_at n q"
  by (fastforce simp: l3_at_def cohstep_def tame_def)

lemma fillFromL3_coh:
  assumes "inj_hash HK" "l3_at n p"
  shows "cohstep HK p (snd (fillFromL3 HK e n key ttl level enc v p))"
proof -
  have p: "cohstep HK p (snd (publishL3Derived HK e key enc c n b p))" for c b
    using assms(1) by (rule publishL3Derived_coh)
  have l: "l3_at n (snd (publishL3Derived HK e key enc c n b p))" for c b using assms(2) p by (rule l3_at_coh)
  show ?thesis
    using p l assms(2)
    by (auto simp: fillFromL3_def Let_def l3_at_def l1_at_def intro!: cohstep_upd tame_l3 split: sum.split)
qed

lemma fetched_coh:
  assumes "inj_hash HK" "l3_at n p"
  shows "cohstep HK p (snd (fetched HK e n level key mark cm reply p))"
proof -
  let ?q = "snd (promotionBlock HK e n key mark cm (upd_inst n (bump ''l3Hits'') p))"
  have b: "cohstep HK p ?q"
    by (rule cohstep_trans [OF _ promotionBlock_coh [OF assms(1)]]) (intro cohstep_upd bump_tame tame_refl cohstep_refl)
  have "cohstep HK p (snd (fillFromL3 HK e n key ttl level enc v ?q))" for ttl enc v
    using b fillFromL3_coh [OF assms(1) l3_at_coh [OF assms(2) b]] by (rule cohstep_trans)
  then show ?thesis
    using b by (auto simp: fetched_def case_prod_beta Let_def intro!: cohstep_upd bump_tame
        split: l3Reply.split option.split sum.split)
qed

lemma getAsync_done_coh:
  "inj_hash HK \<Longrightarrow> gHasL3 (iCfg (inst_of n p)) \<Longrightarrow> getAsync_done HK e n level key reply p = Some (v, q) \<Longrightarrow> cohstep HK p q"
  by (auto simp: getAsync_done_def case_prod_beta Let_def l3_at_def inst_of_Some
      intro!: cohstep_upd link_tame fetched_coh split: option.splits)

lemma clearFor_coh: "cohstep HK p (l3ClearOpenFor who p)" "cohstep HK p (snd (l3ClearSettleFor who p))"
proof -
  show "cohstep HK p (l3ClearOpenFor who p)"
    by (rule cohstep_arena [OF cohstep_refl _ clearFor_moves(1)]) (simp add: l3ClearOpenFor_def)
  show "cohstep HK p (snd (l3ClearSettleFor who p))"
    by (rule cohstep_arena [OF cohstep_refl _ clearFor_moves(2)]) (simp add: l3ClearSettleFor_def Let_def)
qed

lemma release_loop_coh: "cohstep HK p (snd (release_loop who p))"
proof (induction who p rule: release_loop.induct)
  case (1 who p)
  show ?case using 1(1) [OF refl prod.collapse] clearFor_coh(2) [of HK p who] cohstep_trans
    by (subst release_loop.simps) (auto simp: case_prod_beta Let_def)
qed

lemma apply_op_coh: "inj_hash HK \<Longrightarrow> cohstep HK p (apply_op HK e m op p)"
proof (cases op)
  case (ORetime key enc cap)
  assume "inj_hash HK"
  then show ?thesis
    using ORetime moves_arena [OF capArena_steps [of HK "yArena p" "eFits e key" "eTick e" key enc cap]]
    by (auto simp: apply_op_def case_prod_beta Let_def intro!: cohstep_drops)
qed (auto simp: apply_op_def clearFor_coh intro!: cohstep_drops publishArena_coh cohstep_open clear_tame split: option.split)

lemma applyBatch_coh: "inj_hash HK \<Longrightarrow> cohstep HK p (applyBatch HK e m p)"
proof -
  assume inj: "inj_hash HK"
  have f: "cohstep HK q (fold (apply_op HK e m) ops q)" for ops q
    by (induction ops arbitrary: q) (auto intro: cohstep_trans apply_op_coh [OF inj])
  show ?thesis
    using cohstep_trans [OF drain_until_empty_coh [OF inj] f] f by (simp add: applyBatch_def)
qed

lemma on_channel_coh: "inj_hash HK \<Longrightarrow> cohstep HK p (snd (on_channel HK e ev (l, p)))"
proof (cases ev)
  case Gone
  have "cohstep HK p q" if "release_loop who p = (k, q)" for who k q
    using release_loop_coh [of HK p who] that by simp
  then show ?thesis using Gone by (auto simp: releaseWorker_def split: option.split prod.split)
qed (simp_all add: drainSubmissions_coh applyBatch_coh)

lemma maintenance_coh: "inj_hash HK \<Longrightarrow> cohstep HK p (maintenance_tick HK e swept p)"
proof -
  assume inj: "inj_hash HK"
  have "(arena_step (hash_of HK))\<^sup>*\<^sup>* a (fold (\<lambda>key. n_sweep (hash_of HK key) (eTick e) key) ks a)" for ks a
  proof (induction ks arbitrary: a)
    case (Cons k ks)
    show ?case using converse_rtranclp_into_rtranclp [OF arena_step.sweep Cons.IH] by simp
  qed simp
  then have "cohstep HK q (q\<lparr>yArena := fold (\<lambda>key. n_sweep (hash_of HK key) (eTick e) key) swept (yArena q)\<rparr>)" for q
    by (rule moves_arena)
  then show ?thesis
    using drainSubmissions_coh [OF inj, of p e 8192] by (auto simp: maintenance_tick_def Let_def intro: cohstep_trans)
qed

lemma close_coh: "cohstep HK p (close w n p)" "cohstep HK p (close_drained n p)" "cohstep HK p (close_done n p)"
  by (auto simp: close_def close_drained_def close_done_def closeLocal_def Let_def
      intro!: cohstep_upd queue_tame link_tame shut_tame)

section \<open>The invariant\<close>

text \<open>A worker's object that is open, has no shared store, and has not lost its primary.\<close>

definition covered :: "inst \<Rightarrow> bool" where
  "covered i \<longleftrightarrow> gId (iCfg i) \<noteq> 0 \<and> \<not> gHasL3 (iCfg i) \<and> \<not> vDead (iLive i) \<and> \<not> vClosed (iLive i)"

definition coherent :: "(jsstr \<Rightarrow> hash option) \<Rightarrow> proc \<Rightarrow> bool" where
  "coherent HK p \<longleftrightarrow> (\<forall>n i. map_of (yInsts p) n = Some i \<longrightarrow> covered i \<longrightarrow> worker_inv HK (yArena p) i)"

lemma coherent_cohstep: "coherent HK p \<Longrightarrow> cohstep HK p q \<Longrightarrow> coherent HK q"
  by (fastforce simp: coherent_def cohstep_def tame_def covered_def)

lemma new_inst_inv: "worker_inv HK a (new_inst g l3 mv)"
proof -
  have "map_of (l1Map l1_empty) k = None" for k by (simp add: l1_empty_def)
  then show ?thesis by (simp add: new_inst_def worker_inv_def inst_ok_def coh_ok_def fresh_def l1_indexed_def)
qed

lemma recovered_inv:
  assumes "inst_ok HK i"
  shows "worker_inv HK (raArena r) (recovered True r i)"
proof -
  have "coh_ok HK (iCoh (recovered True r i))" by (simp add: coh_ok_def)
  moreover have "map_of (l1Map (l1_clear s)) k = None" for s k by (simp add: l1_clear_def)
  ultimately show ?thesis
    using assms by (simp add: worker_inv_def inst_ok_def fresh_def l1_clear_inv)
qed

lemma tryRecover_coherent:
  assumes "proc_ok HK p" "coherent HK p"
  shows "coherent HK (tryRecover r p)"
proof -
  have "worker_inv HK (raArena r) (recovered True r i)" if "map_of (yInsts p) n = Some i" for n i
    using goodD(1) [OF proc_okD [OF assms(1) that]] by (rule recovered_inv)
  then have "coherent HK (all_open (recovered True r) (q\<lparr>yReady := True, yArena := raArena r\<rparr>))" if "yInsts q = yInsts p" for q
    using that unfolding coherent_def covered_def by simp metis
  then show ?thesis
    using assms(2) by (simp add: tryRecover_def) (simp add: coherent_def)
qed

lemma proc_step_coherent:
  assumes "proc_step HK p q" "inj_hash HK" "proc_ok HK p" "coherent HK p"
  shows "coherent HK q"
  using assms
proof (induction rule: proc_step.induct)
  case (opens p n g l3 mv)
  then show ?case
    using new_inst_inv [of HK "yArena p" g l3 mv] by (auto simp: coherent_def map_add_Some_iff split: if_splits)
next
  case (recover p r)
  then show ?case by (simp add: tryRecover_coherent)
qed (auto elim!: coherent_cohstep intro: setKey_coh setAsync_coh delete_coh deleteAsync_coh clearAll_coh get_at_coh
    getAsync_coh getAsync_done_coh hasAsync_coh queueSet_settled_coh clearGen_coh flush_at_coh on_channel_coh
    maintenance_coh close_coh moves_arena intro!: cohstep_upd flush_tame runCaps_tame link_tame ring_tame gc_tame)

lemma booted_coherent: "booted p \<Longrightarrow> coherent HK p"
  by (auto simp: booted_def coherent_def) (simp_all add: boot_def)

interpretation pc: strengthened_invariant "proc_step HK" booted "proc_ok HK" "\<lambda>p. inj_hash HK \<longrightarrow> coherent HK p" for HK
  by unfold_locales (auto intro: booted_coherent proc_step_coherent)

lemma proc_reach_coherent: "proc_reach HK p \<Longrightarrow> inj_hash HK \<Longrightarrow> coherent HK p"
  using pc.both.inv_reached by (auto simp: proc_reach_booted)

end
