(* ===== verification/Examples.thy ===== *)
theory Examples
  imports CohRun
begin

text \<open>
  The concrete setting in which the properties of the process are applied: a hash that knows two
  keys, an arena with one entry, a cache in the bytes mode as primary and as worker, and the
  readings of an undisturbed call.
\<close>

definition xHK :: "jsstr \<Rightarrow> hash option" where
  "xHK k = (if k = [97] then Some 5 else if k = [98] then Some 6 else None)"

definition xCfg :: "nat \<Rightarrow> bool \<Rightarrow> cfg" where
  "xCfg num l3 =
     \<lparr>gId = num, gHasL3 = l3, gCodec = None, gL1Decoded = True, gIsolate = True, gIpc = False, gStaleMs = 5000,
      gFailTtl = 1000, gL3Ttl = 0, gKeyMax = 100, gOutMax = 1000, gFlightMax = 1000,
      gL1 = \<lparr>cNoCodec = True, cHeapFactor = 1, cL1Max = 1000, cGuardMax = 0, cGuardShed = 0\<rparr>\<rparr>"

definition xArena :: arena where
  "xArena =
     \<lparr>aMap = [([97], \<lparr>aeVal = VStr [120], aeExp = 0\<rparr>)], aRing = [\<lparr>rrHash = 5, rrWriter = 0\<rparr>], aRingCap = 8,
      aGen = 0, aSettled = 0, aSubs = []\<rparr>"

definition xEnv :: env where
  "xEnv =
     \<lparr>eMono = 10, eWall = 10, eTick = 10, eAge = 0, eReady = True, eMayDegrade = True, eFits = (\<lambda>_. True),
      eNeed = 64, ePad = 0, eSend = SendOk True\<rparr>"

text \<open>One cache object, number 0, in a process that has just been started.\<close>

definition xProc :: "nat \<Rightarrow> bool \<Rightarrow> proc" where
  "xProc num l3 =
     (boot xArena (num = 0) False [] True)
       \<lparr>yInsts := [(0, new_inst (xCfg num l3) (if l3 then Some (1000, 100) else None) 1000)]\<rparr>"

lemma xProc_reach: "proc_reach xHK (xProc num l3)"
proof -
  let ?b = "boot xArena (num = 0) False [] True"
  have "proc_step xHK ?b (?b\<lparr>yInsts := yInsts ?b @ [(0, new_inst (xCfg num l3) (if l3 then Some (1000, 100) else None) 1000)]\<rparr>)"
    by (rule proc_step.opens) (simp add: boot_def)
  then show ?thesis unfolding proc_reach_def xProc_def by (intro exI r_into_rtranclp) (simp add: boot_def)
qed

lemma xHK_inj: "inj_hash xHK"
  by (simp add: inj_hash_def xHK_def)

lemma map_of_insts_xProc [simp]:
  "map_of (yInsts (xProc num l3)) 0 = Some (new_inst (xCfg num l3) (if l3 then Some (1000, 100) else None) 1000)"
  by (simp add: xProc_def)

lemmas x_defs = xHK_def xCfg_def xArena_def xEnv_def xProc_def boot_def new_inst_def inst_of_def

text \<open>What a read on this setting evaluates with.\<close>

lemmas read_defs = get_at_def get_def env_in_def level_of_def resolveLevel_def drain_def checkPrimary_def Let_def
  drain_ring_def drain_owed_def ringRead_def ringHead_def get_drained_def unappliedHere_def mk_has_def
  empty_marks_def drain_record_def mk_matchAt_def l1_empty_def set_cursor_def FLUSH_ALL_def get_l2_def n_get_def
  live_entry_def tcExpired_def fill_from_l2_def n_lastTtl_def bump_def plainUnit_def l1Put_def entryBytes_def
  primBytes_def round8_def byteLength_def utf8_def l1_set_def upd_inst_def mapped_def

text \<open>The worker after it has read the key.\<close>

definition xRead :: proc where
  "xRead = snd (get_at xHK xEnv (VStr [97]) NumUndef 0 (xProc 1 False))"

lemma proc_reach_step: "proc_reach HK p \<Longrightarrow> proc_step HK p q \<Longrightarrow> proc_reach HK q"
  unfolding proc_reach_def by (blast intro: rtranclp.rtrancl_into_rtrancl)

lemma xRead_reach: "proc_reach xHK xRead"
  unfolding xRead_def by (rule proc_reach_step [OF xProc_reach proc_step.get])

lemma xRead_state:
  "map_of (yInsts xRead) 0 = Some (inst_of 0 xRead)"
  "l1Map (iL1 (inst_of 0 xRead)) =
     [([97], \<lparr>eV = VStr [120], eBytes = Some 112, eHits = 1, eExp = 0, eHash = Some 5, eOwnAt = - 1\<rparr>)]"
  "iCfg (inst_of 0 xRead) = xCfg 1 False" "yArena xRead = xArena" "cCursor (iCoh (inst_of 0 xRead)) = 1"
  "vDead (iLive (inst_of 0 xRead)) = False" "vClosed (iLive (inst_of 0 xRead)) = False" "yReady xRead"
  by (simp_all add: xRead_def x_defs read_defs evict_loop.simps)

lemma xRead_covered: "covered (inst_of 0 xRead)"
  by (simp add: covered_def xRead_state) (simp add: xCfg_def)

text \<open>The worker after it has deleted the key: the removal is in its outbox, and the mark is taken past
  the only record of the ring.\<close>

lemmas call_defs = delete_def check_at_def x_defs env_in_def checkPrimary_def Let_def upd_inst_def bump_def

lemmas mark_defs = delete_worker_def markDelete_def mk_mark_def PENDING_MARK_MAX_def empty_marks_def l1_at_def
  l1Drop_def l1_empty_def ringHeadNow_def hash_of_def ringHead_def

lemmas outbox_defs = queued_def queue_op_def set_last_def publishOutbox_def schedule_def push_op_def cancelCaps_def
  all_open_def cancelCap_def

definition xDel :: proc where
  "xDel = snd (delete xHK xEnv (VStr [97]) 0 (xProc 1 False))"

lemma xDel_reach: "proc_reach xHK xDel"
  unfolding xDel_def by (rule proc_reach_step [OF xProc_reach proc_step.del])

lemma xDel_state:
  "map_of (yInsts xDel) 0 = Some (inst_of 0 xDel)"
  "map_of (byKey (cDel (iCoh (inst_of 0 xDel)))) [97] = Some \<lparr>mHash = 5, mAt = 1, mSeq = 1, mSub = - 1\<rparr>"
  "iCfg (inst_of 0 xDel) = xCfg 1 False" "yArena xDel = xArena" "cCursor (iCoh (inst_of 0 xDel)) = 0" "yReady xDel"
  "kRing (iLink (inst_of 0 xDel)) = None" "kMaxValue (iLink (inst_of 0 xDel)) = 1000"
  by (simp add: xDel_def call_defs, simp add: call_defs mark_defs, simp add: call_defs outbox_defs)+

end
