(* ===== verification/Promotion.thy ===== *)
theory Promotion
  imports Examples
begin

text \<open>
  What a read through to the shared store may put back. The walk of the ring that guards a promotion
  is a statement about the records between two positions; a value is placed only if nothing that
  concerns its key happened since the read began; a key the process has deleted or cleared is not
  answered at all; and a worker's read publishes nothing.
\<close>

section \<open>The walk\<close>

text \<open>C23: the loop over batches of 1024 records ends, and answers exactly whether the cursor is on the
  ring, has not been lapped, and no record from there to the head is a flush or has the hash.\<close>

theorem ring_quiet_iff:
  "ring_quiet h c a \<longleftrightarrow>
     c \<le> length (aRing a) \<and> length (aRing a) - c < aRingCap a \<and>
     (\<forall>r \<in> set (drop c (aRing a)). rrHash r \<noteq> FLUSH_ALL \<and> rrHash r \<noteq> h)"
proof (induction h c a rule: ring_quiet.induct)
  case (1 h c a)
  let ?r = "ringRead c 1024 a"
  have w: "rbWrapped ?r \<longleftrightarrow> \<not> (c \<le> length (aRing a) \<and> length (aRing a) - c < aRingCap a)"
    by (auto simp: ringRead_def ringHead_def Let_def)
  show ?case
  proof (cases "rbWrapped ?r")
    case True
    then show ?thesis using w by (subst ring_quiet.simps) (auto simp: Let_def)
  next
    case False
    note rr = ringRead_recs [OF False]
    have split: "set (drop c (aRing a)) = set (rbRecs ?r) \<union> set (drop (rbHead ?r) (aRing a))"
    proof -
      have "drop (rbHead ?r) (aRing a) = drop 1024 (drop c (aRing a))"
        using rr(1) by (simp add: rr(3) min_def ringHead_def add.commute)
      then show ?thesis unfolding rr(2) by (metis append_take_drop_id set_append)
    qed
    show ?thesis
    proof (cases "rbHead ?r \<le> c \<or> rbHead ?r \<ge> rbRingHead ?r")
      case True
      then have "drop (rbHead ?r) (aRing a) = []"
        using rr by (auto simp: ringHead_def min_def split: if_splits)
      then show ?thesis using False True w split by (subst ring_quiet.simps) (auto simp: Let_def list_ex_iff)
    next
      case more: False
      have "ring_quiet h (rbHead ?r) a \<longleftrightarrow> (\<forall>r \<in> set (drop (rbHead ?r) (aRing a)). rrHash r \<noteq> FLUSH_ALL \<and> rrHash r \<noteq> h)"
        if "\<not> list_ex (\<lambda>x. rrHash x = FLUSH_ALL \<or> rrHash x = h) (rbRecs ?r)"
        using 1 [OF refl False that more] w False rr by (auto simp: ringHead_def)
      then show ?thesis using False more w split by (subst ring_quiet.simps) (auto simp: Let_def list_ex_iff)
    qed
  qed
qed

theorem ring_quiet_iff_witness:
  "ring_quiet 7 0 xArena \<and> \<not> ring_quiet 5 0 xArena \<and> ring_quiet 5 1 xArena"
  by (simp only: ring_quiet_iff) (simp add: xArena_def FLUSH_ALL_def)

section \<open>Placing\<close>

lemma inst_of_upd [simp]: "map_of (yInsts p) n = Some i \<Longrightarrow> inst_of n (upd_inst n f p) = f i"
  by (simp add: inst_of_def)

lemma get_at_inst:
  "map_of (yInsts p) n = Some i \<Longrightarrow> \<exists>j. map_of (yInsts (snd (get_at HK e k lv n p))) n = Some j"
  by (auto simp: get_at_def Let_def degrade_def split: prod.split)

lemma getAsync_asked:
  assumes "map_of (yInsts p) n = Some i" "getAsync HK e k lv n p = (Inr (Asked level key w), p1)"
  shows "\<exists>mark cm. map_of (iReads (inst_of n p1)) (level, key) = Some (mark, cm) \<and>
    (0 \<le> mark \<longrightarrow> mark = int (ringHead (yArena p1)) \<and> cm = aGen (yArena p1))"
proof -
  obtain q where q: "start_fetch level key n q = (Asked level key w, p1)" "q = snd (get_at HK e k lv n p)"
    using assms(2) by (auto simp: getAsync_def Let_def start_fetch_def split: sum.splits jsval.splits prod.splits if_splits)
  obtain j where "map_of (yInsts q) n = Some j" using get_at_inst [OF assms(1)] q(2) by blast
  then show ?thesis using q(1) by (auto simp: start_fetch_def Let_def)
qed

text \<open>C6: a value that came back is placed only if nothing that concerns the key happened while it was
  read. From the state in which the read was started, let the shared arena change by any steps of any
  process; if the guard then answers that the value may be placed, the arena's entry of the key is the
  one of the start or gone, no clear of the shared store is open or was opened since, and this process
  has no write or removal of the key outstanding and did not record one past the start.\<close>

theorem promotion_safe:
  assumes "map_of (yInsts p) n = Some i" "getAsync HK e k lv n p = (Inr (Asked level key w), p1)"
    and "(arena_step (hash_of HK))\<^sup>*\<^sup>* (yArena p1) (yArena p2)"
    and "map_of (iReads (inst_of n p2)) (level, key) = map_of (iReads (inst_of n p1)) (level, key)"
    and "map_of (iReads (inst_of n p2)) (level, key) = Some (mark, cm)"
    and "promotionBlock HK e n key mark cm p2 = (None, p3)"
  shows "(map_of (aMap (yArena p3)) key = map_of (aMap (yArena p1)) key \<or> map_of (aMap (yArena p3)) key = None) \<and>
    n_l3ClearsInFlight (yArena p2) = 0 \<and> aGen (yArena p2) = aGen (yArena p1) \<and> yClears p2 \<le> 0 \<and>
    \<not> mk_has (cDel (iCoh (inst_of n p2))) key \<and>
    (\<forall>q. iQueue (inst_of n p2) = Some q \<longrightarrow> outstandingKind q key \<notin> {Some KDelete, Some KSet}) \<and>
    (\<forall>pos. map_of (cDeletedAt (iCoh (inst_of n p2))) key = Some pos \<longrightarrow> int pos \<le> mark)"
proof -
  let ?i = "inst_of n p2"
  define owed where "owed = (case iQueue ?i of None \<Rightarrow> None | Some q \<Rightarrow> outstandingKind q key)"
  define p' where "p' = (if gId (iCfg ?i) = 0 \<and> ySubmit p2 then drain_until_empty HK e 512 p2 else p2)"
  have b: "owed \<noteq> Some KDelete" "owed \<noteq> Some KSet" "\<not> mk_has (cDel (iCoh ?i)) key" "yClears p2 \<le> 0"
    "\<not> (case map_of (cDeletedAt (iCoh ?i)) key of None \<Rightarrow> False | Some pos \<Rightarrow> int pos > mark)"
    "mark \<ge> 0" "yReady p2" "\<not> vDead (iLive ?i)"
    "sharedClearsInFlight (yReady p2) (yArena p2) ?i = 0" "aGen (yArena p2) = cm" "p3 = p'"
    "\<exists>h. HK key = Some h \<and> ring_quiet h (nat mark) (yArena p3)"
    using assms(6) unfolding promotionBlock_def Let_def owed_def [symmetric] p'_def [symmetric]
    by (auto split: if_splits option.splits)
  have m: "mark = int (ringHead (yArena p1))" "cm = aGen (yArena p1)"
    using getAsync_asked [OF assms(1,2)] assms(4,5) b(6) by auto
  have steps: "(arena_step (hash_of HK))\<^sup>*\<^sup>* (yArena p1) (yArena p3)"
    using assms(3) drain_until_empty_moves [of HK p2 e 512] b(11) unfolding p'_def moves_def
    by (auto intro: rtranclp_trans)
  obtain h where h: "HK key = Some h" "ring_quiet h (nat mark) (yArena p3)" using b(12) by blast
  have "\<not> rec_concerns (hash_of HK) key r" if "r \<in> set (drop (nat mark) (aRing (yArena p3)))" for r
    using h that by (simp add: ring_quiet_iff rec_concerns_def hash_of_Some)
  then have "map_of (aMap (yArena p3)) key = map_of (aMap (yArena p1)) key \<or> map_of (aMap (yArena p3)) key = None"
    using al.quiet_window [OF steps, of "nat mark" key] m by (simp add: ringHead_def)
  then show ?thesis
    using b m by (auto simp: owed_def sharedClearsInFlight_def split: option.splits)
qed

text \<open>A worker with a shared store has asked for the key \<open>b\<close>.\<close>

definition xAsk :: proc where
  "xAsk = snd (getAsync xHK xEnv (VStr [98]) NumUndef 0 (xProc 1 True))"

lemmas ask_defs = getAsync_def x_defs read_defs deletedHere_def new_queue_def outstandingKind_def clears_open_def
  sharedClearsInFlight_def n_l3ClearsInFlight_def start_fetch_def willCacheRead_def

lemma xAsk_state:
  "getAsync xHK xEnv (VStr [98]) NumUndef 0 (xProc 1 True) = (Inr (Asked 1 [98] True), xAsk)"
  "map_of (iReads (inst_of 0 xAsk)) (1, [98]) = Some (1, 0)"
  "yArena xAsk = xArena" "map_of (yInsts xAsk) 0 = Some (inst_of 0 xAsk)" "gId (iCfg (inst_of 0 xAsk)) = 1"
  by (simp_all add: xAsk_def ask_defs)

lemma xAsk_block: "promotionBlock xHK xEnv 0 [98] 1 0 xAsk = (None, xAsk)"
  by (simp add: promotionBlock_def xAsk_def ask_defs ring_quiet_iff)

theorem promotion_safe_witness:
  "map_of (aMap (yArena xAsk)) [98] = None \<and> n_l3ClearsInFlight (yArena xAsk) = 0"
  using promotion_safe [OF map_of_insts_xProc xAsk_state(1) rtranclp.rtrancl_refl refl xAsk_state(2) xAsk_block]
  by (simp add: xAsk_state) (simp add: xArena_def)

section \<open>What a read may answer and publish\<close>

lemma getAsync_done_Some:
  "map_of (iReads (inst_of n p)) (level, key) = Some (mark, cm) \<Longrightarrow>
   getAsync_done HK e n level key reply p =
     Some (fst (fetched HK e n level key mark cm reply p),
       upd_inst n (\<lambda>i. i\<lparr>iReads := AList.delete (level, key) (iReads i)\<rparr>) (snd (fetched HK e n level key mark cm reply p)))"
  by (simp add: getAsync_done_def Let_def split: prod.split)

lemma promotionBlock_removed:
  assumes "map_of (yInsts p) n = Some i" "mk_has (cDel (iCoh i)) key \<or> deletedHere i key \<or> yClears p > 0 \<or>
      (\<exists>pos. map_of (cDeletedAt (iCoh i)) key = Some pos \<and> int pos > mark)"
  shows "\<exists>w. promotionBlock HK e n key mark cm p = (Some w, p) \<and> answer_only w"
proof (cases "iQueue i")
  case None
  then show ?thesis using assms
    by (cases "map_of (cDeletedAt (iCoh i)) key") (auto simp: promotionBlock_def Let_def deletedHere_def answer_only_def inst_of_Some)
next
  case (Some q)
  then show ?thesis using assms
    by (cases "map_of (cDeletedAt (iCoh i)) key") (auto simp: promotionBlock_def Let_def deletedHere_def answer_only_def inst_of_Some)
qed

text \<open>C7: whatever the shared store answers, a read does not bring back a key that this process is
  removing. If, when the reply arrives, a removal of the key is marked, queued, or was recorded past the
  start of the read, or a clear of this process is unsettled, then the caller gets undefined, the arena
  is not written and the cache object's own tier is as it was.\<close>

theorem deleted_key_not_resurrected:
  assumes "map_of (yInsts p) n = Some i" "map_of (iReads i) (level, key) = Some (mark, cm)"
    and "deletedHere i key \<or> yClears p > 0 \<or>
         (\<exists>pos. map_of (cDeletedAt (iCoh i)) key = Some pos \<and> int pos > mark)"
    and "getAsync_done HK e n level key reply p = Some (v, q)"
  shows "v = Inr VUndef \<and> yArena q = yArena p \<and> iL1 (inst_of n q) = iL1 i \<and> map_of (iReads (inst_of n q)) (level, key) = None"
proof -
  let ?p = "upd_inst n (bump ''l3Hits'') p"
  have "map_of (yInsts ?p) n = Some (bump ''l3Hits'' i)" using assms(1) by simp
  moreover have "deletedHere (bump ''l3Hits'' i) key = deletedHere i key" by (simp add: deletedHere_def)
  ultimately obtain w where w: "promotionBlock HK e n key mark cm ?p = (Some w, ?p)" "answer_only w"
    using promotionBlock_removed [of ?p n "bump ''l3Hits'' i" key mark HK e cm] assms(3) by auto
  have "fst (fetched HK e n level key mark cm reply p) = Inr VUndef \<and>
      yArena (snd (fetched HK e n level key mark cm reply p)) = yArena p \<and>
      (\<exists>j. map_of (yInsts (snd (fetched HK e n level key mark cm reply p))) n = Some j \<and> iL1 j = iL1 i)"
  proof (cases reply)
    case (L3Rec raw ttl)
    then show ?thesis
      using w assms(1) by (cases "acceptFromL3 (iCfg (inst_of n p)) raw") (auto simp: fetched_def)
  qed (use assms(1) in \<open>simp_all add: fetched_def\<close>)
  then show ?thesis
    using assms(1,2,4) by (auto simp: getAsync_done_Some inst_of_Some)
qed

theorem deleted_key_not_resurrected_witness:
  "fst (the (getAsync_done xHK xEnv 0 1 [98] (L3Rec (VStr [1]) NumUndef) (xAsk\<lparr>yClears := 1\<rparr>))) = Inr VUndef"
proof -
  let ?p = "xAsk\<lparr>yClears := 1\<rparr>"
  have i: "map_of (yInsts ?p) 0 = Some (inst_of 0 xAsk)" using xAsk_state(4) by simp
  obtain v q where d: "getAsync_done xHK xEnv 0 1 [98] (L3Rec (VStr [1]) NumUndef) ?p = Some (v, q)"
    using getAsync_done_Some [of 0 ?p 1 "[98]" 1 0] xAsk_state(2) inst_of_Some [OF i] by simp
  show ?thesis using deleted_key_not_resurrected [OF i xAsk_state(2) _ d] d by simp
qed

definition unpublished :: "nat \<Rightarrow> proc \<Rightarrow> proc \<Rightarrow> bool" where
  "unpublished n p r \<longleftrightarrow>
     yArena r = yArena p \<and> ySent r = ySent p \<and>
     (\<exists>i j. map_of (yInsts p) n = Some i \<and> map_of (yInsts r) n = Some j \<and> gId (iCfg i) \<noteq> 0 \<and>
        iCfg j = iCfg i \<and> iLink j = iLink i \<and> iQueue j = iQueue i)"

lemma unpublished_upd:
  "unpublished n p r \<Longrightarrow> (\<And>j. iCfg (f j) = iCfg j \<and> iLink (f j) = iLink j \<and> iQueue (f j) = iQueue j) \<Longrightarrow>
   unpublished n p (upd_inst n f r)"
  by (auto simp: unpublished_def)

lemma unpublished_id: "unpublished n p r \<Longrightarrow> gId (iCfg (inst_of n r)) \<noteq> 0"
  by (auto simp: unpublished_def inst_of_Some)

lemma unpublished_block:
  "unpublished n p r \<Longrightarrow> snd (promotionBlock HK e n key mark cm r) = r"
  using unpublished_id [of n p r] by (simp add: promotionBlock_def Let_def split: option.split)

lemma unpublished_fill:
  assumes "unpublished n p r"
  shows "unpublished n p (snd (fillFromL3 HK e n key ttl level enc v r))"
proof -
  have "snd (publishL3Derived HK e key enc x n (gId (iCfg (inst_of n r))) r) = r" for x
    using unpublished_id [OF assms] by (simp add: publishL3Derived_def)
  then show ?thesis
    using assms unpublished_upd [OF assms] by (simp add: fillFromL3_def Let_def l1_at_def split: sum.split)
qed

lemma unpublished_fetched:
  assumes "unpublished n p r"
  shows "unpublished n p (snd (fetched HK e n level key mark cm reply r))"
proof (cases reply)
  case (L3Rec raw ttl)
  have b: "unpublished n p (upd_inst n (bump c) s)" if "unpublished n p s" for c s
    using that by (rule unpublished_upd) simp
  show ?thesis
  proof (cases "acceptFromL3 (iCfg (inst_of n r)) raw")
    case (Some x)
    obtain enc v where x: "x = (enc, v)" by force
    obtain why r1 where w: "promotionBlock HK e n key mark cm (upd_inst n (bump ''l3Hits'') r) = (why, r1)" by force
    then have "unpublished n p r1" using b [OF assms] unpublished_block [OF b [OF assms]] by (metis snd_conv)
    then show ?thesis
      using unpublished_fill [of n p r1 HK e key ttl level enc v] b L3Rec Some x w
      by (auto simp: fetched_def split: option.split prod.split sum.split)
  qed (use L3Rec b assms in \<open>simp add: fetched_def\<close>)
qed (use assms in \<open>auto simp: fetched_def intro: unpublished_upd\<close>)

text \<open>A worker's read through to the shared store is private to it: whatever the reply, the arena, the
  messages of the process and the outbox of the cache object are as before. Only the primary places what
  it read where the others see it.\<close>

theorem worker_read_publishes_nothing:
  assumes "map_of (yInsts p) n = Some i" "gId (iCfg i) \<noteq> 0" "getAsync_done HK e n level key reply p = Some (v, q)"
  shows "yArena q = yArena p \<and> ySent q = ySent p \<and> iLink (inst_of n q) = iLink i \<and> iQueue (inst_of n q) = iQueue i"
proof -
  have p: "unpublished n p p" using assms(1,2) by (simp add: unpublished_def)
  obtain mark cm where "map_of (iReads (inst_of n p)) (level, key) = Some (mark, cm)"
    using assms(3) by (auto simp: getAsync_done_def split: option.splits)
  then have "q = upd_inst n (\<lambda>i. i\<lparr>iReads := AList.delete (level, key) (iReads i)\<rparr>)
      (snd (fetched HK e n level key mark cm reply p))"
    using assms(3) getAsync_done_Some by simp
  then have "unpublished n p q" by (simp add: unpublished_upd [OF unpublished_fetched [OF p]])
  then show ?thesis using assms(1) by (auto simp: unpublished_def inst_of_Some)
qed

theorem worker_read_publishes_nothing_witness:
  "yArena (snd (the (getAsync_done xHK xEnv 0 1 [98] (L3Rec (VStr [1]) NumUndef) xAsk))) = xArena"
proof -
  obtain v q where d: "getAsync_done xHK xEnv 0 1 [98] (L3Rec (VStr [1]) NumUndef) xAsk = Some (v, q)"
    using getAsync_done_Some [OF xAsk_state(2)] by simp
  show ?thesis using worker_read_publishes_nothing [OF xAsk_state(4) _ d] d by (simp add: xAsk_state)
qed

end
