(* ===== verification/Open.thy ===== *)
theory Open
  imports FastPath Examples
begin

text \<open>
  Opening a cache (\<^verbatim>\<open>src/src/turbokv.js\<close>): the check of a caller's codec (lines 798 to 833), the
  constructor (604 to 786), \<open>open\<close>, \<open>createPrimary\<close> and \<open>attachWorker\<close> (901 to 944 and 1421 to 1488).
  What the addon and the cluster answer is a record of readings. A constructor registers its object
  before it checks anything; an object whose constructor threw stays in the set of instances and is
  counted in \<open>apBroken\<close>. The calls of the addon that have an effect are a list.
\<close>

section \<open>The fast path of a JSON codec\<close>

text \<open>The source text of each half, \<open>None\<close> where it cannot be read, and what encoding the probe gives.\<close>

record codecText =
  ctEncode :: "jsstr option"
  ctDecode :: "jsstr option"
  ctProbe :: "jsval option"

definition half_slow :: "string \<Rightarrow> jsstr option \<Rightarrow> bool" where
  "half_slow name src =
     (case src of
        None \<Rightarrow> False
      | Some s \<Rightarrow> if indexOf s (ascii ''[native code]'') 0 \<noteq> None then False
                  else list_ex (\<lambda>c. ciArgs c > 1) (callArgCounts s (ascii name)))"

text \<open>\<open>JSON.stringify\<close> of the probe \<open>{ b: 1, a: 'x', n: [1, 2] }\<close>.\<close>

definition probe_text :: jsstr where
  "probe_text = [123, 34, 98, 34, 58, 49, 44, 34, 97, 34, 58, 34, 120, 34, 44, 34, 110, 34, 58, 91, 49, 44, 50, 93, 125]"

definition assertFastCodec :: "codecText \<Rightarrow> bool" where
  "assertFastCodec c =
     (if half_slow ''JSON.stringify'' (ctEncode c) \<or> half_slow ''JSON.parse'' (ctDecode c) then False
      else (case ctProbe c of
              Some (VStr s) \<Rightarrow> s = [] \<or> hd s \<noteq> 123 \<or> s = probe_text
            | _ \<Rightarrow> True))"

section \<open>The constructor\<close>

record openOpts =
  opL1Max :: "int option"
  opOutMax :: "int option"
  opFlight :: "int option"
  opStale :: "int option"
  opL3 :: "adapterArg option"
  opFailTtl :: "ms option"
  opL3Ttl :: "ms option"
  opRetry :: numArg
  opQueueMax :: "int option"
  opWorkerId :: "nat option"
  opAttached :: bool
  opIpc :: bool
  opStorage :: storageArgs
  opUser :: codec
  opText :: codecText
  opAllowSlow :: bool
  opGuard :: "(rat \<times> rat) option"
  opCompress :: bool

record builtins =
  biV8 :: codec
  biV8Text :: codecText
  biJson :: codec
  biJsonText :: codecText

record addon =
  adCreate :: bool
  adLz4 :: bool
  adSubCreate :: bool
  adAttach :: bool
  adClaim :: "(nat \<times> nat) option"
  adMaxValue :: nat
  adKeyMax :: nat
  adArena :: arena

datatype openError =
  OptErr optError | SlowCodec | PrimaryIdTaken | CreateFailed | NoLz4 | RingFailed | AttachFailed | NoArena | IdAssigned

text \<open>\<^verbatim>\<open>x ?? d\<close> and \<^verbatim>\<open>x || d\<close>.\<close>

definition orElse :: "'a option \<Rightarrow> 'a \<Rightarrow> 'a" where
  "orElse x d = (case x of None \<Rightarrow> d | Some y \<Rightarrow> y)"

definition orTruthy :: "int option \<Rightarrow> int \<Rightarrow> int" where
  "orTruthy x d = (case x of None \<Rightarrow> d | Some y \<Rightarrow> if y = 0 then d else y)"

definition codec_of :: "builtins \<Rightarrow> openOpts \<Rightarrow> (codec \<times> codecText) option" where
  "codec_of b o' =
     (case scCodec (resolveStorage (opStorage o')) of
        NoCodec \<Rightarrow> None
      | UserCodec \<Rightarrow> Some (opUser o', opText o')
      | V8Codec \<Rightarrow> Some (biV8 b, biV8Text b)
      | JsonCodec \<Rightarrow> Some (biJson b, biJsonText b))"

text \<open>The fields the constructor sets, once nothing has thrown.\<close>

definition cfg_of :: "builtins \<Rightarrow> nat \<Rightarrow> openOpts \<Rightarrow> cfg" where
  "cfg_of b keyMax o' =
     (let s = resolveStorage (opStorage o')
      in \<lparr>gId = orElse (opWorkerId o') 0, gHasL3 = (opL3 o' \<noteq> None), gCodec = map_option fst (codec_of b o'),
          gL1Decoded = scL1Decoded s, gIsolate = scIsolate s, gIpc = opIpc o',
          gStaleMs = orTruthy (opStale o') 5000, gFailTtl = orElse (opFailTtl o') 5000, gL3Ttl = orElse (opL3Ttl o') 60000,
          gKeyMax = keyMax, gOutMax = orElse (opOutMax o') (2 ^ 20), gFlightMax = orElse (opFlight o') (8 * 2 ^ 20),
          gL1 = \<lparr>cNoCodec = scNoCodec s, cHeapFactor = scHeapFactor s, cL1Max = orElse (opL1Max o') (2 * 2 ^ 20),
                 cGuardMax = (case opGuard o' of None \<Rightarrow> 0 | Some (m, _) \<Rightarrow> if m = 0 then 4 / 5 else m),
                 cGuardShed = (case opGuard o' of None \<Rightarrow> 1 / 4 | Some (_, s) \<Rightarrow> if s = 0 then 1 / 4 else s)\<rparr>\<rparr>)"

definition retry_of :: "openOpts \<Rightarrow> ms" where
  "retry_of o' = (case opRetry o' of Num n \<Rightarrow> n | _ \<Rightarrow> 2000)"

text \<open>The checks, in the order of the constructor. \<open>primary\<close> is \<^verbatim>\<open>isPrimaryProcess\<close>.\<close>

definition construct_check :: "builtins \<Rightarrow> bool \<Rightarrow> openOpts \<Rightarrow> openError + unit" where
  "construct_check b primary o' =
     (case (case opL3 o' of None \<Rightarrow> Inr () | Some a \<Rightarrow> (case assertAdapter a of Inl x \<Rightarrow> Inl x | Inr _ \<Rightarrow> Inr ())) of
        Inl x \<Rightarrow> Inl (OptErr x)
      | Inr _ \<Rightarrow>
          (case check_cache_retryMs (opL3 o' \<noteq> None) (opRetry o') of
             Inl x \<Rightarrow> Inl (OptErr x)
           | Inr _ \<Rightarrow>
               if orElse (opWorkerId o') 0 = 0 \<and> opAttached o' \<and> \<not> primary then Inl PrimaryIdTaken
               else (case assertStorageOptions (opStorage o') of
                       Inl x \<Rightarrow> Inl (OptErr x)
                     | Inr _ \<Rightarrow>
                         (case codec_of b o' of
                            Some (_, t) \<Rightarrow> if \<not> opAllowSlow o' \<and> \<not> assertFastCodec t then Inl SlowCodec else Inr ()
                          | None \<Rightarrow> Inr ()))))"

datatype nativeCall = NCreate | NCompress bool | NSubmitCreate | NAttach

record app =
  apProc :: proc
  apBroken :: nat
  apCalls :: "nativeCall list"
  apEnv :: bool
  apRingName :: bool

definition construct :: "builtins \<Rightarrow> addon \<Rightarrow> nat \<Rightarrow> openOpts \<Rightarrow> app \<Rightarrow> (openError + nat) \<times> app" where
  "construct b ad n o' p =
     (case construct_check b (yPrimary (apProc p)) o' of
        Inl x \<Rightarrow> (Inl x, p\<lparr>apBroken := apBroken p + 1\<rparr>)
      | Inr _ \<Rightarrow>
          (Inr n, p\<lparr>apProc := (apProc p)\<lparr>yInsts := yInsts (apProc p) @
             [(n, new_inst (cfg_of b (adKeyMax ad) o')
                    (if opL3 o' \<noteq> None then Some (orElse (opQueueMax o') (8 * 2 ^ 20), retry_of o') else None)
                    (adMaxValue ad))]\<rparr>\<rparr>))"

section \<open>The three ways in\<close>

definition on_proc :: "(proc \<Rightarrow> proc) \<Rightarrow> app \<Rightarrow> app" where
  "on_proc f p = p\<lparr>apProc := f (apProc p)\<rparr>"

definition called :: "nativeCall \<Rightarrow> app \<Rightarrow> app" where
  "called c p = p\<lparr>apCalls := apCalls p @ [c]\<rparr>"

definition createPrimary :: "builtins \<Rightarrow> addon \<Rightarrow> nat \<Rightarrow> openOpts \<Rightarrow> app \<Rightarrow> (openError + nat) \<times> app" where
  "createPrimary b ad n o' p =
     (case assertStorageOptions (opStorage o') of
        Inl x \<Rightarrow> (Inl (OptErr x), p)
      | Inr _ \<Rightarrow>
          if \<not> adCreate ad then (Inl CreateFailed, p)
          else (let p1 = on_proc (\<lambda>q. q\<lparr>yArena := adArena ad\<rparr>) (called NCreate p)
                in if opCompress o' \<and> \<not> adLz4 ad then (Inl NoLz4, p1)
                   else (let p2 = on_proc (\<lambda>q. q\<lparr>yReady := True, yPrimary := True\<rparr>)
                                    (called (NCompress (opCompress o')) p1)
                         in if opIpc o' then construct b ad n (o'\<lparr>opWorkerId := Some 0\<rparr>) p2
                            else if \<not> adSubCreate ad then (Inl RingFailed, p2)
                            else construct b ad n (o'\<lparr>opWorkerId := Some 0\<rparr>)
                                   (on_proc (\<lambda>q. q\<lparr>ySubmit := True\<rparr>) (called NSubmitCreate p2)))))"

text \<open>\<^verbatim>\<open>#useSubmissionRing\<close> of the object just made; the claim is the addon's.\<close>

definition use_ring :: "addon \<Rightarrow> nat \<Rightarrow> app \<Rightarrow> app" where
  "use_ring ad n p =
     (if adClaim ad = None then p
      else (on_proc (upd_inst n (useSubmissionRing (adClaim ad))) p)\<lparr>apRingName := True\<rparr>)"

definition attachWorker :: "builtins \<Rightarrow> addon \<Rightarrow> nat \<Rightarrow> widArg \<Rightarrow> openOpts \<Rightarrow> app \<Rightarrow> (openError + nat) \<times> app" where
  "attachWorker b ad n workerId o' p =
     (case assertStorageOptions (opStorage o') of
        Inl x \<Rightarrow> (Inl (OptErr x), p)
      | Inr _ \<Rightarrow>
          (case attachWorkerId workerId of
             Inl x \<Rightarrow> (Inl (OptErr x), p)
           | Inr wid \<Rightarrow>
               if \<not> adAttach ad then (Inl AttachFailed, p)
               else (let p1 = on_proc (\<lambda>q. q\<lparr>yArena := adArena ad, yReady := True,
                                               yRecov := (yRecov q)\<lparr>rvName := True\<rparr>\<rparr>) (called NAttach p)
                     in case construct b ad n (o'\<lparr>opWorkerId := Some wid\<rparr>) p1 of
                          (Inl x, p2) \<Rightarrow> (Inl x, p2)
                        | (Inr m, p2) \<Rightarrow> (Inr m, if opIpc o' then p2 else use_ring ad m p2))))"

text \<open>\<open>cluster\<close> is the id of the cluster worker this process is, \<open>None\<close> in the primary of the cluster.
  The sizes the machine suggests are those of \<open>autoSize\<close>.\<close>

definition openCache :: "builtins \<Rightarrow> addon \<Rightarrow> nat option \<Rightarrow> sizing \<Rightarrow> nat \<Rightarrow> openOpts \<Rightarrow> app \<Rightarrow> (openError + nat) \<times> app" where
  "openCache b ad cluster auto n o' p =
     (case assertStorageOptions (opStorage o') of
        Inl x \<Rightarrow> (Inl (OptErr x), p)
      | Inr _ \<Rightarrow>
          if yReady (apProc p) then
            (let id' = orElse cluster 0
             in if cluster \<noteq> None \<and> opWorkerId o' \<noteq> None \<and> opWorkerId o' \<noteq> Some id' then (Inl IdAssigned, p)
                else (case construct b ad n (o'\<lparr>opWorkerId := Some id'\<rparr>) p of
                        (Inl x, p1) \<Rightarrow> (Inl x, p1)
                      | (Inr m, p1) \<Rightarrow>
                          (Inr m, if cluster \<noteq> None \<and> apRingName p1 \<and> \<not> opIpc o' then use_ring ad m p1 else p1)))
          else (let o1 = (if opL1Max o' = None then o'\<lparr>opL1Max := Some (int (l1MaxBytes auto))\<rparr> else o')
                in case cluster of
                     Some wid \<Rightarrow>
                       if \<not> apEnv p then (Inl NoArena, p)
                       else attachWorker b ad n (WNum (Num (of_nat wid))) o1 p
                   | None \<Rightarrow> createPrimary b ad n o1 (p\<lparr>apEnv := True\<rparr>)))"

section \<open>What is left behind\<close>

lemma on_proc_simps [simp]:
  "apProc (on_proc f p) = f (apProc p)" "apBroken (on_proc f p) = apBroken p" "apCalls (on_proc f p) = apCalls p"
  "apRingName (on_proc f p) = apRingName p" "apEnv (on_proc f p) = apEnv p"
  by (simp_all add: on_proc_def)

lemma called_simps [simp]:
  "apProc (called c p) = apProc p" "apBroken (called c p) = apBroken p" "apCalls (called c p) = apCalls p @ [c]"
  "apRingName (called c p) = apRingName p" "apEnv (called c p) = apEnv p"
  by (simp_all add: called_def)

lemma use_ring_simps [simp]: "apCalls (use_ring ad n p) = apCalls p" "yPrimary (apProc (use_ring ad n p)) = yPrimary (apProc p)"
  "yReady (apProc (use_ring ad n p)) = yReady (apProc p)"
  by (simp_all add: use_ring_def upd_inst_def)

lemma construct_fails:
  "construct b ad n o' p = (Inl x, q) \<Longrightarrow> construct_check b (yPrimary (apProc p)) o' = Inl x \<and> q = p\<lparr>apBroken := apBroken p + 1\<rparr>"
  by (auto simp: construct_def split: sum.splits)

text \<open>The object a constructor adds, and its configuration.\<close>

definition made :: "builtins \<Rightarrow> addon \<Rightarrow> nat \<Rightarrow> openOpts \<Rightarrow> inst" where
  "made b ad w o' =
     new_inst (cfg_of b (adKeyMax ad) (o'\<lparr>opWorkerId := Some w\<rparr>))
       (if opL3 o' \<noteq> None then Some (orElse (opQueueMax o') (8 * 2 ^ 20), retry_of o') else None) (adMaxValue ad)"

lemma made_id [simp]: "gId (iCfg (made b ad w o')) = w"
  by (simp add: made_def new_inst_def cfg_of_def Let_def orElse_def)

lemma construct_works:
  assumes "construct b ad n (o'\<lparr>opWorkerId := Some w\<rparr>) p = (Inr m, q)"
  shows "m = n \<and> q = on_proc (\<lambda>y. y\<lparr>yInsts := yInsts y @ [(n, made b ad w o')]\<rparr>) p"
  using assms by (auto simp: construct_def made_def retry_of_def on_proc_def split: sum.splits)

lemma upd_fresh: "n \<notin> fst ` set xs \<Longrightarrow> List.map (\<lambda>(m, i). (m, if m = n then f i else i)) xs = xs"
  by (induction xs) auto

lemma use_ring_made:
  assumes "n \<notin> fst ` set (yInsts (apProc p))"
  shows "\<exists>i. yInsts (apProc (use_ring ad n (on_proc (\<lambda>y. y\<lparr>yInsts := yInsts y @ [(n, made b ad w o')]\<rparr>) p))) =
             yInsts (apProc p) @ [(n, i)] \<and> gId (iCfg i) = w"
  using assms
  by (auto simp: use_ring_def upd_inst_def upd_fresh useSubmissionRing_def)

lemma construct_check_primary: "construct_check b True o' \<noteq> Inl PrimaryIdTaken"
  by (auto simp: construct_check_def split: option.splits sum.splits)

lemma check_storage_again:
  "construct_check b True o' = Inl x \<Longrightarrow> x \<in> insert SlowCodec (range OptErr)"
  by (auto simp: construct_check_def split: option.splits sum.splits if_splits)

section \<open>A fresh process\<close>

text \<open>Nothing is asked for but an adapter; \<open>members\<close> are the members it has.\<close>

definition xOpts :: "(string \<Rightarrow> memberKind) \<Rightarrow> openOpts" where
  "xOpts members =
     \<lparr>opL1Max = None, opOutMax = None, opFlight = None, opStale = None, opL3 = Some (AdapterObject members),
      opFailTtl = None, opL3Ttl = None, opRetry = NumUndef, opQueueMax = None, opWorkerId = None, opAttached = True,
      opIpc = False,
      opStorage = \<lparr>saStorage = SAbsent, saValues = SStr ''bytes'', saCodec = CAbsent, saL1DecodedFalse = False,
                   saFreezeFalse = False, saIsolateFalse = False, saHeapFactor = 0\<rparr>,
      opUser = \<lparr>cEncode = Some, cDecode = Some\<rparr>, opText = \<lparr>ctEncode = None, ctDecode = None, ctProbe = None\<rparr>,
      opAllowSlow = False, opGuard = None, opCompress = False\<rparr>"

definition xBuiltins :: builtins where
  "xBuiltins =
     \<lparr>biV8 = \<lparr>cEncode = Some, cDecode = Some\<rparr>, biV8Text = \<lparr>ctEncode = None, ctDecode = None, ctProbe = None\<rparr>,
      biJson = \<lparr>cEncode = Some, cDecode = Some\<rparr>, biJsonText = \<lparr>ctEncode = None, ctDecode = None, ctProbe = None\<rparr>\<rparr>"

definition xAddon :: addon where
  "xAddon = \<lparr>adCreate = True, adLz4 = False, adSubCreate = True, adAttach = True, adClaim = Some (0, 100),
             adMaxValue = 1000, adKeyMax = 100, adArena = xArena\<rparr>"

definition xApp :: app where
  "xApp = \<lparr>apProc = (boot xArena False False [] False)\<lparr>yReady := False\<rparr>, apBroken = 0, apCalls = [], apEnv = True,
           apRingName = False\<rparr>"

lemmas xopen_defs = xOpts_def xBuiltins_def xAddon_def xApp_def boot_def construct_def construct_check_def
  assertStorageOptions_def missing_halves_def noCodecMode_def STORAGE_MODES_def assertAdapter_def REQUIRED_def
  OPTIONAL_def check_cache_retryMs_def codec_of_def resolveStorage_def orElse_def Let_def

text \<open>C33: A failed \<open>createPrimary\<close> leaves the cache objects of the process as they were, and an option that
  \<open>assertStorageOptions\<close> refuses leaves everything as it was. What the constructor refuses it refuses
  after the effects: the arena exists, the process calls itself the primary and ready, and the object
  whose constructor threw stays registered.\<close>

theorem createPrimary_failures:
  assumes "createPrimary b ad n o' p = (Inl x, q)"
  shows "yInsts (apProc q) = yInsts (apProc p) \<and>
    (case x of
        CreateFailed \<Rightarrow> q = p
      | NoLz4 \<Rightarrow> apCalls q = apCalls p @ [NCreate] \<and> yPrimary (apProc q) = yPrimary (apProc p)
      | RingFailed \<Rightarrow> apBroken q = apBroken p \<and> yPrimary (apProc q) \<and> yReady (apProc q)
      | _ \<Rightarrow> (if \<exists>e. assertStorageOptions (opStorage o') = Inl e then q = p
              else apBroken q = apBroken p + 1 \<and> yPrimary (apProc q) \<and> yReady (apProc q) \<and>
                   yArena (apProc q) = adArena ad \<and> NCreate \<in> set (apCalls q)))"
proof (cases "assertStorageOptions (opStorage o')")
  case (Inl e)
  then show ?thesis using assms by (auto simp: createPrimary_def)
next
  case (Inr u)
  show ?thesis
    using assms Inr
    by (auto simp: createPrimary_def Let_def split: if_splits dest!: construct_fails check_storage_again)
qed

text \<open>What making an object, with or without a ring, does to a process.\<close>

lemma construct_in:
  assumes "construct b ad n (o'\<lparr>opWorkerId := Some w\<rparr>) p = (r, q)" "n \<notin> fst ` set (yInsts (apProc p))"
  shows "case r of
      Inl _ \<Rightarrow> q = p\<lparr>apBroken := apBroken p + 1\<rparr>
    | Inr m \<Rightarrow> m = n \<and> (\<forall>s \<in> {q, use_ring ad n q}. apCalls s = apCalls p \<and> yPrimary (apProc s) = yPrimary (apProc p) \<and>
        yReady (apProc s) = yReady (apProc p) \<and> (\<exists>i. yInsts (apProc s) = yInsts (apProc p) @ [(n, i)] \<and> gId (iCfg i) = w))"
proof (cases r)
  case (Inl x)
  then show ?thesis using assms(1) by (auto dest: construct_fails)
next
  case (Inr m)
  then show ?thesis
    using construct_works [of b ad n w o' p m q] assms use_ring_made [OF assms(2)] by auto
qed

lemma attachWorkerId_num: "attachWorkerId (WNum (Num (of_nat w))) = Inr v \<Longrightarrow> v = w"
  by (auto simp: attachWorkerId_def split: if_splits)

lemma attachWorker_effect:
  assumes "attachWorker b ad n (WNum (Num (of_nat wid))) o' p = (r, q)" "n \<notin> fst ` set (yInsts (apProc p))"
  shows "apCalls q \<in> {apCalls p, apCalls p @ [NAttach]} \<and> yPrimary (apProc q) = yPrimary (apProc p) \<and>
    (case r of
       Inl _ \<Rightarrow> yInsts (apProc q) = yInsts (apProc p)
     | Inr m \<Rightarrow> m = n \<and> yReady (apProc q) \<and>
         (\<exists>i. yInsts (apProc q) = yInsts (apProc p) @ [(n, i)] \<and> gId (iCfg i) = wid))"
proof -
  define p1 where "p1 = on_proc (\<lambda>q. q\<lparr>yArena := adArena ad, yReady := True,
                                               yRecov := (yRecov q)\<lparr>rvName := True\<rparr>\<rparr>) (called NAttach p)"
  obtain r2 p2 where c: "construct b ad n (o'\<lparr>opWorkerId := Some wid\<rparr>) p1 = (r2, p2)" by force
  have "n \<notin> fst ` set (yInsts (apProc p1))" using assms(2) by (simp add: p1_def)
  from construct_in [OF c this] show ?thesis
    using assms(1) c
    by (auto simp: attachWorker_def Let_def p1_def [symmetric] split: sum.splits if_splits dest!: attachWorkerId_num)
      (auto simp: p1_def)
qed

text \<open>An adapter with no members is refused with the arena already made.\<close>

lemma xBad_open:
  "createPrimary xBuiltins xAddon 0 (xOpts (\<lambda>_. MUndefined)) xApp =
     (Inl (OptErr (MissingMember ''get'')), snd (createPrimary xBuiltins xAddon 0 (xOpts (\<lambda>_. MUndefined)) xApp))"
  by (simp add: createPrimary_def xopen_defs)

theorem createPrimary_failures_witness:
  "NCreate \<in> set (apCalls (snd (createPrimary xBuiltins xAddon 0 (xOpts (\<lambda>_. MUndefined)) xApp)))"
  using createPrimary_failures [OF xBad_open]
  by (simp add: xOpts_def assertStorageOptions_def noCodecMode_def STORAGE_MODES_def)

text \<open>C34: A process that \<open>cluster\<close> calls a worker never creates an arena and never becomes the primary,
  whatever the options say; the cache it gets back is one new object, whose id is the one \<open>cluster\<close>
  assigned, and the process is attached.\<close>

theorem worker_open_never_creates:
  assumes "openCache b ad (Some wid) auto n o' p = (r, q)" "n \<notin> fst ` set (yInsts (apProc p))"
  shows "apCalls q \<in> {apCalls p, apCalls p @ [NAttach]} \<and> yPrimary (apProc q) = yPrimary (apProc p) \<and>
    (case r of
       Inl _ \<Rightarrow> yInsts (apProc q) = yInsts (apProc p)
     | Inr m \<Rightarrow> m = n \<and> yReady (apProc q) \<and>
         (\<exists>i. yInsts (apProc q) = yInsts (apProc p) @ [(n, i)] \<and> gId (iCfg i) = wid))"
proof (cases "yReady (apProc p)")
  case True
  obtain r2 p2 where c: "construct b ad n (o'\<lparr>opWorkerId := Some wid\<rparr>) p = (r2, p2)" by force
  from construct_in [OF c assms(2)] show ?thesis
    using assms(1) c True by (auto simp: openCache_def orElse_def Let_def split: sum.splits if_splits)
next
  case False
  then show ?thesis
    using assms attachWorker_effect [of b ad n wid _ p r q]
    by (auto simp: openCache_def Let_def split: sum.splits if_splits)
qed

text \<open>The second worker of the cluster, attached with a sound adapter.\<close>

lemma xWorker_open:
  "openCache xBuiltins xAddon (Some 2) \<lparr>arenaBytes = 0, l1MaxBytes = 1000, indexSlots = 1024\<rparr> 0 (xOpts (\<lambda>_. MFunction)) xApp =
     (Inr 0, snd (openCache xBuiltins xAddon (Some 2) \<lparr>arenaBytes = 0, l1MaxBytes = 1000, indexSlots = 1024\<rparr> 0 (xOpts (\<lambda>_. MFunction)) xApp))"
  by (simp add: openCache_def attachWorker_def attachWorkerId_def xopen_defs split: sum.splits)

theorem worker_open_never_creates_witness:
  "yReady (apProc (snd (openCache xBuiltins xAddon (Some 2) \<lparr>arenaBytes = 0, l1MaxBytes = 1000, indexSlots = 1024\<rparr> 0
     (xOpts (\<lambda>_. MFunction)) xApp)))"
  using worker_open_never_creates [OF xWorker_open] by (simp add: xApp_def boot_def)

section \<open>Opening, and the processes whose properties are proved\<close>

text \<open>The module has just been loaded: no object, no arena, nothing owed.\<close>

definition just_loaded :: "proc \<Rightarrow> bool" where
  "just_loaded p \<longleftrightarrow> (\<exists>a nonce. p = (boot a False False nonce False)\<lparr>yReady := False\<rparr>)"

lemma booted_open:
  assumes "just_loaded p"
  shows "booted (p\<lparr>yArena := a, yReady := True, yPrimary := True\<rparr>)"
    "booted (p\<lparr>yArena := a, yReady := True, yPrimary := True, ySubmit := True\<rparr>)"
    "booted (p\<lparr>yArena := a, yReady := True, yRecov := (yRecov p)\<lparr>rvName := True\<rparr>\<rparr>)"
  using assms by (auto simp: just_loaded_def booted_def boot_def)

lemma reach_now: "booted p \<Longrightarrow> proc_reach HK p"
  unfolding proc_reach_booted by blast

lemma construct_reach:
  assumes "construct b ad n (o'\<lparr>opWorkerId := Some w\<rparr>) p = (Inr m, q)" "proc_reach HK (apProc p)"
    "map_of (yInsts (apProc p)) n = None"
  shows "m = n \<and> proc_reach HK (apProc q) \<and> proc_reach HK (apProc (use_ring ad m q))"
proof -
  have mq: "m = n" "q = on_proc (\<lambda>y. y\<lparr>yInsts := yInsts y @ [(n, made b ad w o')]\<rparr>) p"
    using construct_works [OF assms(1)] by auto
  have "proc_step HK (apProc p) (apProc q)"
    unfolding mq(2) made_def on_proc_simps by (rule proc_step.opens) (rule assms(3))
  then have q: "proc_reach HK (apProc q)" using assms(2) by (rule proc_reach_step [rotated])
  moreover have "proc_reach HK (apProc (use_ring ad m q))"
    using proc_reach_step [OF q proc_step.ring [of HK "apProc q" m "adClaim ad"]] q by (simp add: use_ring_def on_proc_def)
  ultimately show ?thesis using mq(1) by simp
qed

lemma attach_reach:
  assumes "attachWorker b ad n wid o' p = (Inr m, q)" "just_loaded (apProc p)"
  shows "proc_reach HK (apProc q)"
proof -
  define p1 where "p1 = on_proc (\<lambda>q. q\<lparr>yArena := adArena ad, yReady := True,
                                               yRecov := (yRecov q)\<lparr>rvName := True\<rparr>\<rparr>) (called NAttach p)"
  have "proc_reach HK (apProc p1)" using reach_now [OF booted_open(3) [OF assms(2)]] by (simp add: p1_def)
  moreover have "map_of (yInsts (apProc p1)) n = None" using assms(2) by (auto simp: p1_def just_loaded_def boot_def)
  ultimately show ?thesis
    using assms(1) by (auto simp: attachWorker_def Let_def p1_def [symmetric] split: sum.splits prod.splits if_splits dest!: construct_reach)
qed

lemma create_reach:
  assumes "createPrimary b ad n o' p = (Inr m, q)" "just_loaded (apProc p)"
  shows "proc_reach HK (apProc q)"
proof -
  let ?q = "(apProc p)\<lparr>yArena := adArena ad, yReady := True, yPrimary := True\<rparr>"
  have none: "map_of (yInsts (apProc p)) n = None" using assms(2) by (auto simp: just_loaded_def boot_def)
  have "proc_reach HK ?q" "proc_reach HK (?q\<lparr>ySubmit := True\<rparr>)"
    using booted_open [OF assms(2)] by (auto intro: reach_now)
  then show ?thesis
    using assms(1) none by (auto simp: createPrimary_def Let_def split: sum.splits prod.splits if_splits dest!: construct_reach)
qed

text \<open>A cache that \<open>open\<close> hands back belongs to a process of which all the properties of processes hold,
  whether the process opened its first cache, as the primary or as a worker, or another one.\<close>

theorem open_reaches:
  assumes "openCache b ad cluster auto n o' p = (Inr m, q)"
    "just_loaded (apProc p) \<or> yReady (apProc p) \<and> proc_reach HK (apProc p)" "map_of (yInsts (apProc p)) n = None"
  shows "proc_reach HK (apProc q) \<and> proc_ok HK (apProc q)"
proof -
  have "proc_reach HK (apProc q)"
  proof (cases "just_loaded (apProc p)")
    case True
    then have "\<not> yReady (apProc p)" by (auto simp: just_loaded_def)
    then show ?thesis
      using assms(1) True create_reach [where HK = HK] attach_reach [where HK = HK]
      by (fastforce simp: openCache_def Let_def split: sum.splits option.splits if_splits)
  next
    case False
    then have "yReady (apProc p)" "proc_reach HK (apProc p)" using assms(2) by auto
    then show ?thesis
      using assms(1,3) by (auto simp: openCache_def Let_def split: sum.splits prod.splits if_splits dest!: construct_reach)
  qed
  then show ?thesis by (simp add: proc_reach_ok)
qed

theorem open_reaches_witness:
  "proc_ok xHK (apProc (snd (openCache xBuiltins xAddon (Some 2) \<lparr>arenaBytes = 0, l1MaxBytes = 1000, indexSlots = 1024\<rparr> 0
     (xOpts (\<lambda>_. MFunction)) xApp)))"
proof -
  have "just_loaded (apProc xApp)" by (auto simp: just_loaded_def xApp_def boot_def)
  moreover have "map_of (yInsts (apProc xApp)) 0 = None" by (simp add: xApp_def boot_def)
  ultimately show ?thesis using open_reaches [OF xWorker_open, of xHK] by blast
qed

end
