(* ===== verification/Freeze.thy ===== *)
theory Freeze
  imports Prelude
begin

text \<open>
  Freezing a cached value (\<^verbatim>\<open>src/src/turbokv.js\<close>, lines 52 to 66 and 857 to 886). A value is a
  reference into a heap of objects: what \<^verbatim>\<open>Object.isFrozen\<close> answers for an object, the methods that
  would mutate its internal slots, the values \<^verbatim>\<open>for (const k in o)\<close> yields and, for a Map or a Set,
  what it holds. The recursion is bounded by the frames of the engine's stack.
\<close>

section \<open>Objects\<close>

datatype objKind = KPlain | KDate | KMap | KSet | KView

text \<open>\<open>NotObject\<close> is null and everything whose \<^verbatim>\<open>typeof\<close> is not \<^verbatim>\<open>object\<close>; \<open>KView\<close> an ArrayBuffer or a
  view of one.\<close>

datatype jsref = NotObject | Ref nat

record obj =
  obKind :: objKind
  obFrozen :: bool
  obMethod :: "string \<Rightarrow> bool"
  obDefinable :: "string \<Rightarrow> bool"
  obShadow :: "string list"
  obProps :: "jsref list"
  obHolds :: "jsref list"

type_synonym heap = "nat \<Rightarrow> obj"

definition DATE_MUTATORS :: "string list" where
  "DATE_MUTATORS =
     [''setTime'', ''setFullYear'', ''setMonth'', ''setDate'', ''setHours'', ''setMinutes'', ''setSeconds'',
      ''setMilliseconds'', ''setUTCFullYear'', ''setUTCMonth'', ''setUTCDate'', ''setUTCHours'', ''setUTCMinutes'',
      ''setUTCSeconds'', ''setUTCMilliseconds'', ''setYear'']"

definition MAP_MUTATORS :: "string list" where
  "MAP_MUTATORS = [''set'', ''delete'', ''clear'']"

definition SET_MUTATORS :: "string list" where
  "SET_MUTATORS = [''add'', ''delete'', ''clear'']"

definition mutators :: "objKind \<Rightarrow> string list" where
  "mutators k = (case k of KDate \<Rightarrow> DATE_MUTATORS | KMap \<Rightarrow> MAP_MUTATORS | KSet \<Rightarrow> SET_MUTATORS | _ \<Rightarrow> [])"

section \<open>The function\<close>

text \<open>\<^verbatim>\<open>Object.defineProperty\<close> throws where the object does not admit the property; what was defined
  before stays.\<close>

datatype freezeError = CannotDefine string | StackOverflow

fun shadow_all :: "string list \<Rightarrow> obj \<Rightarrow> freezeError option \<times> obj" where
  "shadow_all [] ob = (None, ob)"
| "shadow_all (m # ms) ob =
     (if \<not> obMethod ob m then shadow_all ms ob
      else if \<not> obDefinable ob m then (Some (CannotDefine m), ob)
      else shadow_all ms (ob\<lparr>obShadow := obShadow ob @ [m]\<rparr>))"

text \<open>\<open>n\<close> frames are left.\<close>

function deepFreeze :: "nat \<Rightarrow> jsref \<Rightarrow> heap \<Rightarrow> freezeError option \<times> heap"
  and freeze_props :: "nat \<Rightarrow> jsref list \<Rightarrow> heap \<Rightarrow> freezeError option \<times> heap" where
  "deepFreeze 0 v h = (Some StackOverflow, h)"
| "deepFreeze (Suc n) v h =
     (case v of
        NotObject \<Rightarrow> (None, h)
      | Ref r \<Rightarrow>
          if obFrozen (h r) then (None, h)
          else if obKind (h r) = KView then (None, h)
          else (case shadow_all (mutators (obKind (h r))) (h r) of
                  (Some e, ob) \<Rightarrow> (Some e, h(r := ob))
                | (None, ob) \<Rightarrow> freeze_props n (obProps ob) (h(r := ob\<lparr>obFrozen := True\<rparr>))))"
| "freeze_props n [] h = (None, h)"
| "freeze_props n (v # vs) h =
     (case deepFreeze n v h of
        (Some e, h') \<Rightarrow> (Some e, h')
      | (None, h') \<Rightarrow> freeze_props n vs h')"
  by pat_completeness auto
termination
  by (relation "measures [case_sum (\<lambda>(n, v, h). n) (\<lambda>(n, vs, h). n), case_sum (\<lambda>_. 0) (\<lambda>(n, vs, h). Suc (length vs))]")
    auto

section \<open>What it does to the heap\<close>

definition open_obj :: "heap \<Rightarrow> nat \<Rightarrow> bool" where
  "open_obj h r \<longleftrightarrow> \<not> obFrozen (h r) \<and> obKind (h r) \<noteq> KView"

definition succ_of :: "heap \<Rightarrow> nat \<Rightarrow> nat \<Rightarrow> bool" where
  "succ_of h a b \<longleftrightarrow> Ref b \<in> set (obProps (h a)) \<and> open_obj h b"

text \<open>The open objects reached from a set of values through open objects.\<close>

definition within :: "heap \<Rightarrow> jsref set \<Rightarrow> nat set" where
  "within h S = {b. \<exists>a. Ref a \<in> S \<and> open_obj h a \<and> (succ_of h)\<^sup>*\<^sup>* a b}"

definition sealed_obj :: "obj \<Rightarrow> obj" where
  "sealed_obj ob = ob\<lparr>obShadow := obShadow ob @ filter (obMethod ob) (mutators (obKind ob)), obFrozen := True\<rparr>"

definition sealed_in :: "nat set \<Rightarrow> heap \<Rightarrow> heap" where
  "sealed_in A h = (\<lambda>r. if r \<in> A then sealed_obj (h r) else h r)"

definition admits :: "obj \<Rightarrow> bool" where
  "admits ob \<longleftrightarrow> (\<forall>m \<in> set (mutators (obKind ob)). obMethod ob m \<longrightarrow> obDefinable ob m)"

lemma shadow_all_None: "shadow_all ms ob = (None, ob') \<Longrightarrow> ob' = ob\<lparr>obShadow := obShadow ob @ filter (obMethod ob) ms\<rparr>"
proof (induction ms arbitrary: ob)
  case (Cons m ms)
  then show ?case using Cons.IH [of ob] Cons.IH [of "ob\<lparr>obShadow := obShadow ob @ [m]\<rparr>"] by (auto split: if_splits)
qed simp

lemma shadow_all_admits: "\<forall>m \<in> set ms. obMethod ob m \<longrightarrow> obDefinable ob m \<Longrightarrow> fst (shadow_all ms ob) = None"
  by (induction ms arbitrary: ob) auto

lemma sealed_obj_simps [simp]:
  "obKind (sealed_obj ob) = obKind ob" "obFrozen (sealed_obj ob)" "obProps (sealed_obj ob) = obProps ob"
  by (simp_all add: sealed_obj_def)

lemma open_sealed [simp]: "open_obj (sealed_in A h) r \<longleftrightarrow> open_obj h r \<and> r \<notin> A"
  by (simp add: open_obj_def sealed_in_def)

lemma props_sealed [simp]: "obProps (sealed_in A h r) = obProps (h r)"
  by (simp add: sealed_in_def)

lemma sealed_union: "A \<inter> B = {} \<Longrightarrow> sealed_in B (sealed_in A h) = sealed_in (A \<union> B) h"
  by (auto simp: sealed_in_def fun_eq_iff)

lemma within_open: "r \<in> within h S \<Longrightarrow> open_obj h r"
  by (auto simp: within_def succ_of_def elim: rtranclp.cases)

lemma within_base: "Ref a \<in> S \<Longrightarrow> open_obj h a \<Longrightarrow> a \<in> within h S"
  by (auto simp: within_def)

lemma within_step: "a \<in> within h S \<Longrightarrow> succ_of h a b \<Longrightarrow> b \<in> within h S"
  unfolding within_def by (blast intro: rtranclp.rtrancl_into_rtrancl)

lemma within_least:
  assumes "\<And>a. Ref a \<in> S \<Longrightarrow> open_obj h a \<Longrightarrow> a \<in> B" "\<And>a b. a \<in> B \<Longrightarrow> succ_of h a b \<Longrightarrow> b \<in> B"
  shows "within h S \<subseteq> B"
proof
  fix b assume "b \<in> within h S"
  then obtain a where "Ref a \<in> S" "open_obj h a" "(succ_of h)\<^sup>*\<^sup>* a b" by (auto simp: within_def)
  from this(3,1,2) show "b \<in> B" by induction (use assms in blast)+
qed

lemma within_mono: "S \<subseteq> T \<Longrightarrow> within h S \<subseteq> within h T"
  by (auto simp: within_def)

text \<open>One object at a time, and one value after another.\<close>

lemma within_object:
  assumes "open_obj h r"
  shows "within h {Ref r} = insert r (within (sealed_in {r} h) (set (obProps (h r))))"
    "r \<notin> within (sealed_in {r} h) (set (obProps (h r)))"
proof -
  let ?h = "sealed_in {r} h"
  let ?B = "insert r (within ?h (set (obProps (h r))))"
  have succ: "succ_of ?h a b \<longleftrightarrow> succ_of h a b \<and> b \<noteq> r" for a b by (auto simp: succ_of_def)
  show "within h {Ref r} = ?B"
  proof
    show "within h {Ref r} \<subseteq> ?B"
    proof (rule within_least)
      fix a b assume "a \<in> ?B" "succ_of h a b"
      then show "b \<in> ?B"
        by (cases "b = r"; cases "a = r") (auto simp: succ succ_of_def intro: within_step within_base)
    qed auto
    have r: "r \<in> within h {Ref r}" by (rule within_base) (simp_all add: assms)
    have "within ?h (set (obProps (h r))) \<subseteq> within h {Ref r}"
    proof (rule within_least)
      fix a assume "Ref a \<in> set (obProps (h r))" "open_obj ?h a"
      then show "a \<in> within h {Ref r}" by (intro within_step [OF r]) (simp add: succ_of_def)
    next
      fix a b assume "a \<in> within h {Ref r}" "succ_of ?h a b"
      then show "b \<in> within h {Ref r}" by (auto simp: succ intro: within_step)
    qed
    with r show "?B \<subseteq> within h {Ref r}" by simp
  qed
  show "r \<notin> within ?h (set (obProps (h r)))" by (auto dest: within_open)
qed

lemma within_values:
  "within h (insert v S) = within h {v} \<union> within (sealed_in (within h {v}) h) S"
  "within h {v} \<inter> within (sealed_in (within h {v}) h) S = {}"
proof -
  let ?A = "within h {v}" and ?h = "sealed_in (within h {v}) h"
  have succ: "succ_of ?h a b \<longleftrightarrow> succ_of h a b \<and> b \<notin> ?A" for a b by (auto simp: succ_of_def)
  show "within h (insert v S) = ?A \<union> within ?h S"
  proof
    show "within h (insert v S) \<subseteq> ?A \<union> within ?h S"
    proof (rule within_least)
      fix a assume "Ref a \<in> insert v S" "open_obj h a"
      then show "a \<in> ?A \<union> within ?h S" by (cases "a \<in> ?A") (auto intro: within_base)
    next
      fix a b assume "a \<in> ?A \<union> within ?h S" "succ_of h a b"
      then show "b \<in> ?A \<union> within ?h S" by (cases "b \<in> ?A") (auto simp: succ intro: within_step)
    qed
    have "within ?h S \<subseteq> within h (insert v S)"
      by (rule within_least) (auto simp: succ intro: within_base within_step)
    moreover have "?A \<subseteq> within h (insert v S)" by (rule within_mono) simp
    ultimately show "?A \<union> within ?h S \<subseteq> within h (insert v S)" by simp
  qed
  show "?A \<inter> within ?h S = {}" by (auto dest: within_open)
qed

text \<open>What a run that returns has done, and when it does return.\<close>

lemma sealed_one: "shadow_all (mutators (obKind (h r))) (h r) = (None, ob) \<Longrightarrow> h(r := ob\<lparr>obFrozen := True\<rparr>) = sealed_in {r} h"
  by (auto dest!: shadow_all_None simp: sealed_in_def sealed_obj_def fun_eq_iff)

lemma within_none: "v = NotObject \<or> (\<exists>r. v = Ref r \<and> \<not> open_obj h r) \<Longrightarrow> within h {v} = {}"
  by (auto simp: within_def)

lemma within_empty [simp]: "within h {} = {}" by (simp add: within_def)

lemma sealed_empty [simp]: "sealed_in {} h = h" by (simp add: sealed_in_def)

lemma freeze_result:
  "deepFreeze n v h = (None, h') \<Longrightarrow> h' = sealed_in (within h {v}) h"
  "freeze_props n vs h = (None, h'') \<Longrightarrow> h'' = sealed_in (within h (set vs)) h"
proof (induction n v h and n vs h arbitrary: h' and h'' rule: deepFreeze_freeze_props.induct)
  case (2 n v h)
  show ?case
  proof (cases "v = NotObject \<or> (\<exists>r. v = Ref r \<and> \<not> open_obj h r)")
    case True
    then show ?thesis using 2(2) by (auto simp: within_none open_obj_def split: jsref.splits if_splits)
  next
    case False
    then obtain r where r: "v = Ref r" "open_obj h r" by (cases v) auto
    then obtain ob where ob: "shadow_all (mutators (obKind (h r))) (h r) = (None, ob)"
      "freeze_props n (obProps ob) (h(r := ob\<lparr>obFrozen := True\<rparr>)) = (None, h')"
      using 2(2) by (auto simp: open_obj_def split: prod.splits option.splits)
    have "obProps ob = obProps (h r)" using shadow_all_None [OF ob(1)] by simp
    then have "h' = sealed_in (within (sealed_in {r} h) (set (obProps (h r)))) (sealed_in {r} h)"
      using 2(1) [OF r(1) _ _ ob(1) [symmetric] refl] ob r(2) by (auto simp: open_obj_def sealed_one)
    then show ?thesis using within_object [OF r(2)] r(1) by (simp add: sealed_union)
  qed
next
  case (4 n v vs h)
  obtain h1 where h1: "deepFreeze n v h = (None, h1)" "freeze_props n vs h1 = (None, h'')"
    using 4(3) by (auto split: prod.splits option.splits)
  have "h1 = sealed_in (within h {v}) h" using 4(1) h1(1) by simp
  moreover have "h'' = sealed_in (within h1 (set vs)) h1" using 4(2) h1 by auto
  ultimately show ?case using within_values [of h v "set vs"] by (simp add: sealed_union)
qed auto

lemma freeze_returns:
  "finite (within h {v}) \<Longrightarrow> card (within h {v}) < n \<Longrightarrow> \<forall>r \<in> within h {v}. admits (h r) \<Longrightarrow> fst (deepFreeze n v h) = None"
  "finite (within h (set vs)) \<Longrightarrow> card (within h (set vs)) < n \<Longrightarrow> \<forall>r \<in> within h (set vs). admits (h r) \<Longrightarrow>
     fst (freeze_props n vs h) = None"
proof (induction n v h and n vs h rule: deepFreeze_freeze_props.induct)
  case (2 n v h)
  show ?case
  proof (cases "v = NotObject \<or> (\<exists>r. v = Ref r \<and> \<not> open_obj h r)")
    case True
    then show ?thesis by (auto simp: open_obj_def split: jsref.splits)
  next
    case False
    then obtain r where r: "v = Ref r" "open_obj h r" by (cases v) auto
    let ?h = "sealed_in {r} h" and ?vs = "obProps (h r)"
    note W = within_object [OF r(2)]
    have "admits (h r)" using 2(4) W(1) r(1) by simp
    then obtain ob where ob: "shadow_all (mutators (obKind (h r))) (h r) = (None, ob)"
      using shadow_all_admits [of "mutators (obKind (h r))" "h r"] by (auto simp: admits_def prod_eq_iff)
    have "finite (within ?h (set ?vs))" "card (within ?h (set ?vs)) < n"
      using 2(2,3) W r(1) by auto
    moreover have "\<forall>s \<in> within ?h (set ?vs). admits (?h s)"
      using 2(4) W r(1) by (auto simp: sealed_in_def)
    moreover have "obProps ob = ?vs" using shadow_all_None [OF ob] by simp
    ultimately have "fst (freeze_props n ?vs ?h) = None"
      using 2(1) [OF r(1) _ _ ob [symmetric] refl] r(2) sealed_one [of h r ob] ob by (simp add: open_obj_def)
    then show ?thesis using r ob sealed_one [of h r ob] shadow_all_None [OF ob] by (simp add: open_obj_def)
  qed
next
  case (4 n v vs h)
  note W = within_values [of h v "set vs"]
  have sub: "within h {v} \<subseteq> within h (insert v (set vs))" by (rule within_mono) simp
  have fin: "finite (within h (insert v (set vs)))" using 4(3) by simp
  have "card (within h {v}) < n" using card_mono [OF fin sub] 4(4) by simp
  then have one: "fst (deepFreeze n v h) = None" using 4(1,5) sub finite_subset [OF sub fin] by auto
  then obtain h1 where h1: "deepFreeze n v h = (None, h1)" by (cases "deepFreeze n v h") auto
  have eq: "h1 = sealed_in (within h {v}) h" by (rule freeze_result) (rule h1)
  have sub2: "within h1 (set vs) \<subseteq> within h (insert v (set vs))" using W eq by auto
  have "card (within h1 (set vs)) < n" using card_mono [OF fin sub2] 4(4) by simp
  moreover have "\<forall>r \<in> within h1 (set vs). admits (h1 r)"
    using 4(5) sub2 W(2) eq by (auto simp: sealed_in_def)
  ultimately have "fst (freeze_props n vs h1) = None" using 4(2) [OF h1 [symmetric] refl] finite_subset [OF sub2 fin] by blast
  then show ?case using h1 by simp
qed auto

section \<open>Properties\<close>

text \<open>C35: \<open>deepFreeze\<close> comes to an end on every graph of objects, cyclic ones included: as many frames as there
  are open objects to reach, and one more, are enough, and where every method it has to shadow can be
  redefined it throws nothing. Exactly the open objects reached through open objects are frozen, with
  their mutating methods shadowed once; nothing else in the heap changes.\<close>

theorem deepFreeze_total:
  assumes "finite (within h {v})" "card (within h {v}) < n" "\<forall>r \<in> within h {v}. admits (h r)"
  shows "deepFreeze n v h = (None, sealed_in (within h {v}) h)"
  using freeze_returns(1) [OF assms] freeze_result(1) [of n v h] by (cases "deepFreeze n v h") auto

text \<open>An array holding a date and itself.\<close>

definition xHeap :: heap where
  "xHeap r =
     \<lparr>obKind = (if r = 1 then KDate else KPlain), obFrozen = (r > 1), obMethod = (\<lambda>m. m = ''setTime''),
      obDefinable = (\<lambda>_. True), obShadow = [], obProps = (if r = 0 then [NotObject, Ref 1, Ref 0] else []), obHolds = []\<rparr>"

lemma xHeap_within: "within xHeap {Ref 0} \<subseteq> {0, 1}"
  by (rule within_least) (auto simp: open_obj_def succ_of_def xHeap_def split: if_splits)

theorem deepFreeze_total_witness:
  "fst (deepFreeze 3 (Ref 0) xHeap) = None \<and> obShadow (snd (deepFreeze 3 (Ref 0) xHeap) 1) = [''setTime'']"
proof -
  have "(1::nat) \<in> within xHeap {Ref 0}"
    by (rule within_step [OF within_base [of 0]]) (auto simp: open_obj_def succ_of_def xHeap_def)
  moreover have "card (within xHeap {Ref 0}) \<le> 2" using card_mono [OF _ xHeap_within] by simp
  moreover have "finite (within xHeap {Ref 0})" using finite_subset [OF xHeap_within] by simp
  ultimately show ?thesis
    using deepFreeze_total [of xHeap "Ref 0" 3]
    by (simp add: admits_def sealed_in_def sealed_obj_def xHeap_def mutators_def DATE_MUTATORS_def)
qed

text \<open>When nothing that enumeration reaches from a value is frozen beforehand, \<open>deepFreeze\<close> leaves all of it
  frozen, but for the buffers and their views.\<close>

theorem deepFreeze_graph:
  assumes "deepFreeze n (Ref a) h = (None, h')" "(\<lambda>x y. Ref y \<in> set (obProps (h x)))\<^sup>*\<^sup>* a b"
    "\<And>x. (\<lambda>x y. Ref y \<in> set (obProps (h x)))\<^sup>*\<^sup>* a x \<Longrightarrow> \<not> obFrozen (h x) \<and> (obKind (h x) = KView \<longrightarrow> obProps (h x) = [])"
  shows "obFrozen (h' b) \<or> obKind (h' b) = KView"
proof -
  have "open_obj h b \<longrightarrow> b \<in> within h {Ref a}"
    using assms(2,2)
  proof (induction rule: rtranclp_induct)
    case (step b c)
    then have "open_obj h b" using assms(3) [of b] by (auto simp: open_obj_def)
    with step show ?case by (auto simp: succ_of_def intro: within_step)
  qed (auto intro: within_base)
  then show ?thesis
    using freeze_result(1) [OF assms(1)] by (auto simp: open_obj_def sealed_in_def)
qed

theorem deepFreeze_graph_witness:
  "obFrozen (snd (deepFreeze 3 (Ref 0) (\<lambda>r. xHeap r\<lparr>obFrozen := False\<rparr>)) 1)"
proof -
  let ?h = "\<lambda>r. xHeap r\<lparr>obFrozen := False\<rparr>"
  have "deepFreeze 3 (Ref 0) ?h = (None, snd (deepFreeze 3 (Ref 0) ?h))"
    by (simp add: xHeap_def numeral_3_eq_3 mutators_def DATE_MUTATORS_def)
  moreover have "(\<lambda>x y. Ref y \<in> set (obProps (?h x)))\<^sup>*\<^sup>* 0 1" by (rule r_into_rtranclp) (simp add: xHeap_def)
  ultimately have "obFrozen (snd (deepFreeze 3 (Ref 0) ?h) 1) \<or> obKind (snd (deepFreeze 3 (Ref 0) ?h) 1) = KView"
    by (rule deepFreeze_graph) (simp add: xHeap_def)
  then show ?thesis
    by (simp add: xHeap_def numeral_3_eq_3 mutators_def DATE_MUTATORS_def)
qed

text \<open>What only a Map or a Set holds is not frozen with it, and neither is what lies behind an object that is
  frozen already: the object in the map, and the child of the frozen array, stay as they are.\<close>

theorem deepFreeze_leaves_held_values_open:
  "let plain = \<lparr>obKind = KPlain, obFrozen = False, obMethod = (\<lambda>_. False), obDefinable = (\<lambda>_. True), obShadow = [],
                obProps = [], obHolds = []\<rparr>;
       m = plain\<lparr>obKind := KMap, obMethod := (\<lambda>s. s \<in> set MAP_MUTATORS), obHolds := [Ref 1]\<rparr>;
       fz = plain\<lparr>obFrozen := True, obProps := [Ref 1]\<rparr>;
       h = (\<lambda>_. plain)(0 := m, 2 := fz)
   in fst (deepFreeze 3 (Ref 0) h) = None \<and> obFrozen (snd (deepFreeze 3 (Ref 0) h) 0) \<and>
      obHolds (snd (deepFreeze 3 (Ref 0) h) 0) = [Ref 1] \<and> \<not> obFrozen (snd (deepFreeze 3 (Ref 0) h) 1) \<and>
      deepFreeze 3 (Ref 2) h = (None, h)"
  by (simp add: numeral_3_eq_3 mutators_def MAP_MUTATORS_def)

end
