(* ===== verification/Deadlines.thy ===== *)
theory Deadlines
  imports Complex_Main Prelude
begin

text \<open>
  Bounded waits: the timers a queue keeps for as long as it is in service and \<open>withDeadline\<close>
  (\<^verbatim>\<open>src/src/l3/queue.js\<close>, lines 33 to 95), and \<open>#withTimeout\<close> of a closing cache
  (\<^verbatim>\<open>src/src/turbokv.js\<close>, lines 3746 to 3767). A wait is a race between a promise and a timer; the event
  loop fires pending timers and settles promises in any order. A timer that is not unref'd keeps the
  process alive.
\<close>

section \<open>The event loop's timers\<close>

text \<open>The pending timers, each with whether it holds the event loop open.\<close>

type_synonym pendingTimers = "(nat, bool) jsmap"

record serviceTimers =
  tmArmed :: "nat list"
  tmClosed :: bool

text \<open>\<open>Finished\<close> is the empty answer of \<open>#withTimeout\<close>, whatever happened.\<close>

datatype 'v outcome = Resolved 'v | Rejected 'v | TimedOut | Finished

text \<open>\<open>raOut\<close> lists every call of \<open>resolve\<close> and \<open>reject\<close>; \<open>raSettled\<close> is what the promise raced has done.\<close>

record 'v race =
  raTimer :: "nat option"
  raService :: bool
  raDone :: bool
  raSettled :: bool
  raOut :: "'v outcome list"

record 'v waits =
  wtNext :: nat
  wtPending :: pendingTimers
  wtReg :: serviceTimers
  wtRaces :: "(nat, 'v race) jsmap"

definition unref :: "nat \<Rightarrow> pendingTimers \<Rightarrow> pendingTimers" where
  "unref t p = List.map (\<lambda>(s, b). (s, if s = t then False else b)) p"

definition unref_all :: "nat list \<Rightarrow> pendingTimers \<Rightarrow> pendingTimers" where
  "unref_all ts p = List.map (\<lambda>(s, b). (s, if s \<in> set ts then False else b)) p"

section \<open>The registry\<close>

definition arm :: "nat \<Rightarrow> 'v waits \<Rightarrow> 'v waits" where
  "arm t w =
     (if tmClosed (wtReg w) then w\<lparr>wtPending := unref t (wtPending w)\<rparr>
      else w\<lparr>wtReg := (wtReg w)\<lparr>tmArmed := List.insert t (tmArmed (wtReg w))\<rparr>\<rparr>)"

definition disarm :: "nat \<Rightarrow> 'v waits \<Rightarrow> 'v waits" where
  "disarm t w = w\<lparr>wtReg := (wtReg w)\<lparr>tmArmed := removeAll t (tmArmed (wtReg w))\<rparr>\<rparr>"

definition close_timers :: "'v waits \<Rightarrow> 'v waits" where
  "close_timers w =
     w\<lparr>wtReg := \<lparr>tmArmed = [], tmClosed = True\<rparr>, wtPending := unref_all (tmArmed (wtReg w)) (wtPending w)\<rparr>"

section \<open>A race\<close>

definition setTimeout :: "'v waits \<Rightarrow> nat \<times> 'v waits" where
  "setTimeout w = (wtNext w, w\<lparr>wtNext := wtNext w + 1, wtPending := AList.update (wtNext w) True (wtPending w)\<rparr>)"

definition clearTimeout :: "nat \<Rightarrow> 'v waits \<Rightarrow> 'v waits" where
  "clearTimeout t w = w\<lparr>wtPending := AList.delete t (wtPending w)\<rparr>"

definition set_race :: "nat \<Rightarrow> 'v race \<Rightarrow> 'v waits \<Rightarrow> 'v waits" where
  "set_race r x w = w\<lparr>wtRaces := AList.update r x (wtRaces w)\<rparr>"

definition new_race :: "nat option \<Rightarrow> bool \<Rightarrow> 'v race" where
  "new_race t service = \<lparr>raTimer = t, raService = service, raDone = False, raSettled = False, raOut = []\<rparr>"

text \<open>\<open>r\<close> names the race; a bound that is not positive is no bound, and the promise is handed on.\<close>

definition withDeadline :: "nat \<Rightarrow> rat \<Rightarrow> 'v waits \<Rightarrow> 'v waits" where
  "withDeadline r ms w =
     (if \<not> ms > 0 then set_race r (new_race None True) w
      else (let (t, w1) = setTimeout w in set_race r (new_race (Some t) True) (arm t w1)))"

text \<open>\<open>#withTimeout\<close>: the timer never holds the loop, and the answer is \<open>done\<close> either way.\<close>

definition withTimeout :: "nat \<Rightarrow> 'v waits \<Rightarrow> 'v waits" where
  "withTimeout r w =
     (let (t, w1) = setTimeout w in set_race r (new_race (Some t) False) (w1\<lparr>wtPending := unref t (wtPending w1)\<rparr>))"

definition settle_race :: "'v outcome \<Rightarrow> nat \<Rightarrow> 'v race \<Rightarrow> 'v waits \<Rightarrow> 'v waits" where
  "settle_race out r x w = set_race r (x\<lparr>raDone := True, raOut := raOut x @ [out]\<rparr>) w"

text \<open>The timer of the race fires.\<close>

definition timer_fired :: "nat \<Rightarrow> 'v race \<Rightarrow> 'v waits \<Rightarrow> 'v waits" where
  "timer_fired r x w =
     (case raTimer x of
        None \<Rightarrow> w
      | Some t \<Rightarrow>
          (let w1 = clearTimeout t w
           in if raDone x then w1
              else if raService x then settle_race TimedOut r x (disarm t w1)
              else settle_race Finished r x w1))"

text \<open>The promise of the race settles.\<close>

definition promise_settled :: "'v outcome \<Rightarrow> nat \<Rightarrow> 'v race \<Rightarrow> 'v waits \<Rightarrow> 'v waits" where
  "promise_settled out r x w =
     (let x1 = x\<lparr>raSettled := True\<rparr>
      in case raTimer x of
           None \<Rightarrow> settle_race out r x1 w
         | Some t \<Rightarrow>
             if raDone x then set_race r x1 w
             else (let w1 = clearTimeout t w
                   in if raService x then settle_race out r x1 (disarm t w1) else settle_race Finished r x1 w1))"

inductive wait_step :: "'v waits \<Rightarrow> 'v waits \<Rightarrow> bool" where
  deadline: "map_of (wtRaces w) r = None \<Longrightarrow> wait_step w (withDeadline r ms w)"
| timeout: "map_of (wtRaces w) r = None \<Longrightarrow> wait_step w (withTimeout r w)"
| fired: "map_of (wtRaces w) r = Some x \<Longrightarrow> raTimer x = Some t \<Longrightarrow> map_of (wtPending w) t = Some b \<Longrightarrow>
    wait_step w (timer_fired r x w)"
| settled: "map_of (wtRaces w) r = Some x \<Longrightarrow> \<not> raSettled x \<Longrightarrow> out \<notin> {TimedOut, Finished} \<Longrightarrow> wait_step w (promise_settled out r x w)"
| close: "wait_step w (close_timers w)"

definition no_waits :: "'v waits" where
  "no_waits = \<lparr>wtNext = 0, wtPending = [], wtReg = \<lparr>tmArmed = [], tmClosed = False\<rparr>, wtRaces = []\<rparr>"

definition waits_reach :: "'v waits \<Rightarrow> bool" where
  "waits_reach w \<longleftrightarrow> wait_step\<^sup>*\<^sup>* no_waits w"

section \<open>What every reachable state satisfies\<close>

text \<open>What a race says of its timer. Every pending timer is the timer of exactly one race.\<close>

definition race_ok :: "'v waits \<Rightarrow> 'v race \<Rightarrow> bool" where
  "race_ok w x \<longleftrightarrow>
     length (raOut x) = (if raDone x then 1 else 0) \<and>
     (raSettled x \<longrightarrow> raDone x) \<and> (\<not> raService x \<longrightarrow> raTimer x \<noteq> None \<and> set (raOut x) \<subseteq> {Finished}) \<and>
     (case raTimer x of
        None \<Rightarrow> raDone x = raSettled x
      | Some t \<Rightarrow> t < wtNext w \<and>
          map_of (wtPending w) t = (if raDone x then None else Some (raService x \<and> \<not> tmClosed (wtReg w))) \<and>
          (t \<in> set (tmArmed (wtReg w)) \<longleftrightarrow> raService x \<and> \<not> raDone x \<and> \<not> tmClosed (wtReg w)))"

definition timers_apart :: "'v waits \<Rightarrow> bool" where
  "timers_apart w \<longleftrightarrow>
     (\<forall>r s x y t. map_of (wtRaces w) r = Some x \<longrightarrow> map_of (wtRaces w) s = Some y \<longrightarrow>
        raTimer x = Some t \<longrightarrow> raTimer y = Some t \<longrightarrow> r = s)"

definition timers_owned :: "'v waits \<Rightarrow> bool" where
  "timers_owned w \<longleftrightarrow>
     (\<forall>t b. map_of (wtPending w) t = Some b \<longrightarrow> (\<exists>r x. map_of (wtRaces w) r = Some x \<and> raTimer x = Some t))"

definition waits_ok :: "'v waits \<Rightarrow> bool" where
  "waits_ok w \<longleftrightarrow>
     (\<forall>r x. map_of (wtRaces w) r = Some x \<longrightarrow> race_ok w x) \<and> timers_apart w \<and> timers_owned w \<and>
     (\<forall>t \<in> set (tmArmed (wtReg w)). t < wtNext w)"

lemma map_of_unref [simp]: "map_of (unref t p) s = map_option (\<lambda>b. b \<and> s \<noteq> t) (map_of p s)"
  by (induction p) (auto simp: unref_def split: if_splits)

lemma map_of_unref_all [simp]: "map_of (unref_all ts p) s = map_option (\<lambda>b. b \<and> s \<notin> set ts) (map_of p s)"
  by (induction p) (auto simp: unref_all_def split: if_splits)

lemma timer_simps [simp]:
  "wtRaces (clearTimeout t w) = wtRaces w" "wtReg (clearTimeout t w) = wtReg w" "wtNext (clearTimeout t w) = wtNext w"
  "wtPending (clearTimeout t w) = AList.delete t (wtPending w)"
  "wtRaces (disarm t w) = wtRaces w" "wtNext (disarm t w) = wtNext w" "wtPending (disarm t w) = wtPending w"
  "tmClosed (wtReg (disarm t w)) = tmClosed (wtReg w)" "tmArmed (wtReg (disarm t w)) = removeAll t (tmArmed (wtReg w))"
  "wtRaces (set_race r x w) = AList.update r x (wtRaces w)" "wtReg (set_race r x w) = wtReg w"
  "wtNext (set_race r x w) = wtNext w" "wtPending (set_race r x w) = wtPending w"
  by (simp_all add: clearTimeout_def disarm_def set_race_def)

text \<open>A change that concerns one race and its timer.\<close>

lemma waits_okD:
  assumes "waits_ok w"
  shows "map_of (wtRaces w) r = Some x \<Longrightarrow> race_ok w x"
    "map_of (wtRaces w) r = Some x \<Longrightarrow> map_of (wtRaces w) s = Some y \<Longrightarrow> raTimer x = Some t \<Longrightarrow> raTimer y = Some t \<Longrightarrow> r = s"
    "map_of (wtPending w) t = Some b \<Longrightarrow> \<exists>r x. map_of (wtRaces w) r = Some x \<and> raTimer x = Some t"
    "t \<in> set (tmArmed (wtReg w)) \<Longrightarrow> t < wtNext w"
  using assms unfolding waits_ok_def timers_apart_def timers_owned_def by blast+

lemma waits_ok_local:
  assumes ok: "waits_ok w"
    and R: "wtRaces w' = AList.update r x' (wtRaces w)" "race_ok w' x'"
    and nxt: "wtNext w \<le> wtNext w'" "tmClosed (wtReg w') = tmClosed (wtReg w)"
    and other: "\<And>s. raTimer x' \<noteq> Some s \<Longrightarrow> map_of (wtPending w') s = map_of (wtPending w) s"
      "\<And>s. raTimer x' \<noteq> Some s \<Longrightarrow> s \<in> set (tmArmed (wtReg w')) \<longleftrightarrow> s \<in> set (tmArmed (wtReg w))"
    and own: "\<And>s y t. s \<noteq> r \<Longrightarrow> map_of (wtRaces w) s = Some y \<Longrightarrow> raTimer y = Some t \<Longrightarrow> raTimer x' \<noteq> Some t"
    and same: "\<And>x. map_of (wtRaces w) r = Some x \<Longrightarrow> raTimer x = raTimer x'"
  shows "waits_ok w'"
proof -
  note D = waits_okD [OF ok]
  have races: "map_of (wtRaces w') s = (if s = r then Some x' else map_of (wtRaces w) s)" for s by (simp add: R(1))
  have H1: "race_ok w' y" if y: "map_of (wtRaces w') s = Some y" for s y
  proof (cases "s = r")
    case True
    then show ?thesis using y R(2) by (simp add: races)
  next
    case False
    then have wy: "map_of (wtRaces w) s = Some y" using y by (simp add: races)
    then have "race_ok w y" by (rule D)
    moreover have "raTimer y = Some t \<Longrightarrow> raTimer x' \<noteq> Some t" for t using own [OF False wy] by blast
    ultimately show ?thesis using nxt other unfolding race_ok_def by (auto split: option.splits)
  qed
  have H2: "timers_apart w'"
    unfolding timers_apart_def
  proof (intro allI impI)
    fix r1 r2 y1 y2 t
    assume "map_of (wtRaces w') r1 = Some y1" "map_of (wtRaces w') r2 = Some y2" "raTimer y1 = Some t" "raTimer y2 = Some t"
    then show "r1 = r2"
      using own [of r1 y1 t] own [of r2 y2 t] D(2) [of r1 y1 r2 y2 t] by (simp add: races split: if_splits)
  qed
  have H3: "timers_owned w'"
    unfolding timers_owned_def
  proof (intro allI impI)
    fix t b
    assume p: "map_of (wtPending w') t = Some b"
    show "\<exists>s y. map_of (wtRaces w') s = Some y \<and> raTimer y = Some t"
    proof (cases "raTimer x' = Some t")
      case True
      moreover have "map_of (wtRaces w') r = Some x'" by (simp add: races)
      ultimately show ?thesis by (intro exI conjI)
    next
      case False
      then have "map_of (wtPending w) t = Some b" using p other(1) by simp
      then obtain s y where sy: "map_of (wtRaces w) s = Some y" "raTimer y = Some t" using D(3) by blast
      then have "s \<noteq> r" using same [of y] False by metis
      then have "map_of (wtRaces w') s = Some y" using sy(1) by (simp only: races if_False)
      then show ?thesis using sy(2) by (intro exI conjI)
    qed
  qed
  have H4: "t < wtNext w'" if "t \<in> set (tmArmed (wtReg w'))" for t
  proof (cases "raTimer x' = Some t")
    case True
    then show ?thesis using R(2) by (simp add: race_ok_def)
  next
    case False
    then have "t < wtNext w" using that other(2) D(4) by blast
    then show ?thesis using nxt(1) by simp
  qed
  show ?thesis
    unfolding waits_ok_def by (intro conjI allI ballI impI H2 H3; (rule H1 | rule H4); assumption)
qed

text \<open>The race was there, and keeps its timer.\<close>

lemma waits_ok_keep:
  assumes ok: "waits_ok w" and x: "map_of (wtRaces w) r = Some x" "raTimer x' = raTimer x"
    and R: "wtRaces w' = AList.update r x' (wtRaces w)" "race_ok w' x'"
    and nxt: "wtNext w' = wtNext w" "tmClosed (wtReg w') = tmClosed (wtReg w)"
    and other: "\<And>s. raTimer x \<noteq> Some s \<Longrightarrow> map_of (wtPending w') s = map_of (wtPending w) s"
      "\<And>s. raTimer x \<noteq> Some s \<Longrightarrow> s \<in> set (tmArmed (wtReg w')) \<longleftrightarrow> s \<in> set (tmArmed (wtReg w))"
  shows "waits_ok w'"
proof (rule waits_ok_local [OF ok R])
  fix s y t
  assume "s \<noteq> r" "map_of (wtRaces w) s = Some y" "raTimer y = Some t"
  then show "raTimer x' \<noteq> Some t" using waits_okD(2) [OF ok x(1), of s y t] x(2) by auto
qed (simp_all add: x nxt other)

text \<open>A number not handed out yet belongs to no race.\<close>

lemma fresh_timer:
  assumes "waits_ok w"
  shows "map_of (wtPending w) (wtNext w) = None" "wtNext w \<notin> set (tmArmed (wtReg w))"
    "map_of (wtRaces w) r = Some x \<Longrightarrow> raTimer x \<noteq> Some (wtNext w)"
proof -
  have *: "map_of (wtRaces w) r = Some x \<Longrightarrow> raTimer x \<noteq> Some (wtNext w)" for r x
    using waits_okD(1) [OF assms, of r x] by (auto simp: race_ok_def)
  then show "map_of (wtRaces w) r = Some x \<Longrightarrow> raTimer x \<noteq> Some (wtNext w)" .
  show "map_of (wtPending w) (wtNext w) = None"
    using waits_okD(3) [OF assms] * by (meson not_Some_eq)
  show "wtNext w \<notin> set (tmArmed (wtReg w))" using waits_okD(4) [OF assms] by blast
qed

lemma wait_step_ok: "wait_step w w' \<Longrightarrow> waits_ok w \<Longrightarrow> waits_ok w'"
proof (induction rule: wait_step.induct)
  case (deadline w r ms)
  note F = fresh_timer [OF deadline(2)]
  show ?case
    by (rule waits_ok_local [OF deadline(2), of _ r "new_race (if ms > 0 then Some (wtNext w) else None) True"])
      (use F deadline(1) in \<open>auto simp: withDeadline_def setTimeout_def arm_def race_ok_def new_race_def Let_def option.map_ident\<close>)
next
  case (timeout w r)
  note F = fresh_timer [OF timeout(2)]
  show ?case
    by (rule waits_ok_local [OF timeout(2), of _ r "new_race (Some (wtNext w)) False"])
      (use F timeout(1) in \<open>auto simp: withTimeout_def setTimeout_def race_ok_def new_race_def Let_def option.map_ident\<close>)
next
  case (fired w r x t b)
  have x: "race_ok w x" by (rule waits_okD(1) [OF fired(4,1)])
  then have nd: "\<not> raDone x" using fired(2,3) by (auto simp: race_ok_def)
  let ?x = "x\<lparr>raDone := True, raOut := raOut x @ [if raService x then TimedOut else Finished]\<rparr>"
  have eq: "timer_fired r x w = set_race r ?x (if raService x then disarm t (clearTimeout t w) else clearTimeout t w)"
    by (simp add: timer_fired_def settle_race_def fired(2) nd Let_def)
  show ?case
    unfolding eq
  proof (rule waits_ok_keep [OF fired(4,1), of ?x])
    show "race_ok (set_race r ?x (if raService x then disarm t (clearTimeout t w) else clearTimeout t w)) ?x"
      using x by (auto simp: race_ok_def fired(2) nd)
  qed (auto simp: fired(2))
next
  case (settled w r x out)
  have x: "race_ok w x" by (rule waits_okD(1) [OF settled(4,1)])
  show ?case
  proof (cases "raDone x \<and> raTimer x \<noteq> None")
    case True
    let ?x = "x\<lparr>raSettled := True\<rparr>"
    have eq: "promise_settled out r x w = set_race r ?x w" using True by (auto simp: promise_settled_def Let_def)
    show ?thesis
      unfolding eq
    proof (rule waits_ok_keep [OF settled(4,1), of ?x])
      show "race_ok (set_race r ?x w) ?x" using x True by (auto simp: race_ok_def)
    qed auto
  next
    case False
    then have nd: "\<not> raDone x" using x settled(2) by (auto simp: race_ok_def)
    let ?x = "x\<lparr>raSettled := True, raDone := True, raOut := raOut x @ [out]\<rparr>"
    show ?thesis
    proof (cases "raTimer x")
      case None
      then have eq: "promise_settled out r x w = set_race r ?x w" by (simp add: promise_settled_def settle_race_def Let_def)
      show ?thesis
        unfolding eq
      proof (rule waits_ok_keep [OF settled(4,1), of ?x])
        show "race_ok (set_race r ?x w) ?x" using x nd None by (auto simp: race_ok_def)
      qed auto
    next
      case (Some t)
      let ?x = "x\<lparr>raSettled := True, raDone := True, raOut := raOut x @ [if raService x then out else Finished]\<rparr>"
      let ?w = "if raService x then disarm t (clearTimeout t w) else clearTimeout t w"
      have eq: "promise_settled out r x w = set_race r ?x ?w"
        using Some nd by (simp add: promise_settled_def settle_race_def Let_def)
      show ?thesis
        unfolding eq
      proof (rule waits_ok_keep [OF settled(4,1), of ?x])
        show "race_ok (set_race r ?x ?w) ?x" using x nd Some by (auto simp: race_ok_def)
      qed (auto simp: Some)
    qed
  qed
next
  case (close w)
  note D = waits_okD [OF close]
  have "race_ok (close_timers w) x" if r: "map_of (wtRaces (close_timers w)) r = Some x" for r x
  proof -
    have x: "race_ok w x" using r by (intro D(1) [of r]) (simp add: close_timers_def)
    then show ?thesis by (cases "raTimer x") (auto simp: race_ok_def close_timers_def)
  qed
  moreover have "timers_apart (close_timers w)" "timers_owned (close_timers w)"
    using close by (auto simp: waits_ok_def timers_apart_def timers_owned_def close_timers_def)
  ultimately show ?case by (simp add: waits_ok_def) (simp add: close_timers_def)
qed

interpretation wt: step_invariant wait_step "\<lambda>w. w = no_waits" waits_ok
proof unfold_locales
  show "s = no_waits \<Longrightarrow> waits_ok s" for s :: "'v waits"
    by (simp add: waits_ok_def no_waits_def timers_apart_def timers_owned_def)
qed (rule wait_step_ok)

lemma waits_reach_ok: "waits_reach w \<Longrightarrow> waits_ok w"
  unfolding waits_reach_def by (rule wt.inv_reached) (rule refl)

lemma waits_reach_step: "waits_reach w \<Longrightarrow> wait_step w w' \<Longrightarrow> waits_reach w'"
  unfolding waits_reach_def by (rule rtranclp.rtrancl_into_rtrancl)

lemma waits_reach_none: "waits_reach no_waits"
  by (simp add: waits_reach_def)

text \<open>The outcome of a race, once there, is left alone by every step.\<close>

lemma settled_stays:
  assumes "wait_step w w'" "waits_ok w" "map_of (wtRaces w) r = Some x" "raDone x"
  shows "\<exists>x'. map_of (wtRaces w') r = Some x' \<and> raOut x' = raOut x"
  using assms
proof (induction rule: wait_step.induct)
  case (deadline w s ms)
  then show ?case by (auto simp: withDeadline_def setTimeout_def arm_def Let_def)
next
  case (timeout w s)
  then show ?case by (auto simp: withTimeout_def setTimeout_def Let_def)
next
  case (fired w s y t b)
  then show ?case
    using waits_okD(1) [OF fired(4,1)] by (auto simp: timer_fired_def settle_race_def race_ok_def Let_def)
next
  case (settled w s y out)
  then show ?case
    using waits_okD(1) [OF settled(4,1)]
    by (auto simp: promise_settled_def settle_race_def race_ok_def Let_def split: option.splits)
next
  case (close w)
  then show ?case by (auto simp: close_timers_def)
qed

section \<open>Properties\<close>

text \<open>A bounded wait is settled at most once, by whichever of its promise and its timer comes first, and
  what it was settled with no later event changes; it has been settled as soon as its promise has. The
  wait of a closing cache is only ever finished, never rejected.\<close>

theorem wait_settles_once:
  assumes "waits_reach w" "wait_step w w'" "map_of (wtRaces w) r = Some x"
  shows "length (raOut x) \<le> 1 \<and> (raSettled x \<longrightarrow> raOut x \<noteq> []) \<and> (\<not> raService x \<longrightarrow> set (raOut x) \<subseteq> {Finished}) \<and>
    (raOut x \<noteq> [] \<longrightarrow> (\<exists>x'. map_of (wtRaces w') r = Some x' \<and> raOut x' = raOut x))"
proof -
  have ok: "waits_ok w" by (rule waits_reach_ok) (rule assms(1))
  have x: "race_ok w x" by (rule waits_okD(1) [OF ok assms(3)])
  then have "raOut x \<noteq> [] \<longleftrightarrow> raDone x" by (auto simp: race_ok_def split: if_splits)
  then show ?thesis using x settled_stays [OF assms(2) ok assms(3)] by (auto simp: race_ok_def)
qed

text \<open>One wait, settled by its timer; the promise then settles too late.\<close>

definition xWait :: "nat waits" where
  "xWait = timer_fired 0 (new_race (Some 0) True) (withDeadline 0 100 no_waits)"

lemma xWait_reach: "waits_reach (withDeadline 0 (100 :: rat) (no_waits :: nat waits))" "waits_reach xWait"
proof -
  show *: "waits_reach (withDeadline 0 (100 :: rat) (no_waits :: nat waits))"
    by (rule waits_reach_step [OF waits_reach_none wait_step.deadline]) (simp add: no_waits_def)
  show "waits_reach xWait"
    unfolding xWait_def
    by (rule waits_reach_step [OF * wait_step.fired [where t = 0 and b = True]])
      (simp_all add: withDeadline_def setTimeout_def arm_def no_waits_def new_race_def set_race_def)
qed

lemmas xWait_defs = xWait_def timer_fired_def withDeadline_def setTimeout_def arm_def no_waits_def new_race_def
  set_race_def settle_race_def disarm_def clearTimeout_def

theorem wait_settles_once_witness:
  "\<exists>x'. map_of (wtRaces (promise_settled (Resolved 7) 0 \<lparr>raTimer = Some 0, raService = True, raDone = True,
     raSettled = False, raOut = [TimedOut]\<rparr> xWait)) 0 = Some x' \<and> raOut x' = [TimedOut]"
proof -
  let ?x = "\<lparr>raTimer = Some 0, raService = True, raDone = True, raSettled = False, raOut = [TimedOut]\<rparr> :: nat race"
  have x: "map_of (wtRaces xWait) 0 = Some ?x" by (simp add: xWait_defs)
  have "wait_step xWait (promise_settled (Resolved 7) 0 ?x xWait)"
    by (rule wait_step.settled) (simp_all add: x)
  from wait_settles_once [OF xWait_reach(2) this x] show ?thesis by simp
qed



end
