(* ===== verification/Trips.thy ===== *)
theory Trips
  imports Examples
begin

text \<open>
  Writes followed by reads, and writes that are refused. A set on the primary is read back, a removed
  key is not; a rejected set leaves everything but its counters; and two cases in which the code does
  less than it says: a value without a length in the default mode, and a removal that an older flush
  record makes the worker forget.
\<close>

section \<open>What a set on the primary leaves\<close>

lemma dropOthers_self: "map_of (yInsts (dropOthers key n p)) n = map_of (yInsts p) n"
  by (cases "map_of (yInsts p) n") (simp_all add: dropOthers_def)

lemma queued_set_inst:
  "map_of (yInsts p) n = Some i \<Longrightarrow>
   \<exists>j. map_of (yInsts (queued (queueSet e key enc ttl level) n p)) n = Some j \<and> iCfg j = iCfg i \<and> iL1 j = iL1 i \<and>
       iCoh j = iCoh i \<and> iLive j = iLive i \<and> iCaps j = iCaps i"
  by (auto simp: queued_def queueSet_def queue_op_def set_last_def split: option.split prod.split)

text \<open>The key in the arena, and in the tier either absent or as written.\<close>

definition holds :: "nat \<Rightarrow> jsstr \<Rightarrow> jsval \<Rightarrow> jsval \<Rightarrow> nat \<Rightarrow> ms \<Rightarrow> cfg \<Rightarrow> proc \<Rightarrow> bool" where
  "holds n key lv enc dl l1exp g q \<longleftrightarrow>
     map_of (aMap (yArena q)) key = Some \<lparr>aeVal = storedForm enc, aeExp = dl\<rparr> \<and>
     (\<exists>j. map_of (yInsts q) n = Some j \<and> iCfg j = g \<and> \<not> vDead (iLive j) \<and> \<not> unappliedHere j key \<and>
        map_of (pMap (iCaps j)) key = None \<and>
        (\<forall>en. map_of (l1Map (iL1 j)) key = Some en \<longrightarrow> eV en = lv \<and> eExp en = l1exp))"

lemma set_primary_holds:
  assumes i: "map_of (yInsts p) n = Some i" "\<not> vClosed (iLive i)" "\<not> vDead (iLive i)" "\<not> unappliedHere i key"
    and l1: "\<And>en. map_of (l1Map (iL1 i)) key = Some en \<Longrightarrow> eV en = lv \<and> eExp en = l1exp"
    and s: "set_primary HK e level key enc ttl n p = (True, q)"
  shows "holds n key lv enc (expiresAt (eTick e) (readTtlMs ttl)) l1exp (iCfg i) q \<and> yReady q = yReady p"
proof -
  obtain p1 where p: "publishArenaSet HK e key enc 0 ttl p = (True, p1)" "q = queued (queueSet e key enc ttl level) n (dropOthers key n p1)"
    using s by (auto simp: set_primary_def split: prod.splits if_splits)
  obtain a where a: "p1 = cancelCaps key (p\<lparr>yArena := a\<rparr>)"
      "map_of (aMap a) key = Some \<lparr>aeVal = storedForm enc, aeExp = expiresAt (eTick e) (readTtlMs ttl)\<rparr>"
    using p(1) by (auto simp: publishArenaSet_def n_set_def ringAppend_def split: option.splits prod.splits if_splits)
  have "map_of (yInsts (dropOthers key n p1)) n = Some (cancelCap key i)"
    using i a by (simp add: dropOthers_self cancelCaps_def)
  then obtain j where j: "map_of (yInsts q) n = Some j" "iCfg j = iCfg i" "iL1 j = iL1 i" "iCoh j = iCoh i"
      "iLive j = iLive i" "iCaps j = iCaps (cancelCap key i)"
    using queued_set_inst [of "dropOthers key n p1" n "cancelCap key i" e key enc ttl level] p(2) by auto
  have "yArena q = a" "yReady q = yReady p"
    using p(2) a(1) by (simp_all add: queued_def dropOthers_def cancelCaps_def)
  then show ?thesis using j i l1 a(2) by (auto simp: holds_def unappliedHere_def)
qed

lemma holds_get:
  assumes "holds n key lv enc dl l1exp g q" "gId g = 0" "yReady q" "\<not> hasLoneSurrogate key"
    and "\<not> tcExpired dl (eTick e)" "l1exp = 0 \<or> eMono e < l1exp"
    and "gCodec g = None" "gL1Decoded g" "cNoCodec (gL1 g)"
  shows "fst (get_at HK e (VStr key) NumUndef n q) \<in> {Inr lv, Inr (storedForm enc)}"
proof -
  obtain j where j: "map_of (yInsts q) n = Some j" "iCfg j = g" "\<not> vDead (iLive j)" "\<not> unappliedHere j key"
      "map_of (pMap (iCaps j)) key = None"
      "\<And>en. map_of (l1Map (iL1 j)) key = Some en \<Longrightarrow> eV en = lv \<and> eExp en = l1exp"
    using assms(1) by (auto simp: holds_def)
  have a: "map_of (aMap (yArena q)) key = Some \<lparr>aeVal = storedForm enc, aeExp = dl\<rparr>" using assms(1) by (simp add: holds_def)
  have l: "level_of b j NumUndef = Inr 1" for b by (simp add: level_of_def resolveLevel_def)
  have d: "drain x y j = (j, False)" for x y using j(2) assms(2) by (simp add: drain_def)
  have l2: "fst (get_l2 HK (env_in q e) (yArena q) 1 key j) = Inr (storedForm enc)"
    using j a assms by (simp add: get_l2_def n_get_def live_entry_def env_in_def capExpired_def fill_from_l2_def)
  have "fst (get_drained HK (env_in q e) (yArena q) 1 key j) \<in> {Inr lv, Inr (storedForm enc)}"
  proof (cases "map_of (l1Map (iL1 j)) key")
    case None
    then show ?thesis using j assms l2 by (simp add: get_drained_def)
  next
    case (Some en)
    then show ?thesis using j assms j(6) [OF Some] by (auto simp: get_drained_def serve_l1_def env_in_def)
  qed
  then show ?thesis using assms(3) j l d inst_of_Some [OF j(1)]
    by (auto simp: get_at_def get_def Let_def case_prod_beta split: prod.split)
qed

lemma set_l1_fields [simp]:
  "iCfg (set_l1 HK e level key lv len ttl pos i) = iCfg i" "iCoh (set_l1 HK e level key lv len ttl pos i) = iCoh i"
  "iLive (set_l1 HK e level key lv len ttl pos i) = iLive i"
  by (simp_all add: set_l1_def l1_at_def)

lemma set_l1_entry:
  assumes "l1_inv HK (iL1 i)" "gId (iCfg i) = 0"
    and "map_of (l1Map (iL1 (set_l1 HK e level key lv len ttl pos i))) key = Some en"
  shows "eV en = lv \<and> eExp en = (if ttl > 0 then eMono e + ttl else 0)"
proof (cases "level = 1")
  case True
  then have "same_entry en (entry_of (gL1 (iCfg i)) key lv (HK key) len (if ttl > 0 then eMono e + ttl else 0) (- 1))"
    using l1Put_resident [OF assms(1), of "gL1 (iCfg i)" key lv len _ "- 1" key en] assms(2,3) by (simp add: set_l1_def l1_at_def)
  then show ?thesis by (cases en) (auto simp: entry_of_def same_entry_def)
next
  case False
  then show ?thesis using assms(3) by (simp add: set_l1_def l1_at_def)
qed

lemma set_primary_whole:
  assumes p: "proc_ok HK p" and i: "map_of (yInsts p) n = Some i" "\<not> vClosed (iLive i)" "\<not> vDead (iLive i)" "gId (iCfg i) = 0"
    and lv: "opts = None \<or> soLevel (the opts) \<in> {NumUndef, Num 1, Num 2}"
    and s: "setKey HK e (VStr key) v opts n p = (Inr True, q)"
    and ttl: "ttl = (case opts of None \<Rightarrow> 0 | Some x \<Rightarrow> clampTtl (the (soTtl x)))"
  shows "\<exists>lv enc. prepare i key v = Inr (Inr (lv, enc)) \<and>
    holds n key lv enc (expiresAt (eTick e) (readTtlMs ttl)) (if ttl > 0 then eMono e + ttl else 0) (iCfg i) q \<and>
    yReady q = yReady p"
proof -
  let ?i = "bump ''sets'' i" and ?p = "upd_inst n (bump ''sets'') (check_at e n p)"
  have c: "map_of (yInsts ?p) n = Some ?i" "yReady ?p = yReady p"
    using i by (auto simp: check_at_def checkPrimary_def)
  have prep: "prepare ?i key v = prepare i key v" by (simp only: prepare_def bump_frame)
  obtain level where lev: "(case opts of None \<Rightarrow> Inr 1 | Some x \<Rightarrow> level_of (yReady p) (inst_of n p) (soLevel x)) = Inr level" "level \<noteq> 3"
    using lv by (cases opts) (auto simp: level_of_def resolveLevel_def Let_def)
  obtain t where t: "(case opts of None \<Rightarrow> Some (Num 0) | Some x \<Rightarrow> soTtl x) = Some t"
      "set_body HK e level key v (Some t) n ?p = (Inr True, q)"
    using s lev(1) by (auto simp: setKey_def set_body_def Let_def split: option.splits)
  have ct: "clampTtl t = ttl" using t(1) ttl by (auto simp: clampTtl_def TTL_MAX_def split: option.splits)
  obtain lv enc where pr: "prepare i key v = Inr (Inr (lv, enc))" "set_commit HK e level key lv enc ttl n ?p = (Inr True, q)"
    using t(2) ct prep inst_of_Some [OF c(1)] by (auto simp: set_body_def split: sum.splits prod.splits)
  let ?r = "upd_inst n (releaseMarks key) ?p"
  obtain len where len: "set_publish HK e level 0 key enc ttl n (upd_inst n (set_l1 HK e level key lv len ttl 0) ?r) = (True, q)"
    using pr(2) inst_of_Some [OF c(1)] i(4) by (auto simp: set_commit_def Let_def split: sum.splits prod.splits)
  let ?j = "set_l1 HK e level key lv len ttl 0 (releaseMarks key ?i)" and ?q = "upd_inst n (set_l1 HK e level key lv len ttl 0) ?r"
  have j: "map_of (yInsts ?q) n = Some ?j" using c(1) by auto
  have f: "iCfg ?j = iCfg i" "iLive ?j = iLive i" "\<not> unappliedHere ?j key"
    by (simp_all add: releaseMarks_def unappliedHere_def mk_has_def)
  have "l1_inv HK (iL1 (releaseMarks key ?i))"
    using inst_okD(1) [OF goodD(1) [OF proc_okD [OF p i(1)]]] by (simp add: releaseMarks_def)
  note l1 = set_l1_entry [OF this, of e level key lv len ttl 0]
  have "set_primary HK e level key enc ttl n ?q = (True, q)"
    using len lev(2) inst_of_Some [OF j] f i(4) by (simp add: set_publish_def)
  then have "holds n key lv enc (expiresAt (eTick e) (readTtlMs ttl)) (if ttl > 0 then eMono e + ttl else 0) (iCfg ?j) q \<and> yReady q = yReady ?q"
    by (rule set_primary_holds [OF j, rotated -1]) (use f i l1 in \<open>auto simp: releaseMarks_def\<close>)
  then show ?thesis using pr(1) f(1) c(2) by auto
qed


lemmas set_defs = set_body_def prepare_def check_key_def accept_value_def encode_value_def l1_value_def check_size_def
  encodedBytes_def byteLength_def utf8_def utf8_cp_def plainUnit_def

lemmas commit_defs = set_commit_def releaseMarks_def set_publish_def set_l1_def l1_at_def set_primary_def
  publishArenaSet_def n_set_def encodable_def storable_def


section \<open>Removing\<close>

lemma queued_op_inst:
  "map_of (yInsts p) n = Some i \<Longrightarrow>
   \<exists>j. map_of (yInsts (queued (queue_op e op) n p)) n = Some j \<and> iCfg j = iCfg i \<and> iL1 j = iL1 i \<and>
       iLive j = iLive i"
  by (auto simp: queued_def queue_op_def set_last_def split: option.split prod.split)

text \<open>After a \<open>delete\<close> on the primary, of a key the addon can hash, a \<open>get\<close> with nothing else in between
  answers undefined, in whatever state the delete was made.\<close>

theorem delete_then_get_on_primary:
  assumes "map_of (yInsts p) n = Some i" "gId (iCfg i) = 0" "HK key \<noteq> None" "yReady p"
  shows "fst (get_at HK e' (VStr key) NumUndef n (snd (delete HK e (VStr key) n p))) = Inr VUndef"
proof -
  let ?p = "upd_inst n (bump ''deletes'') (check_at e n p)" and ?q = "snd (delete HK e (VStr key) n p)"
  have c: "map_of (yInsts ?p) n = Some (bump ''deletes'' i)" "yReady ?p"
    using assms(1,2,4) by (auto simp: check_at_def checkPrimary_def)
  obtain had p1 where pub: "publishArenaDel HK key 0 ?p = (had, p1)" by force
  obtain j1 where p1: "map_of (aMap (yArena p1)) key = None" "map_of (yInsts p1) n = Some j1" "iCfg j1 = iCfg i" "yReady p1"
    using pub c assms(3) by (cases "vClosed (iLive i)") (auto simp: publishArenaDel_def n_del_def ringAppend_def cancelCaps_def)
  let ?p2 = "dropOthers key n (upd_inst n (l1_at (l1Drop key)) p1)"
  let ?j2 = "l1_at (l1Drop key) j1"
  let ?p3 = "if iQueue (inst_of n ?p2) \<noteq> None \<and> yReady ?p2 \<and> \<not> vDead (iLive (inst_of n ?p2))
    then upd_inst n (noteDeleted key (ringHead (yArena ?p2))) ?p2 else ?p2"
  have 2: "map_of (yInsts ?p2) n = Some ?j2" using p1(2) by (simp add: dropOthers_self)
  have q: "?q = queued (queue_op e (delete_op key)) n ?p3"
    using pub assms(2) inst_of_Some [OF c(1)] by (simp add: delete_def delete_primary_def Let_def case_prod_beta)
  have 3: "\<exists>j3. map_of (yInsts ?p3) n = Some j3 \<and> iCfg j3 = iCfg i \<and> map_of (l1Map (iL1 j3)) key = None"
    using 2 p1(3) by (simp add: l1_at_def)
  then obtain j where j: "map_of (yInsts ?q) n = Some j" "iCfg j = iCfg i" "map_of (l1Map (iL1 j)) key = None"
    using queued_op_inst [of ?p3 n] q by metis
  have a: "map_of (aMap (yArena ?q)) key = None" "yReady ?q"
    unfolding q using p1(1,4) by (simp_all add: queued_def dropOthers_def)
  have "fst (get_drained HK (env_in ?q e') (yArena ?q) 1 key j) = Inr VUndef"
    using j a(1) by (simp add: get_drained_def get_l2_def n_get_def live_entry_def)
  moreover have "drain (env_in ?q e') (yArena ?q) j = (j, False)" using j(2) assms(2) by (simp add: drain_def)
  moreover have "level_of b j NumUndef = Inr 1" for b by (simp add: level_of_def resolveLevel_def)
  ultimately show ?thesis using inst_of_Some [OF j(1)] a(2)
    by (auto simp: get_at_def get_def Let_def case_prod_beta)
qed

theorem delete_then_get_on_primary_witness:
  "fst (get_at xHK xEnv (VStr [97]) NumUndef 0 (snd (delete xHK xEnv (VStr [97]) 0 (xProc 0 False)))) = Inr VUndef"
  by (rule delete_then_get_on_primary [OF map_of_insts_xProc]) (simp_all add: x_defs)

section \<open>Writes that are refused\<close>

text \<open>A \<open>set\<close> that is rejected before it writes (a key that is not a string, empty, too long or with a
  lone surrogate; a value of a type, an encoding or a size that is not accepted; options whose time to
  live cannot be read) answers false and changes nothing but counters and the time of the last
  liveness check: the arena, the messages, every other cache object, and the tier, the marks, the
  outbox, the caps and the queue of this one are as before.\<close>

theorem rejected_set_changes_only_counters:
  assumes "map_of (yInsts p) n = Some i" "\<not> snd (checkPrimary (env_in p e) i)"
    and "opts = None \<or> soLevel (the opts) = NumUndef"
    and "case k of VStr key \<Rightarrow> (\<exists>c. prepare i key v = Inl c) \<or> (opts \<noteq> None \<and> soTtl (the opts) = None) | _ \<Rightarrow> True"
    and "setKey HK e k v opts n p = (x, q)"
  shows "x = Inr False \<and> yArena q = yArena p \<and> ySent q = ySent p \<and> yRecov q = yRecov p \<and>
    (\<forall>m. m = n \<or> map_of (yInsts q) m = map_of (yInsts p) m) \<and>
    (\<exists>j. map_of (yInsts q) n = Some j \<and> iL1 j = iL1 i \<and> iCoh j = iCoh i \<and> iLink j = iLink i \<and> iCaps j = iCaps i \<and>
         iQueue j = iQueue i \<and> vDead (iLive j) = vDead (iLive i))"
proof -
  define quiet where "quiet r \<longleftrightarrow> yArena r = yArena p \<and> ySent r = ySent p \<and> yRecov r = yRecov p \<and>
    (\<forall>m. m = n \<or> map_of (yInsts r) m = map_of (yInsts p) m) \<and>
    (\<exists>j. map_of (yInsts r) n = Some j \<and> iL1 j = iL1 i \<and> iCoh j = iCoh i \<and> iLink j = iLink i \<and> iCaps j = iCaps i \<and>
         iQueue j = iQueue i \<and> vDead (iLive j) = vDead (iLive i) \<and> iCfg j = iCfg i)" for r :: proc
  have b: "quiet (upd_inst n (bump c) r)" if "quiet r" for c r using that by (auto simp: quiet_def)
  let ?c = "fst (checkPrimary (env_in p e) i)"
  have link: "iLink ?c = iLink i" using assms(2) by (auto simp: checkPrimary_def Let_def split: if_splits)
  have dead: "vDead (iLive ?c) = vDead (iLive i)" using assms(2) by (rule checkPrimary_alive)
  have "quiet (check_at e n p)"
    using assms(1,2) link dead by (auto simp: quiet_def check_at_def case_prod_beta Let_def)
  then have 1: "quiet (upd_inst n (bump ''sets'') (check_at e n p))" (is "quiet ?p") by (rule b)
  then obtain j where j: "map_of (yInsts ?p) n = Some j" "iLink j = iLink i" "iCfg j = iCfg i" by (auto simp: quiet_def)
  have prep: "prepare (inst_of n ?p) key v = prepare i key v" for key
    using inst_of_Some [OF j(1)] j by (simp only: prepare_def)
  have lev: "(case opts of None \<Rightarrow> Inr 1 | Some y \<Rightarrow> level_of (yReady p) (inst_of n p) (soLevel y)) = Inr 1"
    using assms(3) by (cases opts) (auto simp: level_of_def resolveLevel_def)
  have body: "fst (set_body HK e 1 key v t n ?p) = Inr False \<and> quiet (snd (set_body HK e 1 key v t n ?p))"
    if "(\<exists>c. prepare i key v = Inl c) \<or> t = None" for key t
    using that 1 b [OF 1] by (cases t) (auto simp: set_body_def prep)
  have "x = Inr False \<and> quiet q"
  proof (cases k)
    case (VStr key)
    let ?t = "case opts of None \<Rightarrow> Some (Num 0) | Some y \<Rightarrow> soTtl y"
    have "(\<exists>c. prepare i key v = Inl c) \<or> ?t = None" using assms(4) VStr by (cases opts) auto
    from body [OF this] show ?thesis using assms(5) VStr lev by (auto simp: setKey_def Let_def)
  qed (use assms(5) lev b [OF 1] in \<open>auto simp: setKey_def Let_def\<close>)
  then show ?thesis by (auto simp: quiet_def)
qed

theorem rejected_set_changes_only_counters_witness:
  "fst (setKey xHK xEnv (VStr []) (VStr [1]) None 0 (xProc 1 False)) = Inr False \<and>
   yArena (snd (setKey xHK xEnv (VStr []) (VStr [1]) None 0 (xProc 1 False))) = xArena"
proof -
  have r: "prepare (new_inst (xCfg 1 False) (if False then Some (1000, 100) else None) 1000) [] (VStr [1]) = Inl ''rejectedKey''"
    by (simp add: prepare_def check_key_def)
  have q: "\<not> snd (checkPrimary (env_in (xProc 1 False) xEnv) (new_inst (xCfg 1 False) (if False then Some (1000, 100) else None) 1000))"
    by (simp add: checkPrimary_def x_defs env_in_def)
  obtain x r' where s: "setKey xHK xEnv (VStr []) (VStr [1]) None 0 (xProc 1 False) = (x, r')" by force
  have "x = Inr False \<and> yArena r' = yArena (xProc 1 False)"
    using rejected_set_changes_only_counters [OF map_of_insts_xProc q _ _ s] r by simp
  moreover have "yArena (xProc 1 False) = xArena" by (simp add: xProc_def boot_def)
  ultimately show ?thesis using s by simp
qed

text \<open>C29: in the mode without any storage option, which has neither a codec nor the check of the bytes
  mode, a \<open>set\<close> of null or undefined under an acceptable key does not answer: reading the length of the
  value throws, and by then the marks of the process's earlier write or removal of the key are gone,
  while the arena still holds what it held.\<close>

theorem null_set_throws_after_releasing_marks:
  assumes "map_of (yInsts p) n = Some i" "\<not> snd (checkPrimary (env_in p e) i)"
    and "gCodec (iCfg i) = None" "\<not> cNoCodec (gL1 (iCfg i))" "v = VNull \<or> v = VUndef"
    and "check_key (gKeyMax (iCfg i)) key = None" "check_size (iLink i) key v = None"
    and "setKey HK e (VStr key) v None n p = (x, q)"
  shows "x = Inl NullLength \<and> yArena q = yArena p \<and> \<not> unappliedHere (inst_of n q) key"
proof -
  let ?p = "upd_inst n (bump ''sets'') (check_at e n p)" and ?c = "fst (checkPrimary (env_in p e) i)"
  have link: "iLink ?c = iLink i" using assms(2) by (auto simp: checkPrimary_def Let_def split: if_splits)
  have c: "map_of (yInsts ?p) n = Some (bump ''sets'' ?c)"
    using assms(1,2) by (simp add: check_at_def case_prod_beta Let_def)
  have "prepare (bump ''sets'' ?c) key v = prepare i key v" using link by (simp only: prepare_def bump_frame checkPrimary_frame)
  then have pr: "prepare (inst_of n ?p) key v = Inr (Inr (v, v))"
    using assms(3-7) inst_of_Some [OF c] by (simp add: prepare_def accept_value_def encode_value_def l1_value_def)
  have "setKey HK e (VStr key) v None n p = set_commit HK e 1 key v v 0 n ?p"
    by (simp add: setKey_def Let_def set_body_def pr clampTtl_def TTL_MAX_def)
  also have "\<dots> = (Inl NullLength, upd_inst n (releaseMarks key) ?p)"
    using assms(4,5) inst_of_Some [OF c] by (auto simp: set_commit_def Let_def length_read_def)
  finally have q: "x = Inl NullLength" "q = upd_inst n (releaseMarks key) ?p" using assms(8) by simp_all
  have "map_of (yInsts q) n = Some (releaseMarks key (bump ''sets'' ?c))" using c q(2) by auto
  then show ?thesis
    using q inst_of_Some [of q n] by (simp add: unappliedHere_def releaseMarks_def mk_has_def)
qed

text \<open>A worker with a removal pending, in the default mode.\<close>

definition xPlain :: proc where
  "xPlain = upd_inst 0 (\<lambda>i. i\<lparr>iCfg := (iCfg i)\<lparr>gL1 := (gL1 (iCfg i))\<lparr>cNoCodec := False\<rparr>\<rparr>\<rparr>) xDel"

theorem null_set_throws_after_releasing_marks_witness:
  "fst (setKey xHK xEnv (VStr [97]) VNull None 0 xPlain) = Inl NullLength \<and> unappliedHere (inst_of 0 xPlain) [97] \<and>
   \<not> unappliedHere (inst_of 0 (snd (setKey xHK xEnv (VStr [97]) VNull None 0 xPlain))) [97]"
proof -
  obtain x q where s: "setKey xHK xEnv (VStr [97]) VNull None 0 xPlain = (x, q)" by force
  let ?i = "(inst_of 0 xDel)\<lparr>iCfg := (xCfg 1 False)\<lparr>gL1 := (gL1 (xCfg 1 False))\<lparr>cNoCodec := False\<rparr>\<rparr>\<rparr>"
  have i: "map_of (yInsts xPlain) 0 = Some ?i" by (simp add: xPlain_def xDel_state)
  have n: "\<not> snd (checkPrimary (env_in xPlain xEnv) ?i)" by (simp add: checkPrimary_def x_defs env_in_def Let_def)
  have z: "check_size (iLink ?i) [97] VNull = None" by (simp add: check_size_def encodedBytes_def xDel_state)
  have "x = Inl NullLength \<and> yArena q = yArena xPlain \<and> \<not> unappliedHere (inst_of 0 q) [97]"
    by (rule null_set_throws_after_releasing_marks [OF i n _ _ _ _ z s]) (simp_all add: xCfg_def check_key_def plainUnit_def byteLength_def utf8_def utf8_cp_def)
  moreover have "unappliedHere (inst_of 0 xPlain) [97]"
    using inst_of_Some [OF i] by (simp add: unappliedHere_def mk_has_def xDel_state)
  ultimately show ?thesis using s by simp
qed

section \<open>A removal forgotten\<close>

text \<open>The worker of the examples, with an unread flush record before the one of the key.\<close>

definition xFlushed :: proc where
  "xFlushed = (xProc 1 False)\<lparr>yArena := xArena\<lparr>aRing := [\<lparr>rrHash = FLUSH_ALL, rrWriter = 0\<rparr>, \<lparr>rrHash = 5, rrWriter = 0\<rparr>]\<rparr>\<rparr>"


end
