(* ===== verification/Siblings.thy ===== *)
theory Siblings
  imports Trips Primary Upkeep
begin

text \<open>
  Several cache objects in one process, and the end of one of them: what \<^verbatim>\<open>close\<close> of
  \<^verbatim>\<open>src/src/turbokv.js\<close> (lines 3775 to 3857) takes away from the others. The submission ring
  is given back with the last object that uses it; the arena of a primary goes with the first.
\<close>

section \<open>What a close changes\<close>

lemma close_sibling:
  "m \<noteq> n \<Longrightarrow> map_of (yInsts (close w n p)) m = map_of (yInsts p) m"
  by (simp add: close_def closeLocal_def Let_def)

lemma close_frame:
  "yArena (close w n p) = yArena p" "ySent (close w n p) = ySent p" "yMarkSeq (close w n p) = yMarkSeq p"
  by (simp_all add: close_def closeLocal_def Let_def set_recov_def upd_inst_def)

lemma close_ready:
  assumes "map_of (yInsts p) n = Some i" "\<not> vClosed (iLive i)"
  shows "yReady (close w n p) \<longleftrightarrow> yReady p \<and> gId (iCfg i) \<noteq> 0"
  using assms by (simp add: close_def closeLocal_def Let_def inst_of_Some)

section \<open>A primary without its arena\<close>

lemma unready_set:
  assumes "map_of (yInsts q) m = Some j" "gId (iCfg j) = 0" "\<not> yReady q"
  shows "fst (setKey HK e (VStr key) v None m q) \<noteq> Inr True"
proof -
  let ?q = "upd_inst m (bump ''sets'') (check_at e m q)"
  have q: "map_of (yInsts ?q) m = Some (bump ''sets'' j)" "\<not> yReady ?q"
    using assms by (simp_all add: check_at_def checkPrimary_def)
  have p: "fst (set_publish HK e 1 at' key enc ttl m r) = False"
    if "map_of (yInsts r) m = Some i" "gId (iCfg i) = 0" "\<not> yReady r" for at' enc ttl r i
    using that by (simp add: set_publish_def set_primary_def publishArenaSet_def inst_of_Some split: option.split)
  have c: "fst (set_commit HK e 1 key lv enc ttl m r) \<noteq> Inr True"
    if "map_of (yInsts r) m = Some i" "gId (iCfg i) = 0" "\<not> yReady r" for lv enc ttl r i
  proof -
    have "\<not> fst (set_publish HK e 1 at' key enc ttl m
      (upd_inst m (set_l1 HK e 1 key lv len ttl at') (upd_inst m (releaseMarks key) r)))" for at' len
      using that p [where i = "set_l1 HK e 1 key lv len ttl at' (releaseMarks key i)"] by (simp add: releaseMarks_def)
    then show ?thesis by (auto simp: set_commit_def Let_def case_prod_beta split: sum.split)
  qed
  show ?thesis
    using c [OF q(1) _ q(2)] assms(2) by (auto simp: setKey_def set_body_def Let_def split: sum.split option.split)
qed

lemma unready_get:
  assumes "map_of (yInsts q) m = Some j" "gId (iCfg j) = 0" "\<not> yReady q" "map_of (l1Map (iL1 j)) key = None"
  shows "fst (get_at HK e (VStr key) NumUndef m q) = Inr VUndef"
proof -
  have d: "drain x y j = (j, False)" for x y using assms(2) by (simp add: drain_def)
  have l: "level_of b j NumUndef = Inr 1" for b by (simp add: level_of_def resolveLevel_def)
  have "fst (get_drained HK (env_in q e) (mapped q) 1 key j) = Inr VUndef"
    using assms(3,4) by (simp add: get_drained_def get_l2_def n_get_def live_entry_def mapped_def no_store_def)
  then show ?thesis
    using inst_of_Some [OF assms(1)] d l by (simp add: get_at_def get_def Let_def case_prod_beta)
qed

lemma unready_op: "\<not> yReady p \<Longrightarrow> yArena (apply_op HK e msg op p) = yArena p \<and> \<not> yReady (apply_op HK e msg op p)"
  by (auto simp: apply_op_def publishArenaSet_def publishArenaDel_def publishArenaClear_def l3ClearOpenFor_def
      l3ClearSettleFor_def clearBegin_def clearSettle_def localDrop_def cancelCaps_def cancelAllCaps_def Let_def
      split: obOp.split option.split)

lemma unready_batch: "\<not> yReady p \<Longrightarrow> \<not> ySubmit p \<Longrightarrow> yArena (applyBatch HK e msg p) = yArena p"
proof -
  have "\<not> yReady q \<Longrightarrow> yArena (fold (apply_op HK e msg) ops q) = yArena q" for ops q
    by (induction ops arbitrary: q) (simp_all add: unready_op)
  then show "\<not> yReady p \<Longrightarrow> \<not> ySubmit p \<Longrightarrow> yArena (applyBatch HK e msg p) = yArena p"
    by (simp add: applyBatch_def)
qed

section \<open>The properties\<close>

text \<open>C28: closing one cache object of a primary leaves every other object of the process open and as it
  was, but without an arena: from then on no \<open>set\<close> of theirs under a string, with the default options,
  answers true, a \<open>get\<close> of a key that is not in their own tier answers undefined, whatever the
  arena held, and a batch of a worker that arrives writes nothing.\<close>

theorem first_close_takes_the_arena:
  assumes "map_of (yInsts p) n = Some i" "\<not> vClosed (iLive i)" "gId (iCfg i) = 0"
    and "map_of (yInsts p) m = Some j" "m \<noteq> n" "gId (iCfg j) = 0" "yReady p"
  shows "map_of (yInsts (close w n p)) m = Some j \<and>
    fst (setKey HK e (VStr key) v None m (close w n p)) \<noteq> Inr True \<and>
    (map_of (l1Map (iL1 j)) key = None \<longrightarrow> fst (get_at HK e (VStr key) NumUndef m (close w n p)) = Inr VUndef) \<and>
    yArena (applyBatch HK e msg (close w n p)) = yArena p"
proof -
  have q: "map_of (yInsts (close w n p)) m = Some j" "\<not> yReady (close w n p)"
    using close_sibling [OF assms(5), of w p] assms(3,4) close_ready [OF assms(1,2), of w] by simp_all
  have "\<not> ySubmit (close w n p)"
    using assms(1-3,7) by (simp add: close_def closeLocal_def Let_def inst_of_Some)
  then have "yArena (applyBatch HK e msg (close w n p)) = yArena p"
    using unready_batch [OF q(2)] close_frame(1) by simp
  then show ?thesis using q unready_set [OF q(1) assms(6) q(2)] unready_get [OF q(1) assms(6) q(2)] by blast
qed

text \<open>A primary that opened the cache from two modules.\<close>

definition xTwo :: proc where
  "xTwo = (boot xArena True False [] False)\<lparr>yInsts :=
     [(0, new_inst (xCfg 0 False) None 1000), (1, new_inst (xCfg 0 False) None 1000)]\<rparr>"

theorem first_close_takes_the_arena_witness:
  "map_of (aMap (yArena xTwo)) [97] = Some \<lparr>aeVal = VStr [120], aeExp = 0\<rparr> \<and>
   fst (setKey xHK xEnv (VStr [98]) (VStr [121]) None 1 (close 0 0 xTwo)) \<noteq> Inr True \<and>
   fst (get_at xHK xEnv (VStr [97]) NumUndef 1 (close 0 0 xTwo)) = Inr VUndef"
proof -
  have two: "map_of (yInsts xTwo) 0 = Some (new_inst (xCfg 0 False) None 1000)"
    "map_of (yInsts xTwo) 1 = Some (new_inst (xCfg 0 False) None 1000)" "yReady xTwo" "yArena xTwo = xArena"
    by (simp_all add: xTwo_def boot_def)
  have "fst (setKey xHK xEnv (VStr [98]) (VStr [121]) None 1 (close 0 0 xTwo)) \<noteq> Inr True"
    "map_of (l1Map (iL1 (new_inst (xCfg 0 False) None 1000))) [97] = None \<longrightarrow>
       fst (get_at xHK xEnv (VStr [97]) NumUndef 1 (close 0 0 xTwo)) = Inr VUndef"
    using first_close_takes_the_arena [OF two(1) _ _ two(2) _ _ two(3), where w = 0 and HK = xHK and e = xEnv and v = "VStr [121]"]
    by (simp_all add: x_defs)
  then show ?thesis using two(4) by (simp add: new_inst_def l1_empty_def xArena_def)
qed

end
