(* ===== verification/ReadOnly.thy ===== *)
theory ReadOnly
  imports CohRun
begin

text \<open>
  The single writer. A worker maps the arena read-only, and nothing but the code keeps it from
  writing: every operation tells the primary by the id of the cache object, so a process whose
  objects all have another id never takes a branch that writes. \<open>aside\<close> relates a process before
  and after an operation of its object \<open>n\<close>: the entries, the invalidation ring and the clear
  generations are as they were; only the submission rings may have grown.
\<close>

definition contents :: "arena \<Rightarrow> (jsstr, aEntry) jsmap \<times> ringRec list \<times> nat \<times> nat \<times> nat" where
  "contents a = (aMap a, aRing a, aRingCap a, aGen a, aSettled a)"

definition worker_at :: "nat \<Rightarrow> proc \<Rightarrow> bool" where
  "worker_at n p \<longleftrightarrow>
     \<not> yPrimary p \<and> \<not> ySubmit p \<and> map_of (yInsts p) n \<noteq> None \<and>
     (\<forall>m i. map_of (yInsts p) m = Some i \<longrightarrow> gId (iCfg i) \<noteq> 0)"

definition aside :: "nat \<Rightarrow> proc \<Rightarrow> proc \<Rightarrow> bool" where
  "aside n p q \<longleftrightarrow> (worker_at n p \<longrightarrow> worker_at n q \<and> contents (yArena q) = contents (yArena p))"

named_theorems aside_intros

lemma aside_refl [simp]: "aside n p p"
  by (simp add: aside_def)

lemma aside_trans: "aside n p q \<Longrightarrow> aside n q r \<Longrightarrow> aside n p r"
  by (simp add: aside_def)

text \<open>Where the code asks for the id, a worker is not the primary.\<close>

lemma worker_id: "worker_at n p \<Longrightarrow> gId (iCfg (inst_of n p)) \<noteq> 0"
  by (auto simp: worker_at_def inst_of_def)

lemma aside_id: "(gId (iCfg (inst_of n p)) \<noteq> 0 \<Longrightarrow> aside n p q) \<Longrightarrow> aside n p q"
  using worker_id by (auto simp: aside_def)

lemma worker_at_frame [simp]:
  "worker_at n (p\<lparr>yReady := b\<rparr>) = worker_at n p" "worker_at n (p\<lparr>yMarkSeq := m\<rparr>) = worker_at n p"
  "worker_at n (p\<lparr>yClears := c\<rparr>) = worker_at n p" "worker_at n (p\<lparr>yOwed := ow\<rparr>) = worker_at n p"
  "worker_at n (p\<lparr>yCursor := k\<rparr>) = worker_at n p" "worker_at n (p\<lparr>ySent := s\<rparr>) = worker_at n p"
  "worker_at n (p\<lparr>yArena := a\<rparr>) = worker_at n p" "worker_at n (set_recov f p) = worker_at n p"
  by (simp_all add: worker_at_def set_recov_def)

lemma aside_frame [simp]:
  "aside n p (q\<lparr>yReady := b\<rparr>) = aside n p q" "aside n p (q\<lparr>yMarkSeq := m\<rparr>) = aside n p q"
  "aside n p (q\<lparr>yClears := c\<rparr>) = aside n p q" "aside n p (q\<lparr>yOwed := ow\<rparr>) = aside n p q"
  "aside n p (q\<lparr>yCursor := k\<rparr>) = aside n p q" "aside n p (q\<lparr>ySent := s\<rparr>) = aside n p q"
  "aside n p (set_recov f q) = aside n p q"
  by (simp_all add: aside_def)

lemma aside_from [simp]: "aside n (p\<lparr>yClears := c\<rparr>) q = aside n p q"
  by (simp add: aside_def)

lemma aside_map:
  assumes "aside n p q" "\<And>i. iCfg (f i) = iCfg i"
  shows "aside n p (upd_inst m f q)" "aside n p (all_open f q)" "aside n p (other_open m f q)"
proof -
  have "worker_at n (upd_inst m f q) = worker_at n q" "worker_at n (all_open f q) = worker_at n q"
    "worker_at n (other_open m f q) = worker_at n q"
    by (auto simp: worker_at_def assms(2) split: if_splits option.splits)
      (metis assms(2) neq0_conv option.map(2))+
  then show "aside n p (upd_inst m f q)" "aside n p (all_open f q)" "aside n p (other_open m f q)"
    using assms(1) by (simp_all add: aside_def)
qed

text \<open>The same where the new object depends on the one that is there.\<close>

lemma aside_put:
  assumes "aside n p q" "\<And>i. map_of (yInsts q) m = Some i \<Longrightarrow> iCfg j = iCfg i"
  shows "aside n p (upd_inst m (\<lambda>_. j) q)"
  using assms by (auto simp: aside_def worker_at_def)

section \<open>The configuration of an object never changes\<close>

lemma tame_cfg: "tame HK a b i j \<Longrightarrow> iCfg j = iCfg i"
  by (simp add: tame_def)

lemma cfg_kept [simp]:
  "iCfg (runCaps HK e c i) = iCfg i" "iCfg (releaseMarks k i) = iCfg i" "iCfg (shut i) = iCfg i"
  "iCfg (fst (flush e s i)) = iCfg i" "iCfg (send_done failed i) = iCfg i" "iCfg (noteCap e c key enc cap i) = iCfg i"
  "iCfg (snd (queue_op e op i)) = iCfg i" "iCfg (snd (queueSet e key enc ttl level i)) = iCfg i"
  "iCfg (on_queue f i) = iCfg i" "iCfg (fst (checkPrimary e i)) = iCfg i" "iCfg (countCapLost w i) = iCfg i"
  by (rule tame_cfg [OF runCaps_tame] tame_cfg [OF marks_tame(1)] tame_cfg [OF shut_tame]
      tame_cfg [OF flush_tame(1)] tame_cfg [OF flush_tame(2)] tame_cfg [OF noteCap_tame] tame_cfg [OF queue_tame(1)]
      tame_cfg [OF queue_tame(2)] tame_cfg [OF queue_tame(3)] tame_cfg [OF checkPrimary_tame] tame_cfg [OF caps_tame(4)],
      rule tame_refl [of "\<lambda>_. None" "undefined"])+

lemma cfg_kept_direct [simp]:
  "iCfg (l1_at f i) = iCfg i" "iCfg (set_l1 HK e level key lv len ttl pos i) = iCfg i" "iCfg (set_last x i) = iCfg i"
  "iCfg (push_op op i) = iCfg i" "iCfg (ringDoorbell i) = iCfg i" "iCfg (useSubmissionRing r i) = iCfg i"
  "iCfg (dropCachedValues i) = iCfg i" "iCfg (dropByHash h i) = iCfg i"
  by (auto simp: l1_at_def set_l1_def set_last_def push_op_def ringDoorbell_def useSubmissionRing_def
      dropCachedValues_def dropByHash_def split: option.split)

section \<open>Publishing\<close>

lemma others_aside [aside_intros]:
  "aside n p q \<Longrightarrow> aside n p (cancelCaps key q)" "aside n p q \<Longrightarrow> aside n p (cancelAllCaps q)"
  "aside n p q \<Longrightarrow> aside n p (dropOthers key m q)" "aside n p q \<Longrightarrow> aside n p (clearOthers m q)"
  "aside n p q \<Longrightarrow> aside n p (localDrop key q)"
  by (auto simp: cancelCaps_def cancelAllCaps_def dropOthers_def clearOthers_def localDrop_def intro!: aside_map)

lemma queued_aside [aside_intros]:
  assumes "aside n p q" "\<And>i. iCfg (snd (f i)) = iCfg i"
  shows "aside n p (queued f m q)"
  unfolding queued_def by (rule aside_map(1) [OF assms(1)]) (simp add: case_prod_beta Let_def assms(2))

lemma submit_contents: "submit e ring op a = (b, a') \<Longrightarrow> contents a' = contents a"
  by (auto simp: submit_def submitPush_def Let_def contents_def split: option.splits if_splits)

lemma publishRing_aside [aside_intros]:
  assumes "aside n p q"
  shows "aside n p (snd (publishRing HK e m ring key op q))"
    "aside n p (snd (publishRingSet HK e m ring key enc ttl q))" "aside n p (snd (publishRingDel HK e m ring key q))"
proof -
  show r: "aside n p (snd (publishRing HK e m ring key op q))" for op
  proof -
    obtain b a where s: "submit e ring op (yArena q) = (b, a)" by force
    have "aside n p (q\<lparr>yArena := a\<rparr>)" using assms submit_contents [OF s] by (simp add: aside_def)
    then show ?thesis
      using s assms by (auto simp: publishRing_def Let_def intro!: aside_map others_aside)
  qed
  show "aside n p (snd (publishRingSet HK e m ring key enc ttl q))" "aside n p (snd (publishRingDel HK e m ring key q))"
    by (simp_all add: publishRingSet_def publishRingDel_def r assms)
qed

lemma flush_at_aside [aside_intros]: "aside n p q \<Longrightarrow> aside n p (flush_at e m q)"
  by (auto simp: flush_at_def case_prod_beta Let_def intro!: aside_put split: option.split)

lemma schedule_aside [aside_intros]: "aside n p q \<Longrightarrow> aside n p (schedule e m b q)"
  by (auto simp: schedule_def Let_def intro!: flush_at_aside aside_map split: option.split)

lemma outbox_aside [aside_intros]:
  "aside n p q \<Longrightarrow> aside n p (publishOutbox e m key op b q)"
  "aside n p q \<Longrightarrow> aside n p (publishOutboxOp e m op supersedes q)"
  "aside n p q \<Longrightarrow> aside n p (retimeOutbox e m key enc cap q)"
  unfolding publishOutbox_def publishOutboxOp_def retimeOutbox_def Let_def
  by (auto intro!: schedule_aside others_aside aside_map)

lemma degrade_aside [aside_intros]: "aside n p q \<Longrightarrow> aside n p (degrade q)"
  by (auto simp: degrade_def Let_def intro!: aside_map)

lemma check_at_aside [aside_intros]: "aside n p q \<Longrightarrow> aside n p (check_at e m q)"
  by (auto simp: check_at_def case_prod_beta Let_def intro!: degrade_aside aside_put split: option.split)

lemma mark_aside [aside_intros]:
  assumes "aside n p q"
  shows "aside n p (markWrite key h pos sub m q)" "aside n p (markDelete key h pos sub m q)"
  using assms by (auto simp: markWrite_def markDelete_def case_prod_beta Let_def intro!: aside_map)

section \<open>Writes\<close>

lemma capL2_aside [aside_intros]: "aside n p (snd (capL2AfterL3Failure HK e n key enc cap p))"
  by (rule aside_id) (auto simp: capL2AfterL3Failure_def Let_def intro!: aside_intros aside_map)

lemma capAfterL3Failure_aside [aside_intros]: "aside n p (capAfterL3Failure HK e n key enc ttl p)"
proof -
  have t: "aside n p (snd (case map_of (l1Map (iL1 (inst_of n p))) key of
               None \<Rightarrow> (False, p)
             | Some en \<Rightarrow> if eExp en = 0 \<or> eExp en > d
                 then (True, upd_inst n (l1_at (l1_set key (en\<lparr>eExp := d\<rparr>))) p) else (False, p)))" for d
    by (auto intro!: aside_map split: option.split)
  have c: "aside n p (snd (capL2AfterL3Failure HK e n key enc cap (snd x)))" if "aside n p (snd x)" for x :: "bool \<times> proc" and cap
    using that capL2_aside by (rule aside_trans)
  show ?thesis
    unfolding capAfterL3Failure_def Let_def case_prod_beta
    by (simp only: if_split fst_conv snd_conv) (auto intro!: aside_map(1) c t)
qed

lemma queueSet_settled_aside [aside_intros]: "aside n p (queueSet_settled HK e n key enc ttl level okay p)"
  by (simp add: queueSet_settled_def capAfterL3Failure_aside)

lemma set_publish_aside [aside_intros]: "aside n p (snd (set_publish HK e level pos key enc ttl n p))"
proof (rule aside_id)
  assume id0: "gId (iCfg (inst_of n p)) \<noteq> 0"
  have 1: "aside n p (set_evict HK e pos key n p)"
    using id0 publishRing_aside(3) [OF aside_refl [of n p], of HK e n _ key]
    by (auto simp: set_evict_def Let_def case_prod_beta intro!: aside_intros aside_map)
  have 2: "aside n p (set_worker HK e level pos key enc ttl n p)"
    using publishRing_aside(2) [OF aside_refl [of n p], of HK e n _ key enc ttl]
    by (auto simp: set_worker_def Let_def case_prod_beta intro!: aside_intros aside_map)
  show "aside n p (snd (set_publish HK e level pos key enc ttl n p))"
    using 1 2 id0 by (auto simp: set_publish_def intro!: aside_intros)
qed

lemma set_commit_aside: "aside n p (snd (set_commit HK e level key lv enc ttl n p))"
proof -
  have "aside n p (snd (set_publish HK e level pos key enc ttl n
            (upd_inst n (set_l1 HK e level key lv len ttl pos') (upd_inst n (releaseMarks key) p))))" for pos pos' len
    by (rule aside_trans [OF _ set_publish_aside]) (simp add: aside_map)
  then show ?thesis
    by (auto simp: set_commit_def Let_def case_prod_beta intro!: aside_map split: sum.split)
qed

lemma setKey_aside [aside_intros]: "aside n p (snd (setKey HK e k v opts n p))"
proof -
  have b: "aside n q (snd (set_body HK e level key v t n q))" for level key t q
    using set_commit_aside by (auto simp: set_body_def intro!: aside_map split: option.split sum.split prod.split)
  have i: "aside n p (upd_inst n (bump ''sets'') (check_at e n p))" by (intro aside_map aside_intros) simp_all
  show ?thesis
    using i aside_trans [OF i b]
    by (auto simp: setKey_def Let_def intro!: aside_map split: sum.split jsval.split option.split)
qed

lemma take_last_aside: "aside n p q \<Longrightarrow> aside n p (snd (take_last m q))"
  by (simp add: take_last_def aside_map)

lemma setAsync_aside [aside_intros]: "aside n p (snd (setAsync HK e k v opts n p))"
  using setKey_aside [of n p HK e k v opts] take_last_aside [of n p "snd (setKey HK e k v opts n p)" n]
  by (auto simp: setAsync_def case_prod_beta Let_def split: sum.split bool.split)

lemma delete_aside [aside_intros]: "aside n p (snd (delete HK e k n p))"
proof -
  have w: "aside n q (snd (delete_worker HK e key n q))" for key q
  proof -
    let ?q3 = "queued (queue_op e (delete_op key)) n
             (if vDead (iLive (inst_of n q)) then upd_inst n (l1_at (l1Drop key)) q
              else markDelete key (hash_of HK key) (ringHeadNow (yReady q) (yArena q) (inst_of n q)) (- 1) n
                     (upd_inst n (l1_at (l1Drop key)) q))"
    have 3: "aside n q ?q3" by (auto intro!: aside_intros aside_map)
    then have "aside n q (snd (publishRingDel HK e n r key ?q3))" for r by (rule publishRing_aside)
    then show ?thesis
      using outbox_aside(1) [OF 3] by (auto simp: delete_worker_def Let_def case_prod_beta intro!: aside_map)
  qed
  let ?q = "upd_inst n (bump ''deletes'') (check_at e n p)"
  have i: "aside n p ?q" by (intro aside_map aside_intros) simp_all
  have "aside n p (snd (let (had, p3) = delete_primary HK e key n ?q in (Some had, p3)))"
    if "gId (iCfg (inst_of n ?q)) = 0" for key
    using i that worker_id [of n ?q] by (auto simp: aside_def)
  then show ?thesis
    using aside_trans [OF i w] by (auto simp: delete_def Let_def intro!: check_at_aside split: jsval.split)
qed

lemma deleteAsync_aside [aside_intros]: "aside n p (snd (deleteAsync HK e k n p))"
  using delete_aside by (simp add: deleteAsync_def case_prod_beta Let_def take_last_aside)

lemma clearGen_aside [aside_intros]:
  "aside n p (openClearGen e n p)" "aside n p (snd (settleClearGen e again n p))" "aside n p (snd (queueClear_settled e n p))"
proof -
  show "aside n p (openClearGen e n p)" by (rule aside_id) (simp add: openClearGen_def outbox_aside)
  show s: "aside n p (snd (settleClearGen e again n p))" for p again
    by (rule aside_id) (auto simp: settleClearGen_def Let_def intro!: aside_intros)
  show "aside n p (snd (queueClear_settled e n p))"
    using s [of "p\<lparr>yClears := yClears p - 1\<rparr>" False] by (simp add: queueClear_settled_def)
qed

lemma clearAll_aside [aside_intros]: "aside n p (clearAll e n p)" "aside n p (snd (clearAsync e n p))"
proof -
  let ?p1 = "upd_inst n clearLocal p"
  let ?p2 = "if iQueue (inst_of n ?p1) \<noteq> None
             then queued (queue_op e clear_op) n (openClearGen e n (?p1\<lparr>yClears := yClears ?p1 + 1\<rparr>)) else ?p1"
  have 1: "aside n p ?p1" by (simp add: aside_map)
  have 2: "aside n p ?p2"
    using aside_trans [OF 1, of "openClearGen e n (?p1\<lparr>yClears := yClears ?p1 + 1\<rparr>)"]
      clearGen_aside(1) [of n "?p1\<lparr>yClears := yClears ?p1 + 1\<rparr>" e] 1
    by (auto intro!: queued_aside)
  have "aside n ?p2 (if gId (iCfg (inst_of n ?p2)) = 0 then clearOthers n (publishArenaClear 0 ?p2)
         else publishOutboxOp e n OClear True ?p2)"
    by (rule aside_id) (simp add: outbox_aside)
  then show k: "aside n p (clearAll e n p)"
    unfolding clearAll_def Let_def by (rule aside_trans [OF 2])
  show "aside n p (snd (clearAsync e n p))" using k by (simp add: clearAsync_def case_prod_beta Let_def take_last_aside)
qed

section \<open>Reads\<close>

lemma get_at_aside [aside_intros]:
  "aside n p (snd (get_at HK e k lv n p))" "aside n p (snd (has_at HK e k n p))"
  by (auto simp: get_at_def has_at_def case_prod_beta Let_def inst_of_Some get_live has_live
      intro!: degrade_aside aside_put)

lemma getAsync_aside [aside_intros]: "aside n p (snd (getAsync HK e k lv n p))"
  using get_at_aside(1) [of n p HK e k lv]
  by (auto simp: getAsync_def start_fetch_def Let_def case_prod_beta intro!: aside_map
      split: sum.split jsval.split option.split)

lemma hasAsync_aside [aside_intros]: "aside n p (snd (hasAsync HK e k n p))"
  using get_at_aside(2) [of n p HK e k]
  by (auto simp: hasAsync_def Let_def case_prod_beta split: sum.split bool.split jsval.split)

lemma promotionBlock_aside: "aside n p (snd (promotionBlock HK e n key mark cm p))"
  by (rule aside_id) (auto simp: promotionBlock_def Let_def split: option.split)

lemma fillFromL3_aside: "aside n p (snd (fillFromL3 HK e n key ttl level enc v p))"
  by (rule aside_id)
    (auto simp: fillFromL3_def Let_def publishL3Derived_def intro!: aside_map split: sum.split)

lemma fetched_aside: "aside n p (snd (fetched HK e n level key mark cm reply p))"
proof -
  let ?q = "snd (promotionBlock HK e n key mark cm (upd_inst n (bump ''l3Hits'') p))"
  have b: "aside n p ?q" by (rule aside_trans [OF _ promotionBlock_aside]) (simp add: aside_map)
  have "aside n p (snd (fillFromL3 HK e n key ttl level enc v ?q))" for ttl enc v
    using b fillFromL3_aside by (rule aside_trans)
  then show ?thesis
    using b by (auto simp: fetched_def case_prod_beta Let_def intro!: aside_map
        split: l3Reply.split option.split sum.split)
qed

lemma getAsync_done_aside [aside_intros]:
  "getAsync_done HK e n level key reply p = Some (v, q) \<Longrightarrow> aside n p q"
  by (auto simp: getAsync_done_def case_prod_beta Let_def intro!: aside_map fetched_aside split: option.splits)

section \<open>The timers of an object, its end\<close>

lemma timers_aside [aside_intros]:
  "aside n p (upd_inst n (send_done failed) p)" "aside n p (upd_inst n (runCaps HK e' a) p)"
  "aside n p (upd_inst n (\<lambda>i. i\<lparr>iLink := (iLink i)\<lparr>kDoorbell := False\<rparr>\<rparr>) p)"
  "aside n p (upd_inst n (\<lambda>i. l1_at (f i) i) p)" "aside n p (upd_inst n (useSubmissionRing r) p)"
  "aside n p (upd_inst n (\<lambda>i. i\<lparr>iQueue := q'\<rparr>) p)"
  by (auto intro!: aside_map)

lemma close_aside [aside_intros]:
  "aside n p (close w n p)" "aside n p (close_drained n p)" "aside n p (close_done n p)"
proof -
  have "aside n p (snd (snd (closeLocal n p)))"
    by (auto simp: closeLocal_def Let_def aside_map) (auto simp: aside_def worker_at_def)
  then show "aside n p (close w n p)" by (auto simp: close_def intro!: aside_map)
  show "aside n p (close_drained n p)" "aside n p (close_done n p)"
    by (simp_all add: close_drained_def close_done_def aside_map)
qed

end
