(* ===== verification/Refine.thy ===== *)
theory Refine
  imports Examples
begin

text \<open>
  What the primary makes of the writes of the workers, as operations on a map from keys to entries.
  The submission rings are read as one sequence, slot by slot and each in the order of submission;
  a batch of the channel is applied after everything that the rings held. The detailed definitions,
  with their budgets, rounds, cursors and invalidations, compute exactly this.
\<close>

type_synonym amap = "jsstr \<Rightarrow> aEntry option"

definition view :: "arena \<Rightarrow> amap" where
  "view a = map_of (aMap a)"

section \<open>The abstract operations\<close>

definition abs_sub :: "(jsstr \<Rightarrow> bool) \<Rightarrow> nat \<Rightarrow> subOp \<Rightarrow> amap \<Rightarrow> amap" where
  "abs_sub fits now op m =
     (case op of
        SubSet key enc ttl \<Rightarrow>
          if encodable enc \<and> fits key then m(key \<mapsto> \<lparr>aeVal = storedForm enc, aeExp = expiresAt now ttl\<rparr>)
          else m(key := None)
      | SubDel key \<Rightarrow> m(key := None))"

definition abs_put :: "(jsstr \<Rightarrow> hash option) \<Rightarrow> (jsstr \<Rightarrow> bool) \<Rightarrow> nat \<Rightarrow> jsstr \<Rightarrow> jsval \<Rightarrow> ms \<Rightarrow> amap \<Rightarrow> amap" where
  "abs_put HK fits now key enc ttl m =
     (if HK key = None \<or> \<not> encodable enc \<or> \<not> fits key then m
      else m(key \<mapsto> \<lparr>aeVal = storedForm enc, aeExp = expiresAt now (readTtlMs ttl)\<rparr>))"

text \<open>A re-timing acts on a live entry that holds the value and would live longer than the cap.\<close>

definition retimed :: "nat \<Rightarrow> jsval \<Rightarrow> ms \<Rightarrow> aEntry option \<Rightarrow> bool" where
  "retimed now enc cap x =
     (case x of
        None \<Rightarrow> False
      | Some e \<Rightarrow> \<not> tcExpired (aeExp e) now \<and> sameStored (aeVal e) enc \<and>
                  (aeExp e = 0 \<or> of_nat (max 1 (aeExp e - now)) > cap))"

definition abs_op :: "(jsstr \<Rightarrow> hash option) \<Rightarrow> (jsstr \<Rightarrow> bool) \<Rightarrow> nat \<Rightarrow> obOp \<Rightarrow> amap \<Rightarrow> amap" where
  "abs_op HK fits now op m =
     (case op of
        OSet key enc ttl \<Rightarrow> abs_put HK fits now key enc ttl m
      | ODel key \<Rightarrow> if HK key = None then m else m(key := None)
      | ORetime key enc cap \<Rightarrow> if retimed now enc cap (m key) then abs_put HK fits now key enc cap m else m
      | OClear \<Rightarrow> Map.empty
      | OOpen \<Rightarrow> m
      | OSettle \<Rightarrow> m)"

text \<open>What the rings hold, as one sequence.\<close>

definition slot_ops :: "arena \<Rightarrow> nat \<Rightarrow> subOp list" where
  "slot_ops a slot = List.map fst (sbRecs (sub_of slot a))"

definition ring_ops :: "arena \<Rightarrow> subOp list" where
  "ring_ops a = concat (List.map (slot_ops a) (sort (jskeys (aSubs a))))"

section \<open>Draining the rings\<close>

lemma fun_upd_map_of: "map_of (AList.delete k m) = (map_of m)(k := None)" "map_of (AList.update k v m) = (map_of m)(k \<mapsto> v)"
  by auto

lemma n_set_view:
  "view (snd (n_set h room now key enc w ttl a)) =
     (if encodable enc \<and> room then (view a)(key \<mapsto> \<lparr>aeVal = storedForm enc, aeExp = expiresAt now ttl\<rparr>) else view a)"
  "fst (n_set h room now key enc w ttl a) \<longleftrightarrow> encodable enc \<and> room"
  by (simp_all add: n_set_def view_def ringAppend_def fun_upd_map_of)

lemma n_del_view: "view (snd (n_del h key w a)) = (view a)(key := None)"
  by (simp add: n_del_def view_def ringAppend_def fun_upd_map_of)

lemma view_frame [simp]: "view (a\<lparr>aSubs := s\<rparr>) = view a"
  by (simp add: view_def)

lemma drain_one_view:
  assumes "slot_ops a slot = op # rest"
  shows "view (drain_one H slot (fits (op_key op)) now a) = abs_sub fits now op (view a)"
proof -
  obtain p xs where r: "sbRecs (sub_of slot a) = (op, p) # xs" using assms by (auto simp: slot_ops_def)
  show ?thesis
  proof (cases op)
    case (SubSet key enc ttl)
    obtain st a1 where s: "n_set (H key) (fits key) now key enc (Suc slot) ttl a = (st, a1)" by force
    show ?thesis
      using SubSet r s n_set_view [of "H key" "fits key" now key enc "Suc slot" ttl a]
      by (simp add: drain_one_def Let_def abs_sub_def n_del_view)
  qed (use r in \<open>simp add: drain_one_def Let_def abs_sub_def n_del_view\<close>)
qed

lemma drain_one_ops: "slot_ops (drain_one H slot room now a) s = (if s = slot then tl (slot_ops a slot) else slot_ops a s)"
  by (simp add: slot_ops_def drain_one_recs map_tl)

lemma drain_one_slots: "jskeys (aSubs (drain_one H slot room now a)) = jskeys (aSubs a)"
proof (cases "sbRecs (sub_of slot a)")
  case (Cons x xs)
  then have in_keys: "slot \<in> set (jskeys (aSubs a))"
    by (auto simp: sub_of_def split: option.splits dest: map_of_Some_mem)
  obtain op p where x: "x = (op, p)" by force
  define a1 where "a1 = (case op of
      SubSet key enc ttl \<Rightarrow> (let (stored, a1) = n_set (H key) room now key enc (slot + 1) ttl a
                              in if stored then a1 else snd (n_del (H key) key (slot + 1) a1))
    | SubDel key \<Rightarrow> snd (n_del (H key) key (slot + 1) a))"
  have "aSubs a1 = aSubs a"
    by (simp add: a1_def Let_def n_set_def n_del_def ringAppend_def split: subOp.split)
  moreover have "drain_one H slot room now a = a1\<lparr>aSubs := AList.update slot ((sub_of slot a)\<lparr>sbTail := p, sbRecs := xs\<rparr>) (aSubs a1)\<rparr>"
    using Cons x by (simp add: drain_one_def Let_def a1_def)
  ultimately show ?thesis using in_keys by (simp add: update_keys)
qed (simp add: drain_one_def Let_def)

lemma drain_slot_refines:
  "let (n, a1) = drain_slot H fits now b slot a
   in n = min b (length (slot_ops a slot)) \<and> view a1 = fold (abs_sub fits now) (take b (slot_ops a slot)) (view a) \<and>
      slot_ops a1 slot = drop b (slot_ops a slot) \<and> (\<forall>s. s \<noteq> slot \<longrightarrow> slot_ops a1 s = slot_ops a s) \<and>
      jskeys (aSubs a1) = jskeys (aSubs a)"
proof (induction b arbitrary: a)
  case (Suc b)
  show ?case
  proof (cases "slot_ops a slot")
    case Nil
    then show ?thesis by (simp add: slot_ops_def)
  next
    case (Cons op rest)
    then obtain p xs where r: "sbRecs (sub_of slot a) = (op, p) # xs" by (auto simp: slot_ops_def)
    let ?a = "drain_one H slot (fits (op_key op)) now a"
    have "slot_ops ?a slot = rest" using Cons by (simp add: drain_one_ops)
    then show ?thesis
      using Suc [of ?a] Cons drain_one_view [OF Cons, of H fits now] r
      by (auto simp: Let_def case_prod_beta drain_one_ops drain_one_slots)
  qed
qed simp

lemma drain_slots_refines:
  "distinct slots \<Longrightarrow>
   (let (n, a1) = drain_slots H fits now b slots a; ops = concat (List.map (slot_ops a) slots)
    in n = min b (length ops) \<and> view a1 = fold (abs_sub fits now) (take b ops) (view a) \<and>
       concat (List.map (slot_ops a1) slots) = drop b ops \<and> (\<forall>s. s \<notin> set slots \<longrightarrow> slot_ops a1 s = slot_ops a s) \<and>
       jskeys (aSubs a1) = jskeys (aSubs a))"
proof (induction slots arbitrary: a b)
  case (Cons slot slots)
  obtain n1 a1 where 1: "drain_slot H fits now b slot a = (n1, a1)" by force
  obtain n2 a2 where 2: "drain_slots H fits now (b - n1) slots a1 = (n2, a2)" by force
  note d = drain_slot_refines [of H fits now b slot a, unfolded 1 Let_def prod.case]
  have m: "List.map (slot_ops a1) slots = List.map (slot_ops a) slots" using d Cons.prems by auto
  note s = Cons.IH [of "b - n1" a1, unfolded 2 Let_def prod.case m]
  have n1: "n1 = min b (length (slot_ops a slot))" using d by simp
  have b: "b - n1 = b - length (slot_ops a slot)" using n1 by simp
  have 3: "slot_ops a2 slot = drop b (slot_ops a slot)" using s d Cons.prems by auto
  have e: "drain_slots H fits now b (slot # slots) a = (n1 + n2, a2)" by (simp add: 1 2)
  have n: "n1 + n2 = min b (length (slot_ops a slot) + length (concat (List.map (slot_ops a) slots)))"
    using s Cons.prems n1 b by (auto simp: min_def)
  show ?case
    unfolding e Let_def prod.case using d s [unfolded b] 3 Cons.prems n by auto
qed simp

lemma submitDrain_refines:
  assumes "wf_map (aSubs a)" "submitDrain H fits now b a = (n, a1)"
  shows "n = min b (length (ring_ops a))" "view a1 = fold (abs_sub fits now) (take b (ring_ops a)) (view a)"
    "ring_ops a1 = drop b (ring_ops a)" "wf_map (aSubs a1)"
  using assms drain_slots_refines [of "sort (jskeys (aSubs a))" H fits now b a]
  by (simp_all add: submitDrain_def ring_ops_def Let_def case_prod_beta)

lemma primary_rounds_frame [simp]: "ySubmit (primary_rounds r p) = ySubmit p" "yReady (primary_rounds r p) = yReady p"
proof (induction r arbitrary: p)
  case (Suc r)
  have f: "ySubmit (fold primary_record rs p) = ySubmit p" "yReady (fold primary_record rs p) = yReady p" for rs p
    by (induction rs arbitrary: p) (simp_all add: primary_record_def)
  case 1
  show ?case using Suc f by (simp add: Let_def)
  case 2
  show ?case using Suc f by (simp add: Let_def)
qed simp_all

lemma drain_until_empty_ready [simp]: "yReady (drain_until_empty HK e rounds p) = yReady p"
  by (induction rounds arbitrary: p)
    (simp_all add: drainSubmissions_def primaryInvalidate_def Let_def split: prod.splits)

lemma apply_op_frame [simp]: "ySubmit (apply_op HK e m op p) = ySubmit p" "yReady (apply_op HK e m op p) = yReady p"
  by (auto simp: apply_op_def publishArenaSet_def publishArenaDel_def publishArenaClear_def cancelCaps_def cancelAllCaps_def
      localDrop_def l3ClearOpenFor_def l3ClearSettleFor_def case_prod_beta Let_def split: obOp.split option.split)

lemma drainSubmissions_refines:
  assumes "ySubmit p" "wf_map (aSubs (yArena p))" "drainSubmissions HK e b p = (n, q)"
  shows "n = min b (length (ring_ops (yArena p)))" "ring_ops (yArena q) = drop b (ring_ops (yArena p))"
    "view (yArena q) = fold (abs_sub (eFits e) (eTick e)) (take b (ring_ops (yArena p))) (view (yArena p))"
    "wf_map (aSubs (yArena q))" "ySubmit q"
proof -
  obtain a1 where s: "submitDrain (hash_of HK) (eFits e) (eTick e) b (yArena p) = (n, a1)" "yArena q = a1" "ySubmit q"
    using assms(1,3) by (auto simp: drainSubmissions_def primaryInvalidate_def Let_def split: prod.splits)
  note r = submitDrain_refines [OF assms(2) s(1)]
  show "n = min b (length (ring_ops (yArena p)))" "ring_ops (yArena q) = drop b (ring_ops (yArena p))"
    "view (yArena q) = fold (abs_sub (eFits e) (eTick e)) (take b (ring_ops (yArena p))) (view (yArena p))"
    "wf_map (aSubs (yArena q))" "ySubmit q"
    using r s(2,3) by simp_all
qed

lemma drain_until_empty_refines:
  "ySubmit p \<Longrightarrow> wf_map (aSubs (yArena p)) \<Longrightarrow> length (ring_ops (yArena p)) \<le> rounds * 8192 \<Longrightarrow>
   view (yArena (drain_until_empty HK e rounds p)) =
     fold (abs_sub (eFits e) (eTick e)) (ring_ops (yArena p)) (view (yArena p)) \<and>
   ring_ops (yArena (drain_until_empty HK e rounds p)) = []"
proof (induction rounds arbitrary: p)
  case (Suc rounds)
  obtain n q where d: "drainSubmissions HK e 8192 p = (n, q)" by force
  note r = drainSubmissions_refines [OF Suc.prems(1,2) d]
  show ?case
  proof (cases "n = 0")
    case True
    then have "ring_ops (yArena p) = []" using r(1) by (auto simp: min_def split: if_splits)
    then show ?thesis using True d r by simp
  next
    case False
    have "length (ring_ops (yArena q)) \<le> rounds * 8192" using Suc.prems(3) r(2) by simp
    then have "view (yArena (drain_until_empty HK e rounds q)) =
        fold (abs_sub (eFits e) (eTick e)) (ring_ops (yArena q)) (view (yArena q)) \<and>
        ring_ops (yArena (drain_until_empty HK e rounds q)) = []"
      using Suc.IH r(4,5) by blast
    moreover have "fold f (drop 8192 xs) (fold f (take 8192 xs) m) = fold f xs m" for f and xs :: "subOp list" and m :: amap
      by (metis append_take_drop_id comp_apply fold_append)
    ultimately show ?thesis using False d r(2,3) by simp
  qed
qed simp

section \<open>Applying a batch\<close>

lemma put_view:
  "view (snd (retimeArena HK (fits key) now key enc ttl a)) = abs_put HK fits now key enc ttl (view a)"
  by (auto simp: retimeArena_def abs_put_def n_set_view split: option.split)

lemma publishArenaSet_view:
  assumes "yReady p"
  shows "view (yArena (snd (publishArenaSet HK e key enc w ttl p))) = abs_put HK (eFits e) (eTick e) key enc ttl (view (yArena p))"
proof (cases "HK key")
  case (Some h)
  show ?thesis
    using assms Some n_set_view [of h "eFits e key" "eTick e" key enc w "readTtlMs ttl" "yArena p"]
    by (auto simp: publishArenaSet_def abs_put_def cancelCaps_def Let_def split: prod.split)
qed (simp add: publishArenaSet_def abs_put_def)

lemma capArena_view:
  "view (snd (capArena HK (fits key) now key enc cap a)) =
     (if retimed now enc cap (view a key) then abs_put HK fits now key enc cap (view a) else view a)"
proof (cases "map_of (aMap a) key")
  case (Some x)
  have "view (snd (case retimeArena HK (fits key) now key enc cap a of (ok, a1) \<Rightarrow> if ok then (Capped, a1) else (Unable, a1))) =
      abs_put HK fits now key enc cap (view a)"
    using put_view [of HK fits key now enc cap a] by (cases "retimeArena HK (fits key) now key enc cap a") simp
  then show ?thesis
    using Some by (auto simp: capArena_def retimed_def n_get_def n_lastTtl_def live_entry_def view_def Let_def)
qed (simp add: capArena_def retimed_def n_get_def live_entry_def view_def)

lemma apply_op_view:
  assumes ready [simp]: "yReady p"
  shows "view (yArena (apply_op HK e m op p)) = abs_op HK (eFits e) (eTick e) op (view (yArena p))"
proof (cases op)
  case (OSet key enc ttl)
  then show ?thesis by (simp add: apply_op_def abs_op_def localDrop_def publishArenaSet_view)
next
  case (ODel key)
  show ?thesis
  proof (cases "HK key")
    case (Some h)
    then show ?thesis using ODel n_del_view [of h key "gmId m" "yArena p"]
      by (cases "n_del h key (gmId m) (yArena p)")
        (simp add: apply_op_def abs_op_def localDrop_def publishArenaDel_def cancelCaps_def)
  qed (simp add: ODel apply_op_def abs_op_def localDrop_def publishArenaDel_def cancelCaps_def)
next
  case (ORetime key enc cap)
  then show ?thesis using capArena_view [of HK "eFits e" key "eTick e" enc cap "yArena p"]
    by (cases "capArena HK (eFits e key) (eTick e) key enc cap (yArena p)") (simp add: apply_op_def abs_op_def localDrop_def Let_def)
next
  case OClear
  then show ?thesis by (simp add: apply_op_def abs_op_def publishArenaClear_def cancelAllCaps_def n_clearAll_def ringAppend_def view_def)
qed (simp_all add: apply_op_def abs_op_def l3ClearOpenFor_def l3ClearSettleFor_def l3ClearBegin_def l3ClearSettle_def
    view_def Let_def split: option.split)

lemma fold_ops:
  "ySubmit (fold (apply_op HK e m) ops p) = ySubmit p" "yReady (fold (apply_op HK e m) ops p) = yReady p"
  "yReady p \<Longrightarrow>
   view (yArena (fold (apply_op HK e m) ops p)) = fold (abs_op HK (eFits e) (eTick e)) ops (view (yArena p))"
  by (induction ops arbitrary: p) (simp_all add: apply_op_view)



end
