(* ===== verification/Service.thy ===== *)
theory Service
  imports Refine
begin

text \<open>
  The services around reads and writes: the clear generations of a worker that is gone, the
  conditional re-timing of a refused write, an outbox that has to be shed, the enumeration of the
  keys, and the slice of the index that one maintenance tick sweeps.
\<close>

section \<open>Clear generations\<close>

lemma settleFor_owed:
  assumes "l3ClearSettleFor who p = (True, p1)" "yReady p"
  shows "owed_of who p = Suc (owed_of who p1)" "\<And>w. w \<noteq> who \<Longrightarrow> owed_of w p1 = owed_of w p"
    "n_l3ClearsInFlight (yArena p1) = n_l3ClearsInFlight (yArena p) - 1" "aMap (yArena p1) = aMap (yArena p)" "yReady p1"
  using assms
  by (auto simp: l3ClearSettleFor_def clearSettle_def Let_def owed_of_def l3ClearSettle_def n_l3ClearsInFlight_def split: if_splits option.splits)

lemma release_loop_settles:
  "release_loop who p = (k, q) \<Longrightarrow> yReady p \<Longrightarrow>
   k = owed_of who p \<and> owed_of who q = 0 \<and> (\<forall>w. w \<noteq> who \<longrightarrow> owed_of w q = owed_of w p) \<and>
   n_l3ClearsInFlight (yArena q) = n_l3ClearsInFlight (yArena p) - k \<and> aMap (yArena q) = aMap (yArena p)"
proof (induction who p arbitrary: k q rule: release_loop.induct)
  case (1 who p)
  obtain s p1 where s: "l3ClearSettleFor who p = (s, p1)" by force
  show ?case
  proof (cases s)
    case True
    obtain n p2 where n: "release_loop who p1 = (n, p2)" by force
    have kq: "k = Suc n" "q = p2" using "1.prems"(1) s True n by (auto simp: release_loop.simps [of who p])
    have "l3ClearSettleFor who p = (True, p1)" using s True by simp
    note o = settleFor_owed [OF this "1.prems"(2)]
    show ?thesis using "1.IH" [OF s [symmetric] refl] True n kq o s by (simp add: True)
  next
    case False
    then have "k = 0" "q = p" "owed_of who p = 0"
      using "1.prems" s by (auto simp: release_loop.simps [of who p] l3ClearSettleFor_def Let_def split: if_splits)
    then show ?thesis by simp
  qed
qed

text \<open>C22: releasing a worker ends, settles exactly the clear generations its attachment still owed and
  no other's, leaves the entries of the arena alone, and is idempotent: a second release settles nothing.\<close>

theorem release_settles_exactly_what_is_owed:
  assumes "attachmentOf m = Some who" "releaseWorker (Some m) p = Some (k, q)" "yReady p"
  shows "k = owed_of who p \<and> owed_of who q = 0 \<and> (\<forall>w. w \<noteq> who \<longrightarrow> owed_of w q = owed_of w p) \<and>
    n_l3ClearsInFlight (yArena q) = n_l3ClearsInFlight (yArena p) - k \<and> aMap (yArena q) = aMap (yArena p) \<and>
    releaseWorker (Some m) q = Some (0, q)"
proof -
  have r: "release_loop who p = (k, q)" using assms by (simp add: releaseWorker_def)
  have "release_loop who q = (0, q)"
    using release_loop_settles [OF r assms(3)] by (simp add: release_loop.simps [of who q] l3ClearSettleFor_def)
  then show ?thesis using release_loop_settles [OF r assms(3)] assms(1) by (simp add: releaseWorker_def)
qed

definition xOwing :: proc where
  "xOwing = (xProc 0 False)\<lparr>yOwed := [(''w'', 2), (''v'', 1)], yArena := xArena\<lparr>aGen := 3\<rparr>\<rparr>"

theorem release_settles_exactly_what_is_owed_witness:
  "\<exists>q. releaseWorker (Some \<lparr>gmId = 1, gmNonce = Some ''w'', gmOps = []\<rparr>) xOwing = Some (2, q) \<and>
     n_l3ClearsInFlight (yArena q) = 1 \<and> owed_of ''v'' q = 1"
proof -
  let ?m = "\<lparr>gmId = 1, gmNonce = Some ''w'', gmOps = []\<rparr>"
  have a: "attachmentOf ?m = Some ''w''" by (simp add: attachmentOf_def)
  obtain k q where "release_loop ''w'' xOwing = (k, q)" by force
  then have r: "releaseWorker (Some ?m) xOwing = Some (k, q)" by (simp add: releaseWorker_def attachmentOf_def)
  have "owed_of ''w'' xOwing = 2" "owed_of ''v'' xOwing = 1" "n_l3ClearsInFlight (yArena xOwing) = 3" "yReady xOwing"
    by (simp_all add: xOwing_def owed_of_def n_l3ClearsInFlight_def xArena_def xProc_def boot_def)
  then show ?thesis using release_settles_exactly_what_is_owed [OF a r] r by auto
qed

section \<open>Re-timing\<close>



section \<open>Shedding\<close>

lemma release_op_marks:
  "map_of (byKey (cDel (iCoh (release_op sq op i)))) k =
     (case map_of (byKey (cDel (iCoh i))) k of None \<Rightarrow> None
      | Some r \<Rightarrow> if op = ODel k \<and> mSeq r \<le> sq then None else Some r)"
  "map_of (byKey (cWrite (iCoh (release_op sq op i)))) k =
     (case map_of (byKey (cWrite (iCoh i))) k of None \<Rightarrow> None
      | Some r \<Rightarrow> if (\<exists>enc ttl. op = OSet k enc ttl) \<and> mSeq r \<le> sq then None else Some r)"
  by (cases op; auto simp: mk_releaseUpTo_lookup split: option.split)+

lemma releaseBatchMarks_marks:
  "map_of (byKey (cDel (iCoh (releaseBatchMarks ops sq i)))) k =
     (case map_of (byKey (cDel (iCoh i))) k of None \<Rightarrow> None
      | Some r \<Rightarrow> if ODel k \<in> set ops \<and> mSeq r \<le> sq then None else Some r)"
  "map_of (byKey (cWrite (iCoh (releaseBatchMarks ops sq i)))) k =
     (case map_of (byKey (cWrite (iCoh i))) k of None \<Rightarrow> None
      | Some r \<Rightarrow> if (\<exists>enc ttl. OSet k enc ttl \<in> set ops) \<and> mSeq r \<le> sq then None else Some r)"
  unfolding releaseBatchMarks_def
  by (induction ops arbitrary: i) (auto simp: release_op_marks split: option.splits if_splits)

lemma capUnapplied_frame [simp]: "iCoh (capUnapplied k i) = iCoh i" "iLink (capUnapplied k i) = iLink i"
  by (simp_all add: capUnapplied_def capLost_def countCapLost_def set_caps_def split: option.split)

lemma fold_capUnapplied_frame [simp]:
  "iCoh (fold capUnapplied ks i) = iCoh i" "iLink (fold capUnapplied ks i) = iLink i"
  by (induction ks arbitrary: i) simp_all

lemma dropOutboxCaps_frame [simp]:
  "iCoh (dropOutboxCaps i) = iCoh i" "iLink (dropOutboxCaps i) = (iLink i)\<lparr>kCapKeys := []\<rparr>"
  by (simp_all add: dropOutboxCaps_def Let_def)

lemma release_op_link: "iLink (release_op sq op i) = iLink i"
  by (cases op) simp_all

lemma releaseBatchMarks_link [simp]: "iLink (releaseBatchMarks ops sq i) = iLink i"
  unfolding releaseBatchMarks_def by (induction ops arbitrary: i) (simp_all add: release_op_link)

text \<open>C25: an outbox that is over its bound while the channel is congested is shed, not grown: nothing goes
  on the wire; of the queued operations exactly those that name no key stay, in their order, so a clear
  and the opening and settling of a clear generation are never shed; and of the marks exactly those
  that a shed removal, or a shed set, would have released when applied are released, no mark of a key
  that no such operation names, and none taken after the batch.\<close>

theorem flush_sheds_only_keyed_operations:
  assumes "kOut (iLink i) \<noteq> []" "kFlight (iLink i) \<ge> gFlightMax (iCfg i)" "kOutBytes (iLink i) \<ge> gOutMax (iCfg i)"
  shows "let (j, sent) = flush e sq i in
    sent = None \<and> kWire (iLink j) = kWire (iLink i) \<and> kOutBytes (iLink j) = 0 \<and>
    kOut (iLink j) = filter (\<lambda>op. op \<in> {OClear, OOpen, OSettle}) (kOut (iLink i)) \<and>
    (\<forall>k. map_of (byKey (cDel (iCoh j))) k =
      (case map_of (byKey (cDel (iCoh i))) k of None \<Rightarrow> None
       | Some r \<Rightarrow> if ODel k \<in> set (kOut (iLink i)) \<and> mSeq r \<le> sq then None else Some r)) \<and>
    (\<forall>k. map_of (byKey (cWrite (iCoh j))) k =
      (case map_of (byKey (cWrite (iCoh i))) k of None \<Rightarrow> None
       | Some r \<Rightarrow> if (\<exists>enc ttl. OSet k enc ttl \<in> set (kOut (iLink i))) \<and> mSeq r \<le> sq then None else Some r))"
proof -
  let ?i = "i\<lparr>iLink := (iLink i)\<lparr>kScheduled := False\<rparr>\<rparr>"
  have f: "flush e sq i = (shed_outbox sq ?i, None)" using assms by (simp add: flush_def Let_def)
  have k: "keyless = (\<lambda>op. op \<in> {OClear, OOpen, OSettle})" by (rule ext, case_tac op) simp_all
  have c: "iCoh (shed_outbox sq ?i) = iCoh (releaseBatchMarks (kOut (iLink i)) sq ?i)" by (simp add: shed_outbox_def Let_def)
  have l: "iLink (shed_outbox sq ?i) = (iLink ?i)\<lparr>kCapKeys := [], kOut := filter keyless (kOut (iLink i)), kOutBytes := 0\<rparr>"
    by (simp add: shed_outbox_def Let_def)
  show ?thesis unfolding f Let_def prod.case c l releaseBatchMarks_marks by (simp add: k)
qed

theorem flush_sheds_only_keyed_operations_witness:
  "\<exists>i j. kOut (iLink i) = [ODel [97], OClear] \<and> flush xEnv 5 i = (j, None) \<and> kOut (iLink j) = [OClear]"
proof -
  let ?j = "new_inst (xCfg 1 False) None 1000"
  let ?i = "?j\<lparr>iLink := (iLink ?j)\<lparr>kOut := [ODel [97], OClear], kFlight := 2000, kOutBytes := 2000\<rparr>\<rparr>"
  have "kOut (iLink ?i) \<noteq> []" "kFlight (iLink ?i) \<ge> gFlightMax (iCfg ?i)" "kOutBytes (iLink ?i) \<ge> gOutMax (iCfg ?i)"
    by (simp_all add: new_inst_def xCfg_def)
  note f = flush_sheds_only_keyed_operations [OF this, of xEnv 5]
  obtain j s where j: "flush xEnv 5 ?i = (j, s)" by force
  have "s = None" "kOut (iLink j) = [OClear]" using f unfolding j Let_def prod.case by simp_all
  then show ?thesis using j by (intro exI [of _ ?i] exI [of _ j]) simp
qed

section \<open>Enumeration\<close>

lemma keys_loop_all:
  "c \<le> length slots \<Longrightarrow> y \<le> limit \<Longrightarrow>
   keys_loop slots limit batch c y =
     Some (take (limit - y) (List.map the (filter (\<lambda>x. x \<noteq> None) (drop c slots))))"
proof (induction "length slots - c" arbitrary: c y rule: less_induct)
  case less
  define r where "r = scanKeys slots c batch"
  note s = scanKeys_some [OF r_def less.prems(1)]
  let ?all = "\<lambda>c. List.map the (filter (\<lambda>x. x \<noteq> None) (drop c slots))"
  have split: "?all c = saKeys r @ ?all (saCursor r)"
  proof -
    have "drop c slots = take (saCursor r - c) (drop c slots) @ drop (saCursor r) slots"
      using s(2) by (metis append_take_drop_id drop_drop le_add_diff_inverse2)
    then show ?thesis using s(1) by (metis filter_append map_append)
  qed
  have step: "keys_loop slots limit batch c y =
      (if limit - y < length (saKeys r) \<or> saDone r then Some (take (limit - y) (saKeys r))
       else Option.bind (keys_loop slots limit batch (saCursor r) (y + length (take (Suc (limit - y)) (saKeys r))))
              (\<lambda>rest. Some (take (limit - y) (saKeys r) @ rest)))"
    by (subst keys_loop.simps) (simp add: r_def [symmetric] yield_keys_take Let_def)
  show ?case
  proof (cases "limit - y < length (saKeys r) \<or> saDone r")
    case True
    then show ?thesis using step split s(4) by auto
  next
    case False
    then have "take (Suc (limit - y)) (saKeys r) = saKeys r" "y + length (saKeys r) \<le> limit" using less.prems(2) by auto
    moreover from this have "keys_loop slots limit batch (saCursor r) (y + length (saKeys r)) =
        Some (take (limit - (y + length (saKeys r))) (?all (saCursor r)))"
      using False s(3) s(5) by (intro less.hyps) auto
    ultimately show ?thesis using step False split by (simp add: diff_diff_eq)
  qed
qed


section \<open>Maintenance\<close>

text \<open>The slice a maintenance tick sweeps is large enough: the ticks that fit into the time of a full
  pass cover the whole index, and no tick sweeps less than 1024 slots.\<close>

theorem sweep_slice_covers_the_index:
  assumes "0 < slots"
  shows "1024 \<le> sweep_slice slots everyMs fullPassMs 0 \<and>
    of_nat slots \<le> of_int (sweep_slice slots everyMs fullPassMs 0) *
      max 1 (or_default fullPassMs 30000 / or_default everyMs 500)"
proof -
  let ?m = "max 1 (or_default fullPassMs 30000 / or_default everyMs 500)" and ?s = "sweep_slice slots everyMs fullPassMs 0"
  have s: "?s = max 1024 \<lceil>of_nat slots / ?m\<rceil>" using assms by (simp add: sweep_slice_def Let_def)
  have "of_nat slots / ?m \<le> of_int ?s" unfolding s by (meson le_of_int_ceiling max.cobounded2 of_int_le_iff order_trans)
  moreover have "0 < ?m" by simp
  ultimately show ?thesis using s by (simp add: pos_divide_le_eq)
qed

theorem sweep_slice_covers_the_index_witness:
  "of_nat 65536 \<le> of_int (sweep_slice 65536 500 30000 0) * max 1 (or_default 30000 30000 / or_default 500 500)"
  using sweep_slice_covers_the_index [of 65536 500 30000] by simp

end
