(* ===== verification/Integrity.thy ===== *)
theory Integrity
  imports ReadOnly Service
begin

text \<open>
  Provenance. \<open>G key v\<close> says that \<open>v\<close> was legitimately written under \<open>key\<close>; it is any predicate that is kept
  by the codecs in use and by the form in which the arena stores a value. \<open>proc_pure\<close> says that all that a process
  holds of values satisfies it: the tiers of its objects, the arena, the submission rings, the outboxes and the
  messages it has sent. Every operation that is not handed another value keeps that.
\<close>

type_synonym provenance = "jsstr \<Rightarrow> jsval \<Rightarrow> bool"

definition codec_ok :: "provenance \<Rightarrow> cfg \<Rightarrow> bool" where
  "codec_ok G g \<longleftrightarrow>
     (\<forall>c key v w. gCodec g = Some c \<longrightarrow> G key v \<longrightarrow> cEncode c v = Some w \<or> cDecode c v = Some w \<longrightarrow> G key w)"

definition stored_ok :: "provenance \<Rightarrow> bool" where
  "stored_ok G \<longleftrightarrow> (\<forall>key v. G key v \<longrightarrow> G key (storedForm v))"

fun op_pure :: "provenance \<Rightarrow> obOp \<Rightarrow> bool" where
  "op_pure G (OSet key v ttl) = G key v"
| "op_pure G (ORetime key v cap) = G key v"
| "op_pure G _ = True"

fun sub_pure :: "provenance \<Rightarrow> subOp \<Rightarrow> bool" where
  "sub_pure G (SubSet key v ttl) = G key v"
| "sub_pure G (SubDel key) = True"

definition tier_pure :: "provenance \<Rightarrow> l1State \<Rightarrow> bool" where
  "tier_pure G s \<longleftrightarrow> (\<forall>(key, en)\<in>set (l1Map s). G key (eV en))"

definition inst_pure :: "provenance \<Rightarrow> inst \<Rightarrow> bool" where
  "inst_pure G i \<longleftrightarrow> tier_pure G (iL1 i) \<and> (\<forall>op\<in>set (kOut (iLink i)). op_pure G op) \<and> codec_ok G (iCfg i)"

definition arena_pure :: "provenance \<Rightarrow> arena \<Rightarrow> bool" where
  "arena_pure G a \<longleftrightarrow>
     (\<forall>(key, x)\<in>set (aMap a). G key (aeVal x)) \<and>
     (\<forall>(slot, r)\<in>set (aSubs a). \<forall>(op, pos)\<in>set (sbRecs r). sub_pure G op)"

definition proc_pure :: "provenance \<Rightarrow> proc \<Rightarrow> bool" where
  "proc_pure G p \<longleftrightarrow>
     (\<forall>n i. map_of (yInsts p) n = Some i \<longrightarrow> inst_pure G i) \<and> arena_pure G (yArena p) \<and>
     (\<forall>m\<in>set (ySent p). \<forall>op\<in>set (gmOps m). op_pure G op)"

section \<open>The tier\<close>

lemma set_delete: "x \<in> set (AList.delete k m) \<Longrightarrow> x \<in> set m"
  by (simp add: AList.delete_eq)

lemma set_update: "x \<in> set (AList.update k v m) \<Longrightarrow> x = (k, v) \<or> x \<in> set m"
  by (induction m) (auto split: if_splits)

lemma tier_fewer: "tier_pure G s \<Longrightarrow> set (l1Map s') \<subseteq> set (l1Map s) \<Longrightarrow> tier_pure G s'"
  by (auto simp: tier_pure_def)

lemma tier_set: "tier_pure G s \<Longrightarrow> G key (eV en) \<Longrightarrow> tier_pure G (l1_set key en s)"
  by (auto simp: tier_pure_def l1_set_def dest!: set_update)

lemma tier_delete: "tier_pure G s \<Longrightarrow> tier_pure G (l1_delete key s)"
  by (auto simp: tier_pure_def l1_delete_def dest!: set_delete)

lemma tier_drop [simp]: "tier_pure G s \<Longrightarrow> tier_pure G (l1Drop key s)"
  by (auto simp: l1Drop_def tier_pure_def l1_delete_def split: option.split dest!: set_delete)

lemma tier_clear [simp]: "tier_pure G (l1_clear s)"
  by (simp add: tier_pure_def l1_clear_def)

lemma tier_index [simp]: "tier_pure G (s\<lparr>l1ByHash := x\<rparr>) = tier_pure G s"
  by (simp add: tier_pure_def)

lemma tier_get: "tier_pure G s \<Longrightarrow> map_of (l1Map s) key = Some en \<Longrightarrow> G key (eV en)"
  by (auto simp: tier_pure_def dest!: map_of_SomeD)

lemma tier_round:
  assumes "tier_pure G s"
  shows "evict_round r s = Inl s' \<Longrightarrow> tier_pure G s'" "evict_round r s = Inr (r', s') \<Longrightarrow> tier_pure G s'"
proof -
  have o: "tier_pure G (snd (oldestEntry s))" using assms by (simp add: tier_pure_def)
  show "evict_round r s = Inl s' \<Longrightarrow> tier_pure G s'"
    using o by (auto simp: evict_round_def Let_def split: prod.splits option.splits if_splits)
  assume e: "evict_round r s = Inr (r', s')"
  then obtain k en s1 where s1: "oldestEntry s = (Some (k, en), s1)"
    by (auto simp: evict_round_def split: prod.splits option.splits)
  then have "G k (eV en)" using oldestEntry_mem [of s "(k, en)"] assms by (auto simp: tier_pure_def)
  moreover have d: "tier_pure G (l1_delete k s1)" using o s1 tier_delete by simp
  ultimately show "tier_pure G s'"
    using e s1 by (auto simp: evict_round_def Let_def split: if_splits intro!: tier_set)
      (auto simp: tier_pure_def)
qed

lemma tier_evict: "tier_pure G s \<Longrightarrow> tier_pure G (evict_loop mx r s)"
proof (induction mx r s rule: evict_loop.induct)
  case (1 mx r s)
  then show ?case
    using tier_round [OF 1(2), of r] by (subst evict_loop.simps) (auto split: sum.split)
qed

lemma tier_put: "tier_pure G s \<Longrightarrow> G key v \<Longrightarrow> tier_pure G (l1Put c key v h n d own s)"
  unfolding l1Put_def Let_def
  by (intro tier_evict) (auto simp: tier_pure_def l1_set_def dest!: set_update split: option.splits)

lemma tier_hit: "tier_pure G s \<Longrightarrow> tier_pure G (l1_hit key s)"
  by (auto simp: l1_hit_def split: option.split intro!: tier_set dest: tier_get)

lemma tier_gc: "tier_pure G s \<Longrightarrow> tier_pure G (fst (onGc c used limit s))"
proof -
  have "tier_pure G s \<Longrightarrow> tier_pure G (shed_loop t m s)" for t m s
    by (induction t m s rule: shed_loop.induct) (auto simp: tier_pure_def l1_delete_def dest!: set_delete)
  then show "tier_pure G s \<Longrightarrow> tier_pure G (fst (onGc c used limit s))" by (simp add: onGc_def Let_def)
qed

section \<open>The arena\<close>

lemma arena_frame [simp]:
  "arena_pure G (l3ClearBegin a) = arena_pure G a" "arena_pure G (l3ClearSettle a) = arena_pure G a"
  "arena_pure G (ringAppend h w a) = arena_pure G a"
  by (simp_all add: arena_pure_def l3ClearBegin_def l3ClearSettle_def ringAppend_def)

lemma arena_removes:
  "arena_pure G a \<Longrightarrow> arena_pure G (snd (n_del h key w a))" "arena_pure G a \<Longrightarrow> arena_pure G (n_clearAll w a)"
  "arena_pure G a \<Longrightarrow> arena_pure G (n_sweep h now key a)" "arena_pure G a \<Longrightarrow> arena_pure G (n_evict key a)"
  by (auto simp: n_del_def n_clearAll_def n_sweep_def n_evict_def split: option.split)
    (auto simp: arena_pure_def dest!: set_delete)

lemma arena_set: "arena_pure G a \<Longrightarrow> stored_ok G \<Longrightarrow> G key v \<Longrightarrow> arena_pure G (snd (n_set h room now key v w ttl a))"
  by (auto simp: n_set_def) (auto simp: arena_pure_def stored_ok_def dest!: set_update)

lemma arena_get: "arena_pure G a \<Longrightarrow> n_get now a key = Some v \<Longrightarrow> G key v"
  by (auto simp: n_get_def live_entry_def arena_pure_def split: option.splits if_splits dest!: map_of_SomeD)

lemma sub_of_pure: "arena_pure G a \<Longrightarrow> (op, pos) \<in> set (sbRecs (sub_of slot a)) \<Longrightarrow> sub_pure G op"
  by (auto simp: sub_of_def arena_pure_def split: option.splits dest!: map_of_SomeD)

lemma arena_push: "arena_pure G a \<Longrightarrow> sub_pure G op \<Longrightarrow> arena_pure G (snd (submitPush slot op need pad a))"
  using sub_of_pure [of G a _ _ slot]
  by (auto simp: submitPush_def Let_def) (auto simp: arena_pure_def dest!: set_update)

lemma arena_drain_one:
  assumes "arena_pure G a" "stored_ok G"
  shows "arena_pure G (drain_one H slot room now a)"
proof (cases "sbRecs (sub_of slot a)")
  case (Cons x rest)
  obtain op pos where x: "x = (op, pos)" by force
  let ?r = "sub_of slot a"
  have rest: "sub_pure G op" if "(op, pos) \<in> set rest" for op pos
    using sub_of_pure [OF assms(1), of op pos slot] Cons that by simp
  have upd: "arena_pure G (b\<lparr>aSubs := AList.update slot (?r\<lparr>sbTail := pos, sbRecs := rest\<rparr>) (aSubs b)\<rparr>)"
    if "arena_pure G b" for b
    using that by (auto simp: arena_pure_def dest!: set_update dest: rest)
  have s: "G key v" if "op = SubSet key v ttl" for key v ttl
    using sub_of_pure [OF assms(1), of op pos slot] Cons x that by simp
  show ?thesis
    using Cons x upd arena_set [OF assms(1,2) s] arena_removes(1) assms(1)
    by (auto simp: drain_one_def Let_def case_prod_beta split: subOp.split)
qed (use assms in \<open>simp add: drain_one_def\<close>)

lemma arena_drain:
  assumes "arena_pure G a" "stored_ok G"
  shows "arena_pure G (snd (submitDrain H fits now b a))"
proof -
  have 1: "arena_pure G (snd (drain_slot H fits now b slot a))" if "arena_pure G a" for b slot a
    using that arena_drain_one [OF _ assms(2)]
    by (induction b arbitrary: a) (auto simp: case_prod_beta Let_def split: list.split)
  have "arena_pure G (snd (drain_slots H fits now b slots a))" if "arena_pure G a" for b slots a
    using that 1 by (induction slots arbitrary: a b) (auto simp: case_prod_beta Let_def)
  then show ?thesis using assms(1) by (simp add: submitDrain_def)
qed

lemma arena_cap:
  assumes "arena_pure G a" "stored_ok G" "G key enc"
  shows "arena_pure G (snd (capArena HK room now key enc cap a))"
  using arena_set [OF assms]
  by (auto simp: capArena_def retimeArena_def case_prod_beta Let_def assms(1) split: option.split)

section \<open>One object\<close>

named_theorems pure_intros

lemma inst_same:
  assumes "inst_pure G i" "iL1 j = iL1 i" "kOut (iLink j) = kOut (iLink i)" "iCfg j = iCfg i"
  shows "inst_pure G j"
  using assms by (simp add: inst_pure_def)

lemma inst_tier:
  "inst_pure G i \<Longrightarrow> tier_pure G s \<Longrightarrow> inst_pure G (i\<lparr>iL1 := s\<rparr>)"
  by (simp add: inst_pure_def)

lemma inst_fold: "(\<And>x i. inst_pure G i \<Longrightarrow> inst_pure G (f x i)) \<Longrightarrow> inst_pure G i \<Longrightarrow> inst_pure G (fold f xs i)"
  by (induction xs arbitrary: i) simp_all

lemma inst_frame [simp]:
  "inst_pure G (bump c i) = inst_pure G i" "inst_pure G (add_stat c n i) = inst_pure G i"
  "inst_pure G (i\<lparr>iCoh := h\<rparr>) = inst_pure G i" "inst_pure G (i\<lparr>iLive := v\<rparr>) = inst_pure G i"
  "inst_pure G (i\<lparr>iCaps := k\<rparr>) = inst_pure G i" "inst_pure G (i\<lparr>iQueue := q\<rparr>) = inst_pure G i"
  "inst_pure G (i\<lparr>iReads := r\<rparr>) = inst_pure G i" "inst_pure G (set_last x i) = inst_pure G i"
  "inst_pure G (set_caps m i) = inst_pure G i" "inst_pure G (stopCapTimer i) = inst_pure G i"
  "inst_pure G (countCapLost b i) = inst_pure G i" "inst_pure G (capLost key b i) = inst_pure G i"
  "inst_pure G (capUnapplied key i) = inst_pure G i" "inst_pure G (capEntryUnconfirmed key i) = inst_pure G i"
  "inst_pure G (cancelCap key i) = inst_pure G i" "inst_pure G (cancelOwnCaps i) = inst_pure G i"
  "inst_pure G (releaseMarks key i) = inst_pure G i" "inst_pure G (noteDeleted key pos i) = inst_pure G i"
  "inst_pure G (set_cursor c' i) = inst_pure G i" "inst_pure G (ringDoorbell i) = inst_pure G i"
  "inst_pure G (useSubmissionRing ring i) = inst_pure G i" "inst_pure G (on_queue f i) = inst_pure G i"
  "inst_pure G (noteCap e a key enc cap i) = inst_pure G i" "inst_pure G (setDead d i) = inst_pure G i"
  "inst_pure G (release_op sq op i) = inst_pure G i"
  by (auto simp: inst_pure_def bump_def add_stat_def set_last_def set_caps_def stopCapTimer_def countCapLost_def capLost_def
      capUnapplied_def capEntryUnconfirmed_def cancelCap_def cancelOwnCaps_def releaseMarks_def noteDeleted_def set_cursor_def
      ringDoorbell_def useSubmissionRing_def on_queue_def noteCap_def setDead_def Let_def split: option.split)
    (cases op; simp)+

lemma inst_drops [pure_intros]:
  "inst_pure G i \<Longrightarrow> inst_pure G (dropCachedValues i)" "inst_pure G i \<Longrightarrow> inst_pure G (clearLocal i)"
  "inst_pure G i \<Longrightarrow> inst_pure G (i\<lparr>iL1 := l1Drop key (iL1 i)\<rparr>)" "inst_pure G i \<Longrightarrow> inst_pure G (l1_at (l1Drop key) i)"
  "inst_pure G i \<Longrightarrow> inst_pure G (dropByHash h i)"
  by (auto simp: inst_pure_def dropCachedValues_def clearLocal_def stopCapTimer_def l1_at_def dropByHash_def split: option.split)

lemma inst_caps [pure_intros]: "inst_pure G i \<Longrightarrow> inst_pure G (runCaps HK e a i)"
proof -
  assume i: "inst_pure G i"
  have "inst_pure G (judgeRetiredCaps HK (eTick e) a rs i)" for rs
    unfolding judgeRetiredCaps_def Let_def
    by (auto intro!: inst_fold i simp: judge_one_def Let_def split: option.split)
  then show ?thesis using i by (auto simp: runCaps_def Let_def intro!: inst_fold)
qed

lemma inst_link: "inst_pure G i \<Longrightarrow> set (kOut l) \<subseteq> set (kOut (iLink i)) \<Longrightarrow> inst_pure G (i\<lparr>iLink := l\<rparr>)"
  by (auto simp: inst_pure_def)

lemma inst_push: "inst_pure G i \<Longrightarrow> op_pure G op \<Longrightarrow> inst_pure G (push_op op i)"
  by (auto simp: inst_pure_def push_op_def)

lemma inst_outbox [pure_intros]:
  "inst_pure G i \<Longrightarrow> inst_pure G (releaseBatchMarks ops sq i)" "inst_pure G i \<Longrightarrow> inst_pure G (batch_lost ops ks sq i)"
  "inst_pure G i \<Longrightarrow> inst_pure G (fst (flush e sq i))" "inst_pure G i \<Longrightarrow> inst_pure G (send_done failed i)"
proof -
  show r: "inst_pure G i \<Longrightarrow> inst_pure G (releaseBatchMarks ops sq i)" for ops i
    unfolding releaseBatchMarks_def by (rule inst_fold) simp_all
  show b: "inst_pure G i \<Longrightarrow> inst_pure G (batch_lost ops ks sq i)" for ops ks i sq
    unfolding batch_lost_def releaseBatchMarks_def by (intro inst_fold) simp_all
  have d: "inst_pure G i \<Longrightarrow> inst_pure G (dropOutboxCaps i)" for i
    unfolding dropOutboxCaps_def Let_def by (intro inst_link inst_fold) simp_all
  have s: "inst_pure G (shed_outbox sq i)" if "inst_pure G i" for i
  proof -
    have "inst_pure G (dropOutboxCaps (add_stat c n (releaseBatchMarks (kOut (iLink i)) sq i)))" for c n
      using that by (intro d) (simp add: r)
    moreover have "kOut (iLink (dropOutboxCaps (add_stat c n (releaseBatchMarks (kOut (iLink i)) sq i)))) = kOut (iLink i)" for c n
      by (simp add: dropOutboxCaps_def Let_def)
    ultimately show ?thesis unfolding shed_outbox_def Let_def by (intro inst_link) auto
  qed
  have t: "inst_pure G (fst (send_batch e sq i))" if "inst_pure G i" for i
  proof -
    have "inst_pure G (add_stat c n (bump c' (i\<lparr>iLink := l\<rparr>)))" if "kOut l = []" for c n c' l
      using \<open>inst_pure G i\<close> that by (simp add: inst_link)
    then show ?thesis by (auto simp: send_batch_def Let_def intro!: b inst_link split: sendResult.split)
  qed
  show "inst_pure G i \<Longrightarrow> inst_pure G (fst (flush e sq i))"
    by (auto simp: flush_def Let_def intro!: t s inst_link)
  show "inst_pure G i \<Longrightarrow> inst_pure G (send_done failed i)"
    by (auto simp: send_done_def Let_def intro!: b inst_link split: list.split)
qed

lemma flush_sent: "inst_pure G i \<Longrightarrow> snd (flush e sq i) = Some ops \<Longrightarrow> \<forall>op\<in>set ops. op_pure G op"
  by (auto simp: flush_def send_batch_def Let_def inst_pure_def split: if_splits sendResult.splits)

lemma inst_queue [pure_intros]:
  "inst_pure G i \<Longrightarrow> inst_pure G (snd (queue_op e op i))" "inst_pure G i \<Longrightarrow> inst_pure G (snd (queueSet e key enc ttl level i))"
  "inst_pure G i \<Longrightarrow> inst_pure G (fst (checkPrimary e i))" "inst_pure G i \<Longrightarrow> inst_pure G (shut i)"
  "inst_pure G i \<Longrightarrow> inst_pure G (recovered named r i)"
proof -
  show q: "inst_pure G i \<Longrightarrow> inst_pure G (snd (queue_op e op i))" for op i
    by (simp add: queue_op_def case_prod_beta Let_def split: option.split)
  show "inst_pure G i \<Longrightarrow> inst_pure G (snd (queueSet e key enc ttl level i))"
    by (auto simp: queueSet_def intro!: q)
  show "inst_pure G i \<Longrightarrow> inst_pure G (fst (checkPrimary e i))"
    by (auto simp: checkPrimary_def Let_def)
  show "inst_pure G i \<Longrightarrow> inst_pure G (shut i)"
    unfolding shut_def Let_def by (intro inst_link) (simp_all add: inst_fold)
  show "inst_pure G i \<Longrightarrow> inst_pure G (recovered named r i)"
    by (auto simp: recovered_def Let_def clearLocal_def dropCachedValues_def inst_pure_def useSubmissionRing_def set_cursor_def
        stopCapTimer_def split: option.split)
qed

lemma inst_set_l1: "inst_pure G i \<Longrightarrow> G key lv \<Longrightarrow> inst_pure G (set_l1 HK e level key lv len ttl pos i)"
  by (auto simp: set_l1_def l1_at_def inst_pure_def tier_put)

section \<open>Reading\<close>

lemma inst_drain: "inst_pure G i \<Longrightarrow> inst_pure G (fst (drain e a i))"
proof -
  have rm: "inst_pure G (reconcileRemovals t a h i)" if "inst_pure G i" for t h i
  proof -
    have "inst_pure G (fold (reconcile_removal t a h) ks i)" for ks
      using that by (intro inst_fold) (auto simp: reconcile_removal_def Let_def)
    then show ?thesis by (auto simp: reconcileRemovals_def Let_def)
  qed
  have wr: "inst_pure G (reconcileWrites a i) = inst_pure G i" for i
    by (simp add: reconcileWrites_def Let_def)
  have rec: "inst_pure G (drain_record h pos i)" if "inst_pure G i" for h pos i
    using that by (auto simp: drain_record_def Let_def intro!: inst_drops split: option.split)
  have rs: "inst_pure G (fst (drain_records pos rs i))" if "inst_pure G i" for pos rs i
    using that by (induction pos rs i rule: drain_records.induct) (auto intro: rec inst_drops)
  have o: "inst_pure G (drain_owed t a i)" if "inst_pure G i" for t i
    using that by (auto simp: drain_owed_def Let_def wr intro!: rm)
  have w: "inst_pure G (drain_wrapped t a h i)" if "inst_pure G i" for t h i
    using inst_drops(1) [OF that] by (auto simp: drain_wrapped_def Let_def wr intro!: rm)
  have "inst_pure G (drain_ring t a i)" if "inst_pure G i" for t i
    using that by (auto simp: drain_ring_def Let_def intro!: rs o w)
  then show "inst_pure G i \<Longrightarrow> inst_pure G (fst (drain e a i))"
    by (auto simp: drain_def case_prod_beta intro!: inst_queue)
qed

text \<open>What a read hands out is pure, and so is what it leaves behind.\<close>

definition answer_pure :: "provenance \<Rightarrow> jsstr \<Rightarrow> jsval answer \<times> inst \<Rightarrow> bool" where
  "answer_pure G key r \<longleftrightarrow> (\<forall>v. fst r = Inr v \<longrightarrow> v = VUndef \<or> G key v) \<and> inst_pure G (snd r)"

lemma codec_okD:
  "codec_ok G g \<Longrightarrow> gCodec g = Some c \<Longrightarrow> G key v \<Longrightarrow> cEncode c v = Some w \<or> cDecode c v = Some w \<Longrightarrow> G key w"
  unfolding codec_ok_def by blast

lemma decode_pure: "codec_ok G g \<Longrightarrow> G key v \<Longrightarrow> decode_with g v = Inr w \<Longrightarrow> G key w"
  by (auto simp: decode_with_def split: option.splits dest: codec_okD)

lemma l2_pure:
  assumes "inst_pure G i" "arena_pure G a"
  shows "answer_pure G key (get_l2 HK e a level key i)"
proof (cases "n_get (eTick e) a key")
  case (Some raw)
  have raw: "G key raw" using arena_get [OF assms(2) Some] .
  have c: "codec_ok G (iCfg i)" using assms(1) by (simp add: inst_pure_def)
  have p: "inst_pure G (bump x i\<lparr>iL1 := l1Put (gL1 (iCfg i)) key v h n d own (iL1 i)\<rparr>)" if "G key v" for x v h n d own
    using that assms(1) by (auto simp: inst_pure_def tier_put)
  show ?thesis
    using assms(1) Some raw decode_pure [OF c raw] p
    by (auto simp: get_l2_def fill_from_l2_def answer_pure_def Let_def split: sum.splits if_splits option.splits)
qed (use assms in \<open>simp add: get_l2_def answer_pure_def\<close>)

lemma drained_pure:
  assumes "inst_pure G i" "arena_pure G a"
  shows "answer_pure G key (get_drained HK e a level key i)"
proof -
  have s: "v = VUndef \<or> G key v" if "map_of (l1Map (iL1 i)) key = Some en" "serve_l1 i (eV en) = Inr v" for en v
  proof -
    have "G key (eV en)" "codec_ok G (iCfg i)" using assms(1) tier_get that(1) by (auto simp: inst_pure_def)
    then show ?thesis using that(2) decode_pure [of G "iCfg i" key "eV en" v] by (auto simp: serve_l1_def split: if_splits)
  qed
  have h: "inst_pure G (bump c (i\<lparr>iL1 := l1_hit key (iL1 i)\<rparr>))" for c
    using assms(1) by (simp add: inst_pure_def tier_hit)
  have d: "answer_pure G key (get_l2 HK e a level key (i\<lparr>iL1 := l1Drop key (iL1 i)\<rparr>))"
    using inst_drops(3) [OF assms(1)] assms(2) by (rule l2_pure)
  show ?thesis
    using assms l2_pure [OF assms, of key HK e level] s h d
    by (auto simp: get_drained_def answer_pure_def split: option.split)
qed

lemma get_pure:
  assumes "inst_pure G i" "arena_pure G a"
  shows "fst (get HK e a (VStr key) lv i) = Inr v \<Longrightarrow> v = VUndef \<or> G key v"
    and "inst_pure G (fst (snd (get HK e a k lv i)))" "inst_pure G (fst (snd (has HK e a k i)))"
proof -
  have d: "answer_pure G key (get_drained HK e a level key (fst (drain e a i)))" for level key
    by (intro drained_pure inst_drain assms)
  show "fst (get HK e a (VStr key) lv i) = Inr v \<Longrightarrow> v = VUndef \<or> G key v"
    using d by (auto simp: get_def answer_pure_def case_prod_beta Let_def split: sum.splits)
  have g: "inst_pure G (fst (snd (get HK e a k lv j)))" if "inst_pure G j" for k lv j
    using drained_pure [OF inst_drain [OF that] assms(2)] that
    by (auto simp: get_def answer_pure_def case_prod_beta Let_def split: jsval.split sum.split)
  show "inst_pure G (fst (snd (get HK e a k lv i)))" using g assms(1) .
  have "inst_pure G (snd (has_drained HK e a key j))" if "inst_pure G j" for key j
    using g [OF that] g [OF inst_drops(3) [OF that]] that
    by (auto simp: has_drained_def Let_def case_prod_beta intro!: inst_drops split: option.split)
  then show "inst_pure G (fst (snd (has HK e a k i)))"
    using inst_drain assms(1) by (auto simp: has_def Let_def case_prod_beta split: jsval.split)
qed

end
