(* ===== verification/Provenance.thy ===== *)
theory Provenance
  imports Integrity
begin

text \<open>
  The operations of a process keep its values pure. \<open>keeps G N p q\<close> relates a process before and after; \<open>N\<close> are
  objects that it has. An operation that is handed a value keeps the process pure when the value is.
\<close>

definition pure_on :: "provenance \<Rightarrow> nat set \<Rightarrow> proc \<Rightarrow> bool" where
  "pure_on G N p \<longleftrightarrow> proc_pure G p \<and> (\<forall>n\<in>N. map_of (yInsts p) n \<noteq> None)"

definition keeps :: "provenance \<Rightarrow> nat set \<Rightarrow> proc \<Rightarrow> proc \<Rightarrow> bool" where
  "keeps G N p q \<longleftrightarrow> (pure_on G N p \<longrightarrow> pure_on G N q)"

named_theorems keeps_intros

lemma keeps_refl [simp]: "keeps G N p p"
  by (simp add: keeps_def)

lemma keeps_trans: "keeps G N p q \<Longrightarrow> keeps G N q r \<Longrightarrow> keeps G N p r"
  by (simp add: keeps_def)

lemma keeps_if_pure: "(pure_on G N p \<Longrightarrow> keeps G N p q) \<Longrightarrow> keeps G N p q"
  by (simp add: keeps_def)

lemma pure_inst: "pure_on G N p \<Longrightarrow> n \<in> N \<Longrightarrow> inst_pure G (inst_of n p)"
  by (fastforce simp: pure_on_def proc_pure_def inst_of_def)

lemma pure_arena: "pure_on G N p \<Longrightarrow> arena_pure G (yArena p)"
  by (simp add: pure_on_def proc_pure_def)

lemma pure_frame [simp]:
  "pure_on G N (p\<lparr>yReady := b\<rparr>) = pure_on G N p" "pure_on G N (p\<lparr>yMarkSeq := m\<rparr>) = pure_on G N p"
  "pure_on G N (p\<lparr>yClears := c\<rparr>) = pure_on G N p" "pure_on G N (p\<lparr>yOwed := ow\<rparr>) = pure_on G N p"
  "pure_on G N (p\<lparr>yCursor := k\<rparr>) = pure_on G N p" "pure_on G N (p\<lparr>ySubmit := d\<rparr>) = pure_on G N p"
  "pure_on G N (p\<lparr>yPrimary := d\<rparr>) = pure_on G N p" "pure_on G N (set_recov f p) = pure_on G N p"
  by (simp_all add: pure_on_def proc_pure_def set_recov_def)

lemma keeps_frame [simp]:
  "keeps G N p (q\<lparr>yReady := b\<rparr>) = keeps G N p q" "keeps G N p (q\<lparr>yMarkSeq := m\<rparr>) = keeps G N p q"
  "keeps G N p (q\<lparr>yClears := c\<rparr>) = keeps G N p q" "keeps G N p (q\<lparr>yOwed := ow\<rparr>) = keeps G N p q"
  "keeps G N p (q\<lparr>yCursor := k\<rparr>) = keeps G N p q" "keeps G N p (set_recov f q) = keeps G N p q"
  "keeps G N p (q\<lparr>ySubmit := d\<rparr>) = keeps G N p q" "keeps G N p (q\<lparr>yPrimary := d\<rparr>) = keeps G N p q"
  "keeps G N (p\<lparr>yClears := c\<rparr>) q = keeps G N p q"
  by (simp_all add: keeps_def)

lemma pure_onD:
  assumes "pure_on G N p"
  shows "map_of (yInsts p) n = Some i \<Longrightarrow> inst_pure G i" "arena_pure G (yArena p)"
    "m \<in> set (ySent p) \<Longrightarrow> op \<in> set (gmOps m) \<Longrightarrow> op_pure G op" "n \<in> N \<Longrightarrow> map_of (yInsts p) n \<noteq> None"
  using assms unfolding pure_on_def proc_pure_def by blast+

lemma pure_step:
  assumes "pure_on G N q" "ySent r = ySent q" "arena_pure G (yArena q) \<Longrightarrow> arena_pure G (yArena r)"
    and "\<And>n i. map_of (yInsts r) n = Some i \<Longrightarrow>
      \<exists>j. map_of (yInsts q) n = Some j \<and> (inst_pure G j \<longrightarrow> arena_pure G (yArena q) \<longrightarrow> inst_pure G i)"
    and "\<And>n. map_of (yInsts r) n = None \<Longrightarrow> map_of (yInsts q) n = None"
  shows "pure_on G N r"
  unfolding pure_on_def proc_pure_def
proof (intro conjI allI impI ballI)
  fix n i
  assume "map_of (yInsts r) n = Some i"
  then show "inst_pure G i" using assms(4) pure_onD(1,2) [OF assms(1)] by blast
next
  show "arena_pure G (yArena r)" using assms(3) pure_onD(2) [OF assms(1)] by blast
next
  fix m op
  assume "m \<in> set (ySent r)" "op \<in> set (gmOps m)"
  then show "op_pure G op" using assms(2) pure_onD(3) [OF assms(1)] by simp
next
  fix n
  assume "n \<in> N"
  then show "map_of (yInsts r) n \<noteq> None" using assms(5) pure_onD(4) [OF assms(1)] by blast
qed

lemma keeps_map:
  assumes "keeps G N p q" "\<And>i. inst_pure G i \<Longrightarrow> inst_pure G (f i)"
  shows "keeps G N p (upd_inst m f q)" "keeps G N p (all_open f q)" "keeps G N p (other_open m f q)"
proof -
  have "pure_on G N (upd_inst m f q)" "pure_on G N (all_open f q)" "pure_on G N (other_open m f q)" if "pure_on G N q"
    by (rule pure_step [OF that]; auto simp: assms(2) split: if_splits)+
  then show "keeps G N p (upd_inst m f q)" "keeps G N p (all_open f q)" "keeps G N p (other_open m f q)"
    using assms(1) by (simp_all add: keeps_def)
qed

lemma keeps_upd:
  assumes "keeps G N p q"
    and "\<And>i. map_of (yInsts q) m = Some i \<Longrightarrow> inst_pure G i \<Longrightarrow> arena_pure G (yArena q) \<Longrightarrow> inst_pure G (f i)"
  shows "keeps G N p (upd_inst m f q)"
proof -
  have "pure_on G N (upd_inst m f q)" if "pure_on G N q"
    by (rule pure_step [OF that]; simp split: if_splits) (use assms(2) in blast)
  then show ?thesis using assms(1) by (simp add: keeps_def)
qed

lemma keeps_put:
  assumes "keeps G N p q" "\<And>i. map_of (yInsts q) m = Some i \<Longrightarrow> inst_pure G i \<Longrightarrow> arena_pure G (yArena q) \<Longrightarrow> inst_pure G j"
  shows "keeps G N p (upd_inst m (\<lambda>_. j) q)"
  using assms by (rule keeps_upd)

lemma keeps_arena:
  assumes "keeps G N p q" "arena_pure G (yArena q) \<Longrightarrow> arena_pure G a"
  shows "keeps G N p (q\<lparr>yArena := a\<rparr>)"
proof -
  have "pure_on G N (q\<lparr>yArena := a\<rparr>)" if "pure_on G N q"
    by (rule pure_step [OF that]) (simp_all add: assms(2))
  then show ?thesis using assms(1) by (simp add: keeps_def)
qed

lemma keeps_owed: "keeps G N p (q\<lparr>yOwed := ow, yArena := a\<rparr>) = keeps G N p (q\<lparr>yArena := a\<rparr>)"
proof -
  have "proc_pure G (q\<lparr>yOwed := ow, yArena := a\<rparr>) = proc_pure G (q\<lparr>yArena := a\<rparr>)" by (simp add: proc_pure_def)
  then show ?thesis by (simp add: keeps_def pure_on_def)
qed

section \<open>Publishing\<close>

lemma others_keeps [keeps_intros]:
  "keeps G N p q \<Longrightarrow> keeps G N p (cancelCaps key q)" "keeps G N p q \<Longrightarrow> keeps G N p (cancelAllCaps q)"
  "keeps G N p q \<Longrightarrow> keeps G N p (dropOthers key m q)" "keeps G N p q \<Longrightarrow> keeps G N p (clearOthers m q)"
  "keeps G N p q \<Longrightarrow> keeps G N p (localDrop key q)"
  by (auto simp: cancelCaps_def cancelAllCaps_def dropOthers_def clearOthers_def localDrop_def intro!: keeps_map inst_drops)

lemma queued_keeps [keeps_intros]:
  assumes "keeps G N p q" "\<And>i. inst_pure G i \<Longrightarrow> inst_pure G (snd (f i))"
  shows "keeps G N p (queued f m q)"
  unfolding queued_def by (rule keeps_map(1) [OF assms(1)]) (simp add: case_prod_beta Let_def assms(2))

lemma publishArena_keeps:
  assumes "keeps G N p q" "stored_ok G"
  shows "G key enc \<Longrightarrow> keeps G N p (snd (publishArenaSet HK e key enc w ttl q))"
    "keeps G N p (snd (publishArenaDel HK key w q))" "keeps G N p (publishArenaClear w q)"
  using assms arena_set [of G "yArena q"] arena_removes [of G "yArena q"]
  by (auto simp: publishArenaSet_def publishArenaDel_def publishArenaClear_def case_prod_beta Let_def
      intro!: others_keeps keeps_arena split: option.split)

lemma submit_pure: "arena_pure G a \<Longrightarrow> sub_pure G op \<Longrightarrow> arena_pure G (snd (submit e ring op a))"
  by (simp add: submit_def arena_push split: option.split)

lemma publishRing_keeps:
  assumes "keeps G N p q"
  shows "G key enc \<Longrightarrow> keeps G N p (snd (publishRingSet HK e m ring key enc ttl q))"
    "keeps G N p (snd (publishRingDel HK e m ring key q))"
proof -
  have r: "keeps G N p (snd (publishRing HK e m ring key op q))" if "sub_pure G op" for op
    using assms submit_pure [OF _ that, of "yArena q" e ring]
    by (auto simp: publishRing_def case_prod_beta Let_def intro!: keeps_map others_keeps keeps_arena)
  show "G key enc \<Longrightarrow> keeps G N p (snd (publishRingSet HK e m ring key enc ttl q))"
    "keeps G N p (snd (publishRingDel HK e m ring key q))"
    by (simp_all add: publishRingSet_def publishRingDel_def r assms)
qed

lemma flush_at_keeps [keeps_intros]: "keeps G N p q \<Longrightarrow> keeps G N p (flush_at e m q)"
proof (rule keeps_if_pure)
  assume k: "keeps G N p q" and "pure_on G N p"
  then have q: "pure_on G N q" by (simp add: keeps_def)
  show "keeps G N p (flush_at e m q)"
  proof (cases "map_of (yInsts q) m")
    case (Some i)
    then have i: "inst_pure G i" using q by (auto simp: pure_on_def proc_pure_def)
    have u: "keeps G N p (upd_inst m (\<lambda>_. fst (flush e (yMarkSeq q) i)) q)"
      using k by (rule keeps_put) (simp add: i inst_outbox)
    show ?thesis
    proof (cases "snd (flush e (yMarkSeq q) i)")
      case None
      then show ?thesis using Some u by (simp add: flush_at_def case_prod_beta Let_def)
    next
      case ops: (Some ops)
      let ?r = "upd_inst m (\<lambda>_. fst (flush e (yMarkSeq q) i)) q"
      have r: "pure_on G N ?r" using u \<open>pure_on G N p\<close> by (simp add: keeps_def)
      have "op_pure G op" if "op \<in> set ops" for op using flush_sent [OF i ops] that by blast
      then have "pure_on G N (?r\<lparr>ySent := ySent ?r @ [\<lparr>gmId = x, gmNonce = y, gmOps = ops\<rparr>]\<rparr>)" for x y
        using pure_onD(1-3) [OF r] pure_onD(4) [OF r]
        unfolding pure_on_def proc_pure_def by (intro conjI allI ballI impI) (simp_all, fastforce+)
      then show ?thesis using Some ops
        by (simp add: flush_at_def case_prod_beta Let_def keeps_def)
    qed
  qed (use k in \<open>simp add: flush_at_def\<close>)
qed

lemma schedule_keeps [keeps_intros]: "keeps G N p q \<Longrightarrow> keeps G N p (schedule e m b q)"
  by (auto simp: schedule_def Let_def intro!: flush_at_keeps keeps_map inst_link split: option.split)

lemma outbox_keeps:
  "keeps G N p q \<Longrightarrow> op_pure G op \<Longrightarrow> keeps G N p (publishOutbox e m key op b q)"
  "keeps G N p q \<Longrightarrow> op_pure G op \<Longrightarrow> keeps G N p (publishOutboxOp e m op supersedes q)"
  "keeps G N p q \<Longrightarrow> G key enc \<Longrightarrow> keeps G N p (retimeOutbox e m key enc cap q)"
proof -
  show "keeps G N p q \<Longrightarrow> op_pure G op \<Longrightarrow> keeps G N p (publishOutbox e m key op b q)"
    unfolding publishOutbox_def by (intro schedule_keeps others_keeps keeps_map inst_push)
  show "keeps G N p q \<Longrightarrow> op_pure G op \<Longrightarrow> keeps G N p (publishOutboxOp e m op supersedes q)"
    unfolding publishOutboxOp_def Let_def by (auto intro!: schedule_keeps others_keeps keeps_map inst_push)
  show "keeps G N p q \<Longrightarrow> G key enc \<Longrightarrow> keeps G N p (retimeOutbox e m key enc cap q)"
    unfolding retimeOutbox_def by (intro schedule_keeps keeps_map inst_link inst_push) simp_all
qed

lemma degrade_keeps [keeps_intros]: "keeps G N p q \<Longrightarrow> keeps G N p (degrade q)"
  by (auto simp: degrade_def Let_def intro!: keeps_map)

lemma check_at_keeps [keeps_intros]: "keeps G N p q \<Longrightarrow> keeps G N p (check_at e m q)"
  by (auto simp: check_at_def case_prod_beta Let_def intro!: degrade_keeps keeps_put inst_queue split: option.split)

lemma mark_keeps [keeps_intros]:
  "keeps G N p q \<Longrightarrow> keeps G N p (markWrite key h pos sub m q)" "keeps G N p q \<Longrightarrow> keeps G N p (markDelete key h pos sub m q)"
  by (auto simp: markWrite_def markDelete_def case_prod_beta Let_def intro!: keeps_map)

lemma recover_keeps: "keeps G N p q \<Longrightarrow> arena_pure G (raArena r) \<Longrightarrow> keeps G N p (tryRecover r q)"
  by (auto simp: tryRecover_def intro!: keeps_map inst_queue keeps_arena)

section \<open>The primary\<close>

lemma rounds_keeps: "keeps G N p q \<Longrightarrow> keeps G N p (primary_rounds r q)"
proof (induction r arbitrary: q)
  case (Suc r)
  have "keeps G N p (fold primary_record rs u)" if "keeps G N p u" for rs u
    using that by (induction rs arbitrary: u) (simp_all add: primary_record_def keeps_map inst_drops)
  then show ?case using Suc by (auto simp: Let_def intro!: keeps_map inst_drops)
qed simp

lemma drains_keeps:
  assumes "stored_ok G"
  shows "keeps G N p q \<Longrightarrow> keeps G N p (snd (drainSubmissions HK e b q))" "keeps G N p q \<Longrightarrow> keeps G N p (drain_until_empty HK e r q)"
proof -
  show d: "keeps G N p q \<Longrightarrow> keeps G N p (snd (drainSubmissions HK e b q))" for b q
    using arena_drain [OF _ assms]
    by (auto simp: drainSubmissions_def primaryInvalidate_def case_prod_beta Let_def intro!: rounds_keeps keeps_arena)
  show "keeps G N p q \<Longrightarrow> keeps G N p (drain_until_empty HK e r q)"
  proof (induction r arbitrary: q)
    case (Suc r)
    then show ?case using d [of q 8192] by (simp add: case_prod_beta)
  qed simp
qed

lemma clearFor_keeps:
  "keeps G N p q \<Longrightarrow> keeps G N p (l3ClearOpenFor who q)" "keeps G N p q \<Longrightarrow> keeps G N p (snd (l3ClearSettleFor who q))"
proof -
  show "keeps G N p q \<Longrightarrow> keeps G N p (l3ClearOpenFor who q)"
    unfolding l3ClearOpenFor_def clearBegin_def by (auto simp: keeps_owed intro: keeps_arena)
  show "keeps G N p q \<Longrightarrow> keeps G N p (snd (l3ClearSettleFor who q))"
    unfolding l3ClearSettleFor_def clearSettle_def Let_def by (auto simp: keeps_owed intro: keeps_arena)
qed

lemma release_keeps: "keeps G N p q \<Longrightarrow> keeps G N p (snd (release_loop who q))"
proof (induction who q rule: release_loop.induct)
  case (1 who q)
  obtain s p1 where s: "l3ClearSettleFor who q = (s, p1)" by force
  have "keeps G N p p1" using clearFor_keeps(2) [OF 1(2), of who] s by simp
  then show ?case using 1 s by (simp add: release_loop.simps [of who q] case_prod_beta)
qed

lemma apply_op_keeps:
  assumes "stored_ok G" "keeps G N p q" "op_pure G op"
  shows "keeps G N p (apply_op HK e m op q)"
proof (cases op)
  case (ORetime key enc cap)
  then show ?thesis
    using assms arena_cap [OF _ assms(1), of _ key enc HK "eFits e key" "eTick e" cap]
    by (auto simp: apply_op_def case_prod_beta Let_def intro!: others_keeps keeps_arena)
qed (use assms in \<open>auto simp: apply_op_def intro!: others_keeps publishArena_keeps keeps_map inst_drops clearFor_keeps
    split: option.split\<close>)

lemma channel_keeps:
  assumes "stored_ok G" "\<And>m op. ev = Batch m \<Longrightarrow> op \<in> set (gmOps m) \<Longrightarrow> op_pure G op"
  shows "keeps G N p (snd (on_channel HK e ev (l, p)))"
proof (cases ev)
  case (Batch m)
  have "keeps G N p (fold (apply_op HK e m) ops q)" if "keeps G N p q" "\<And>op. op \<in> set ops \<Longrightarrow> op_pure G op" for ops q
    using that by (induction ops arbitrary: q) (simp_all add: apply_op_keeps [OF assms(1)])
  then show ?thesis
    using Batch assms(2) [OF Batch] drains_keeps(2) [OF assms(1) keeps_refl, of N p HK e 512] by (simp add: applyBatch_def)
next
  case Gone
  have "keeps G N p q" if "release_loop who p = (k, q)" for who k q
    using release_keeps [OF keeps_refl, of G N p who] that by simp
  then show ?thesis using Gone by (auto simp: releaseWorker_def split: option.split prod.split)
qed (simp add: drains_keeps(1) [OF assms(1)])

lemma tick_keeps: "stored_ok G \<Longrightarrow> keeps G N p (maintenance_tick HK e swept p)"
proof -
  assume s: "stored_ok G"
  have "arena_pure G (fold (\<lambda>key. n_sweep (hash_of HK key) (eTick e) key) ks a)" if "arena_pure G a" for ks a
    using that by (induction ks arbitrary: a) (simp_all add: arena_removes)
  then show ?thesis
    by (auto simp: maintenance_tick_def Let_def intro!: keeps_arena drains_keeps(1) [OF s])
qed

section \<open>Writes\<close>

lemma capL2_keeps:
  assumes "stored_ok G" "G key enc"
  shows "keeps G N p (snd (capL2AfterL3Failure HK e n key enc cap p))"
  using assms arena_cap [OF _ assms, of "yArena p" HK "eFits e key" "eTick e" cap]
  by (auto simp: capL2AfterL3Failure_def case_prod_beta Let_def intro!: keeps_map outbox_keeps others_keeps keeps_arena)

lemma settled_keeps:
  assumes "stored_ok G" "G key enc"
  shows "keeps G N p (queueSet_settled HK e n key enc ttl level okay p)"
proof -
  let ?c = "if ttl > 0 then min ttl (gFailTtl (iCfg (inst_of n p))) else gFailTtl (iCfg (inst_of n p))"
  have t: "keeps G N p (snd (case map_of (l1Map (iL1 (inst_of n p))) key of
               None \<Rightarrow> (False, p)
             | Some en \<Rightarrow> if eExp en = 0 \<or> eExp en > d
                 then (True, upd_inst n (l1_at (l1_set key (en\<lparr>eExp := d\<rparr>))) p) else (False, p)))" (is "keeps G N p (snd ?x)") for d
  proof (cases "map_of (l1Map (iL1 (inst_of n p))) key")
    case (Some en)
    have "keeps G N p (upd_inst n (l1_at (l1_set key (en\<lparr>eExp := d\<rparr>))) p)"
    proof (rule keeps_upd [OF keeps_refl])
      fix i
      assume i: "map_of (yInsts p) n = Some i" "inst_pure G i"
      then have "G key (eV en)" using Some tier_get by (auto simp: inst_of_def inst_pure_def)
      then show "inst_pure G (l1_at (l1_set key (en\<lparr>eExp := d\<rparr>)) i)"
        using i by (auto simp: inst_pure_def l1_at_def tier_set)
    qed
    then show ?thesis using Some by simp
  qed simp
  have c: "keeps G N p (snd (capL2AfterL3Failure HK e n key enc cap (snd x)))" if "keeps G N p (snd x)" for x :: "bool \<times> proc" and cap
    using that capL2_keeps [OF assms] by (rule keeps_trans)
  have "keeps G N p (capAfterL3Failure HK e n key enc ttl p)"
    unfolding capAfterL3Failure_def Let_def case_prod_beta
    by (simp only: if_split fst_conv snd_conv) (auto intro!: keeps_map(1) c t)
  then show ?thesis by (simp add: queueSet_settled_def)
qed

lemma set_publish_keeps:
  assumes "stored_ok G" "G key enc" "keeps G N p q"
  shows "keeps G N p (snd (set_publish HK e level pos key enc ttl n q))"
proof -
  have 1: "keeps G N p (set_evict HK e pos key n q)"
    using publishRing_keeps(2) [OF assms(3), of HK e n _ key] publishArena_keeps(2) [OF assms(3,1), of HK key 0] assms(3)
    by (auto simp: set_evict_def Let_def case_prod_beta intro!: keeps_intros keeps_map outbox_keeps)
  have 2: "keeps G N p (set_worker HK e level pos key enc ttl n q)"
    using publishRing_keeps(1) [OF assms(3,2), of HK e n _ ttl] assms(2,3)
    by (auto simp: set_worker_def Let_def case_prod_beta intro!: keeps_intros keeps_map outbox_keeps inst_queue)
  have d: "inst_pure G (bump c i\<lparr>iL1 := l1Drop key (iL1 i)\<rparr>)" if "inst_pure G i" for c i
    using inst_drops(3) [of G "bump c i" key] that by simp
  have 3: "keeps G N p (snd (set_primary HK e level key enc ttl n q))"
    using publishArena_keeps(1) [OF assms(3,1,2), of HK e 0 ttl]
    by (auto simp: set_primary_def Let_def case_prod_beta l1_at_def intro!: keeps_intros keeps_map inst_queue inst_drops d)
  show ?thesis using 1 2 3 by (auto simp: set_publish_def intro!: keeps_intros inst_queue)
qed

lemma set_commit_keeps:
  assumes "stored_ok G" "G key lv" "G key enc"
  shows "keeps G N p (snd (set_commit HK e level key lv enc ttl n p))"
proof -
  have m: "keeps G N p (upd_inst n (releaseMarks key) p)" by (simp add: keeps_map)
  have "keeps G N p (upd_inst n (set_l1 HK e level key lv len ttl pos) (upd_inst n (releaseMarks key) p))" for len pos
    by (intro keeps_map(1) [OF m] inst_set_l1 assms(2))
  then have "keeps G N p (snd (set_publish HK e level pos' key enc ttl n
      (upd_inst n (set_l1 HK e level key lv len ttl pos) (upd_inst n (releaseMarks key) p))))" for pos' len pos
    by (rule set_publish_keeps [OF assms(1,3)])
  then show ?thesis using m by (auto simp: set_commit_def Let_def case_prod_beta split: sum.split)
qed

text \<open>What \<open>prepare\<close> makes of a value is as pure as the value.\<close>

lemma prepare_pure:
  assumes "inst_pure G i" "stored_ok G" "G key v" "prepare i key v = Inr (Inr (lv, enc))"
  shows "G key lv \<and> G key enc"
proof -
  have c: "codec_ok G (iCfg i)" using assms(1) by (simp add: inst_pure_def)
  have view: "G key (VBuf b)" if "v = VView b" for b
    using assms(2,3) that unfolding stored_ok_def by (metis storedForm.simps(2))
  obtain w where w: "accept_value (cNoCodec (gL1 (iCfg i))) v = Inr w" "encode_value (gCodec (iCfg i)) w = Inr enc"
    "l1_value (iCfg i) w enc = Inr lv"
    using assms(4) by (auto simp: prepare_def split: option.splits sum.splits)
  have gw: "G key w" using w(1) assms(3) view by (auto simp: accept_value_def split: jsval.splits if_splits)
  have ge: "G key enc" using w(2) gw codec_okD [OF c] by (auto simp: encode_value_def split: option.splits jsval.splits)
  have "G key lv" using w(3) gw ge decode_pure [OF c ge] by (auto simp: l1_value_def split: if_splits)
  then show ?thesis using ge by simp
qed

lemma setKey_keeps:
  assumes "stored_ok G" "\<And>key. k = VStr key \<Longrightarrow> G key v" "n \<in> N"
  shows "keeps G N p (snd (setKey HK e k v opts n p))"
proof -
  have b: "keeps G N q (snd (set_body HK e level key v t n q))" if "k = VStr key" for level key t q
  proof (rule keeps_if_pure)
    assume "pure_on G N q"
    then have i: "inst_pure G (inst_of n q)" using assms(3) by (rule pure_inst)
    show "keeps G N q (snd (set_body HK e level key v t n q))"
      using prepare_pure [OF i assms(1) assms(2) [OF that]] set_commit_keeps [OF assms(1)]
      by (auto simp: set_body_def intro!: keeps_map split: option.split sum.split prod.split)
  qed
  have i: "keeps G N p (upd_inst n (bump ''sets'') (check_at e n p))" by (intro keeps_map keeps_intros) simp_all
  show ?thesis
    using i keeps_trans [OF i b]
    by (auto simp: setKey_def Let_def intro!: keeps_map split: sum.split jsval.split option.split)
qed

lemma take_last_keeps: "keeps G N p q \<Longrightarrow> keeps G N p (snd (take_last m q))"
  by (simp add: take_last_def keeps_map)

lemma setAsync_keeps:
  assumes "stored_ok G" "\<And>key. k = VStr key \<Longrightarrow> G key v" "n \<in> N"
  shows "keeps G N p (snd (setAsync HK e k v opts n p))"
  using setKey_keeps [OF assms, where p = p and HK = HK and e = e and opts = opts]
    take_last_keeps [of G N p "snd (setKey HK e k v opts n p)" n]
  by (auto simp: setAsync_def case_prod_beta Let_def split: sum.split bool.split)

lemma delete_keeps:
  assumes "stored_ok G"
  shows "keeps G N p (snd (delete HK e k n p))" "keeps G N p (snd (deleteAsync HK e k n p))"
proof -
  have p: "keeps G N q (snd (delete_primary HK e key n q))" for key q
    using publishArena_keeps(2) [OF keeps_refl assms, of N q HK key 0]
    by (auto simp: delete_primary_def Let_def case_prod_beta intro!: keeps_intros keeps_map inst_drops inst_queue)
  have w: "keeps G N q (snd (delete_worker HK e key n q))" for key q
  proof -
    let ?q3 = "queued (queue_op e (delete_op key)) n
             (if vDead (iLive (inst_of n q)) then upd_inst n (l1_at (l1Drop key)) q
              else markDelete key (hash_of HK key) (ringHeadNow (yReady q) (yArena q) (inst_of n q)) (- 1) n
                     (upd_inst n (l1_at (l1Drop key)) q))"
    have 3: "keeps G N q ?q3" by (auto intro!: keeps_intros keeps_map inst_drops inst_queue)
    then have "keeps G N q (snd (publishRingDel HK e n r key ?q3))" for r by (rule publishRing_keeps)
    then show ?thesis
      using outbox_keeps(1) [OF 3] by (auto simp: delete_worker_def Let_def case_prod_beta intro!: keeps_map)
  qed
  have i: "keeps G N p (upd_inst n (bump ''deletes'') (check_at e n p))" by (intro keeps_map keeps_intros) simp_all
  show d: "keeps G N p (snd (delete HK e k n p))"
    using keeps_trans [OF i w] keeps_trans [OF i p]
    by (auto simp: delete_def Let_def case_prod_beta intro!: check_at_keeps split: jsval.split)
  show "keeps G N p (snd (deleteAsync HK e k n p))"
    using d by (simp add: deleteAsync_def case_prod_beta Let_def take_last_keeps)
qed

lemma clearGen_keeps:
  "keeps G N p (openClearGen e n p)" "keeps G N p (snd (settleClearGen e again n p))" "keeps G N p (snd (queueClear_settled e n p))"
proof -
  show "keeps G N p (openClearGen e n p)" by (auto simp: openClearGen_def clearBegin_def intro!: outbox_keeps keeps_arena)
  show s: "keeps G N p (snd (settleClearGen e again n p))" for p again
    by (auto simp: settleClearGen_def clearSettle_def Let_def intro!: keeps_intros outbox_keeps keeps_arena)
  show "keeps G N p (snd (queueClear_settled e n p))"
    using s [of "p\<lparr>yClears := yClears p - 1\<rparr>" False] by (simp add: queueClear_settled_def)
qed

lemma clearAll_keeps:
  assumes "stored_ok G"
  shows "keeps G N p (clearAll e n p)" "keeps G N p (snd (clearAsync e n p))"
proof -
  let ?p1 = "upd_inst n clearLocal p"
  let ?p2 = "if iQueue (inst_of n ?p1) \<noteq> None
             then queued (queue_op e clear_op) n (openClearGen e n (?p1\<lparr>yClears := yClears ?p1 + 1\<rparr>)) else ?p1"
  have 1: "keeps G N p ?p1" by (simp add: keeps_map inst_drops)
  have 2: "keeps G N p ?p2"
    using keeps_trans [OF 1, of "openClearGen e n (?p1\<lparr>yClears := yClears ?p1 + 1\<rparr>)"]
      clearGen_keeps(1) [of G N "?p1\<lparr>yClears := yClears ?p1 + 1\<rparr>" e n] 1
    by (auto intro!: queued_keeps inst_queue)
  show k: "keeps G N p (clearAll e n p)"
    using publishArena_keeps(3) [OF 2 assms] outbox_keeps(2) [OF 2]
    by (auto simp: clearAll_def Let_def intro!: others_keeps)
  show "keeps G N p (snd (clearAsync e n p))" using k by (simp add: clearAsync_def case_prod_beta Let_def take_last_keeps)
qed

section \<open>Reads\<close>

lemma pure_mapped: "arena_pure G (yArena p) \<Longrightarrow> arena_pure G (mapped p)"
  by (simp add: mapped_def no_store_def arena_pure_def)

lemma read_keeps:
  assumes "n \<in> N"
  shows "keeps G N p (snd (get_at HK e k lv n p))" "keeps G N p (snd (has_at HK e k n p))"
proof -
  have "keeps G N p (upd_inst n (\<lambda>_. fst (snd (get HK (env_in p e) (mapped p) k lv (inst_of n p)))) p)"
    "keeps G N p (upd_inst n (\<lambda>_. fst (snd (has HK (env_in p e) (mapped p) k (inst_of n p)))) p)"
    by (rule keeps_put [OF keeps_refl]; simp add: inst_of_def get_pure pure_mapped)+
  then show "keeps G N p (snd (get_at HK e k lv n p))" "keeps G N p (snd (has_at HK e k n p))"
    by (auto simp: get_at_def has_at_def case_prod_beta Let_def intro!: degrade_keeps)
qed

lemma get_at_pure:
  assumes "pure_on G N p" "n \<in> N" "get_at HK e (VStr key) lv n p = (Inr v, q)"
  shows "v = VUndef \<or> G key v"
  using get_pure(1) [OF pure_inst [OF assms(1,2)] pure_mapped [OF pure_arena [OF assms(1)]], of HK "env_in p e" key lv v] assms(3)
  by (simp add: get_at_def case_prod_beta Let_def)

lemma getAsync_keeps:
  assumes "n \<in> N"
  shows "keeps G N p (snd (getAsync HK e k lv n p))" "keeps G N p (snd (hasAsync HK e k n p))"
proof -
  show "keeps G N p (snd (getAsync HK e k lv n p))"
    using read_keeps(1) [OF assms, of G p HK e k lv]
    by (auto simp: getAsync_def start_fetch_def Let_def case_prod_beta intro!: keeps_map
        split: sum.split jsval.split option.split)
  show "keeps G N p (snd (hasAsync HK e k n p))"
    using read_keeps(2) [OF assms, of G p HK e k]
    by (auto simp: hasAsync_def Let_def case_prod_beta split: sum.split bool.split jsval.split)
qed

lemma block_keeps: "stored_ok G \<Longrightarrow> keeps G N p (snd (promotionBlock HK e n key mark cm p))"
  by (auto simp: promotionBlock_def Let_def intro!: drains_keeps split: option.split)

lemma fill_keeps:
  assumes "stored_ok G" "G key enc" "G key v"
  shows "keeps G N p (snd (fillFromL3 HK e n key ttl level enc v p))"
proof -
  have d: "keeps G N p (snd (publishL3Derived HK e key enc t m b p))" for t m b
    using publishArena_keeps(1) [OF keeps_refl assms(1,2), of N p HK e 0 t]
    by (auto simp: publishL3Derived_def case_prod_beta Let_def intro!: others_keeps)
  have l: "inst_pure G i \<Longrightarrow> inst_pure G (l1_at (l1Put c key enc h len x own) i)"
    "inst_pure G i \<Longrightarrow> inst_pure G (l1_at (l1Put c key v h len x own) i)" for i c h len x own
    using assms(2,3) by (simp_all add: inst_pure_def l1_at_def tier_put)
  show ?thesis
    by (auto simp: fillFromL3_def Let_def intro!: keeps_map(1) d l split: sum.split)
qed

lemma accept_pure:
  assumes "codec_ok G g" "stored_ok G" "G key raw" "acceptFromL3 g raw = Some (enc, v)"
  shows "G key enc \<and> G key v"
proof -
  have view: "G key (VBuf b)" if "raw = VView b" for b
    using assms(2,3) that unfolding stored_ok_def by (metis storedForm.simps(2))
  show ?thesis
    using assms(3,4) view codec_okD [OF assms(1)] by (auto simp: acceptFromL3_def split: option.splits jsval.splits)
qed

lemma fetched_pure:
  assumes "stored_ok G" "pure_on G N p" "n \<in> N" "\<And>raw ttl. reply = L3Rec raw ttl \<Longrightarrow> G key raw"
  shows "keeps G N p (snd (fetched HK e n level key mark cm reply p))"
    and "fst (fetched HK e n level key mark cm reply p) = Inr v \<Longrightarrow> v = VUndef \<or> G key v"
proof -
  let ?q = "snd (promotionBlock HK e n key mark cm (upd_inst n (bump ''l3Hits'') p))"
  have b: "keeps G N p ?q" by (rule keeps_trans [OF _ block_keeps [OF assms(1)]]) (simp add: keeps_map)
  have c: "codec_ok G (iCfg (inst_of n p))" using pure_inst [OF assms(2,3)] by (simp add: inst_pure_def)
  have a: "G key enc \<and> G key w" if "reply = L3Rec raw ttl" "acceptFromL3 (iCfg (inst_of n p)) raw = Some (enc, w)" for raw ttl enc w
    using accept_pure [OF c assms(1) assms(4) that(2)] that(1) by blast
  have f: "keeps G N p (snd (fillFromL3 HK e n key ttl level enc w ?q))" if "G key enc" "G key w" for ttl enc w
    using b fill_keeps [OF assms(1) that] by (rule keeps_trans)
  show "keeps G N p (snd (fetched HK e n level key mark cm reply p))"
    using a b f by (auto simp: fetched_def case_prod_beta Let_def intro!: keeps_map
        split: l3Reply.split option.split sum.split)
  show "fst (fetched HK e n level key mark cm reply p) = Inr v \<Longrightarrow> v = VUndef \<or> G key v"
    using a by (auto simp: fetched_def case_prod_beta Let_def split: l3Reply.splits option.splits sum.splits if_splits)
qed

lemma done_pure:
  assumes "stored_ok G" "pure_on G N p" "n \<in> N" "\<And>raw ttl. reply = L3Rec raw ttl \<Longrightarrow> G key raw"
    and "getAsync_done HK e n level key reply p = Some (x, q)"
  shows "keeps G N p q" and "x = Inr v \<Longrightarrow> v = VUndef \<or> G key v"
proof -
  obtain mark cm where f: "x = fst (fetched HK e n level key mark cm reply p)"
    "q = upd_inst n (\<lambda>i. i\<lparr>iReads := AList.delete (level, key) (iReads i)\<rparr>) (snd (fetched HK e n level key mark cm reply p))"
    using assms(5) by (auto simp: getAsync_done_def case_prod_beta Let_def split: option.splits)
  have k: "keeps G N p (snd (fetched HK e n level key mark cm reply p))"
    "fst (fetched HK e n level key mark cm reply p) = Inr v \<Longrightarrow> v = VUndef \<or> G key v"
    using fetched_pure [of G N p n reply key] assms(1-4) by blast+
  show "keeps G N p q" using k(1) f(2) by (simp add: keeps_map)
  show "x = Inr v \<Longrightarrow> v = VUndef \<or> G key v" using k(2) f(1) by simp
qed

section \<open>Timers and the end of an object\<close>

lemma timers_keep:
  "keeps G N p (upd_inst n (send_done failed) p)" "keeps G N p (upd_inst n (runCaps HK e' a) p)"
  "keeps G N p (upd_inst n (\<lambda>i. i\<lparr>iLink := (iLink i)\<lparr>kDoorbell := False\<rparr>\<rparr>) p)"
  "keeps G N p (upd_inst n (\<lambda>i. l1_at (\<lambda>s. fst (onGc (gL1 (iCfg i)) used limit s)) i) p)"
  "keeps G N p (upd_inst n (useSubmissionRing r) p)" "keeps G N p (upd_inst n (\<lambda>i. i\<lparr>iQueue := q'\<rparr>) p)"
proof -
  have "inst_pure G i \<Longrightarrow> inst_pure G (l1_at (\<lambda>s. fst (onGc (gL1 (iCfg i)) used limit s)) i)" for i
    by (simp add: inst_pure_def l1_at_def tier_gc)
  then show "keeps G N p (upd_inst n (\<lambda>i. l1_at (\<lambda>s. fst (onGc (gL1 (iCfg i)) used limit s)) i) p)"
    by (rule keeps_map(1) [OF keeps_refl])
qed (auto intro!: keeps_map inst_outbox inst_caps inst_link)

lemma close_keeps: "keeps G N p (close w n p)" "keeps G N p (close_drained n p)" "keeps G N p (close_done n p)"
proof -
  have "keeps G N p (snd (snd (closeLocal n p)))"
    by (auto simp: closeLocal_def Let_def intro!: keeps_map inst_queue)
  then show "keeps G N p (close w n p)" by (auto simp: close_def intro!: keeps_map)
  show "keeps G N p (close_drained n p)" "keeps G N p (close_done n p)"
    by (simp_all add: close_drained_def close_done_def keeps_map)
qed

end
