(* ===== verification/Cluster.thy ===== *)
theory Cluster
  imports ReadOnly Provenance
begin

text \<open>
  Several processes over shared arenas: what \<^verbatim>\<open>open\<close>, \<^verbatim>\<open>attachWorker\<close> and \<^verbatim>\<open>install\<close> of
  \<^verbatim>\<open>src/src/turbokv.js\<close> compose (lines 902 to 965, 1120 to 1162 and 1323 to 1352). A process is numbered; each maps
  one arena, and a step of one is seen by all that map the same. A worker's batches wait on its
  channel, in the order of sending, for the process that forked it; \<open>uSeen\<close> counts those that have been
  delivered and \<open>uLast\<close> is what \<open>install\<close> keeps of the last. A process that has stopped stays in \<open>uProcs\<close>
  with what it had sent. An arena that its primary has closed stays mapped where it is mapped.
\<close>

record cluster =
  uMem :: "nat \<Rightarrow> arena"
  uProcs :: "nat \<Rightarrow> (nat \<times> proc) option"
  uWorker :: "nat \<Rightarrow> bool"
  uParent :: "nat \<Rightarrow> nat"
  uDown :: "nat \<Rightarrow> bool"
  uSeen :: "nat \<Rightarrow> nat"
  uLast :: "nat \<Rightarrow> cacheMsg option"

section \<open>The steps\<close>

text \<open>
  The calls, callbacks and timers of the cache object \<open>n\<close> of a process. \<open>G\<close> says which values come in from
  outside under which key: what the callers of \<open>set\<close> write, what an L3 answers and what its queue confirms.
  With \<open>\<lambda>_ _. True\<close> anything does; the properties hold for every \<open>G\<close>.
\<close>

inductive object_step :: "provenance \<Rightarrow> (jsstr \<Rightarrow> hash option) \<Rightarrow> nat \<Rightarrow> proc \<Rightarrow> proc \<Rightarrow> bool" for G HK n where
  ring: "object_step G HK n p (upd_inst n (useSubmissionRing r) p)"
| set: "(\<And>key. k = VStr key \<Longrightarrow> G key v) \<Longrightarrow> object_step G HK n p (snd (setKey HK e k v opts n p))"
| set_async: "(\<And>key. k = VStr key \<Longrightarrow> G key v) \<Longrightarrow> object_step G HK n p (snd (setAsync HK e k v opts n p))"
| del: "object_step G HK n p (snd (delete HK e k n p))"
| del_async: "object_step G HK n p (snd (deleteAsync HK e k n p))"
| clear: "object_step G HK n p (clearAll e n p)"
| clear_async: "object_step G HK n p (snd (clearAsync e n p))"
| get: "object_step G HK n p (snd (get_at HK e k lv n p))"
| has: "object_step G HK n p (snd (has_at HK e k n p))"
| get_async: "object_step G HK n p (snd (getAsync HK e k lv n p))"
| get_done: "gHasL3 (iCfg (inst_of n p)) \<Longrightarrow> (\<And>raw ttl. reply = L3Rec raw ttl \<Longrightarrow> G key raw) \<Longrightarrow> getAsync_done HK e n level key reply p = Some (v, q) \<Longrightarrow> object_step G HK n p q"
| has_async: "object_step G HK n p (snd (hasAsync HK e k n p))"
| queue: "map_of (yInsts p) n = Some i \<Longrightarrow> iQueue i = Some q \<Longrightarrow> queue_step q q' \<Longrightarrow>
    object_step G HK n p (upd_inst n (\<lambda>i. i\<lparr>iQueue := Some q'\<rparr>) p)"
| set_settled: "G key enc \<Longrightarrow> object_step G HK n p (queueSet_settled HK e n key enc ttl level okay p)"
| clear_settled: "object_step G HK n p (snd (queueClear_settled e n p))"
| chase: "gId (iCfg (inst_of n p)) \<noteq> 0 \<Longrightarrow> object_step G HK n p (snd (settleClearGen e True n p))"
| flush: "object_step G HK n p (flush_at e n p)"
| sent: "object_step G HK n p (upd_inst n (send_done failed) p)"
| doorbell: "object_step G HK n p (upd_inst n (\<lambda>i. i\<lparr>iLink := (iLink i)\<lparr>kDoorbell := False\<rparr>\<rparr>) p)"
| caps: "object_step G HK n p (upd_inst n (runCaps HK (env_in p e) (yArena p)) p)"
| gc: "object_step G HK n p (upd_inst n (\<lambda>i. l1_at (\<lambda>s. fst (onGc (gL1 (iCfg i)) used limit s)) i) p)"
| close: "object_step G HK n p (close w n p)"
| close_drained: "object_step G HK n p (close_drained n p)"
| close_done: "object_step G HK n p (close_done n p)"

text \<open>What \<open>create\<close> leaves: nothing but the capacities.\<close>

definition created :: "nat \<Rightarrow> (nat \<times> nat) list \<Rightarrow> arena" where
  "created cap rings =
     \<lparr>aMap = [], aRing = [], aRingCap = cap, aGen = 0, aSettled = 0,
      aSubs = List.map (\<lambda>(slot, bytes). (slot, \<lparr>sbRecs = [], sbHead = 0, sbTail = 0, sbBytes = bytes\<rparr>)) rings\<rparr>"

text \<open>Process \<open>k\<close> has become \<open>q\<close>: its arena is everybody's.\<close>

definition remap :: "nat \<Rightarrow> nat \<Rightarrow> proc \<Rightarrow> cluster \<Rightarrow> cluster" where
  "remap k x q u = u\<lparr>uProcs := (uProcs u)(k \<mapsto> (x, q))\<rparr>"

definition share :: "nat \<Rightarrow> arena \<Rightarrow> cluster \<Rightarrow> cluster" where
  "share x a u =
     u\<lparr>uMem := (uMem u)(x := a),
       uProcs := (\<lambda>j. map_option (\<lambda>(y, p). (y, if y = x then p\<lparr>yArena := a\<rparr> else p)) (uProcs u j))\<rparr>"

definition act :: "nat \<Rightarrow> proc \<Rightarrow> cluster \<Rightarrow> cluster" where
  "act k q u = (case uProcs u k of None \<Rightarrow> u | Some (x, _) \<Rightarrow> remap k x q (share x (yArena q) u))"

text \<open>\<open>k\<close> takes the next message of \<open>j\<close>.\<close>

definition deliver :: "(jsstr \<Rightarrow> hash option) \<Rightarrow> env \<Rightarrow> nat \<Rightarrow> nat \<Rightarrow> cluster \<Rightarrow> cluster" where
  "deliver HK e k j u =
     (case (uProcs u k, uProcs u j) of
        (Some (_, p), Some (_, pj)) \<Rightarrow>
          (let (l, q) = on_channel HK e (Batch (ySent pj ! uSeen u j)) (uLast u j, p)
           in (act k q u)\<lparr>uSeen := (uSeen u)(j := Suc (uSeen u j)), uLast := (uLast u)(j := l)\<rparr>)
      | _ \<Rightarrow> u)"

definition running :: "cluster \<Rightarrow> nat \<Rightarrow> nat \<Rightarrow> proc \<Rightarrow> bool" where
  "running u k x p \<longleftrightarrow> uProcs u k = Some (x, p) \<and> \<not> uDown u k"

definition channel :: "cluster \<Rightarrow> nat \<Rightarrow> nat \<Rightarrow> bool" where
  "channel u j k \<longleftrightarrow> uProcs u j \<noteq> None \<and> uWorker u j \<and> uParent u j = k \<and> \<not> uWorker u k"

text \<open>Whether \<open>tryRecover\<close> maps what it found.\<close>

definition recovers :: "reattach \<Rightarrow> proc \<Rightarrow> bool" where
  "recovers r p \<longleftrightarrow>
     rvName (yRecov p) \<and> raAttached r \<and> \<not> (raHb r = rvLastHb (yRecov p) \<or> raAge r < 0 \<or> of_int (raAge r) > staleMsFor p)"

text \<open>A step of process \<open>k\<close>. A worker's cache objects never have the id 0, which is the primary's.\<close>

inductive cluster_step :: "provenance \<Rightarrow> (jsstr \<Rightarrow> hash option) \<Rightarrow> nat \<Rightarrow> cluster \<Rightarrow> cluster \<Rightarrow> bool" for G HK k where
  primary: "uProcs u k = None \<Longrightarrow> \<forall>j p. uProcs u j \<noteq> Some (x, p) \<Longrightarrow>
    cluster_step G HK k u
      (u\<lparr>uMem := (uMem u)(x := created cap slots), uWorker := (uWorker u)(k := False),
         uProcs := (uProcs u)(k \<mapsto> (x, boot (created cap slots) True rings nonce True))\<rparr>)"
| worker: "uProcs u k = None \<Longrightarrow> uProcs u j = Some (x, p) \<Longrightarrow> \<not> uWorker u j \<Longrightarrow>
    cluster_step G HK k u
      (u\<lparr>uProcs := (uProcs u)(k \<mapsto> (x, boot (uMem u x) False False nonce named)),
         uWorker := (uWorker u)(k := True), uParent := (uParent u)(k := j)\<rparr>)"
| opens: "running u k x p \<Longrightarrow> map_of (yInsts p) n = None \<Longrightarrow> (uWorker u k \<Longrightarrow> gId g \<noteq> 0) \<Longrightarrow> codec_ok G g \<Longrightarrow>
    cluster_step G HK k u (act k (p\<lparr>yInsts := yInsts p @ [(n, new_inst g l3 mv)]\<rparr>) u)"
| call: "running u k x p \<Longrightarrow> map_of (yInsts p) n \<noteq> None \<Longrightarrow> object_step G HK n p q \<Longrightarrow> cluster_step G HK k u (act k q u)"
| tick: "running u k x p \<Longrightarrow> \<not> uWorker u k \<Longrightarrow> cluster_step G HK k u (act k (maintenance_tick HK e swept p) u)"
| evict: "running u k x p \<Longrightarrow> \<not> uWorker u k \<Longrightarrow> cluster_step G HK k u (act k (p\<lparr>yArena := n_evict key (yArena p)\<rparr>) u)"
| message: "running u k x p \<Longrightarrow> channel u j k \<Longrightarrow> uProcs u j = Some (y, pj) \<Longrightarrow> uSeen u j < length (ySent pj) \<Longrightarrow>
    cluster_step G HK k u (deliver HK e k j u)"
| doorbell: "running u k x p \<Longrightarrow> channel u j k \<Longrightarrow>
    cluster_step G HK k u (act k (snd (on_channel HK e Doorbell (uLast u j, p))) u)"
| gone: "running u k x p \<Longrightarrow> channel u j k \<Longrightarrow>
    cluster_step G HK k u (act k (snd (on_channel HK e Gone (uLast u j, p))) u)"
| recover: "running u k x p \<Longrightarrow> uWorker u k \<Longrightarrow> uProcs u j = Some (y, pj) \<Longrightarrow> raArena r = uMem u y \<Longrightarrow>
    cluster_step G HK k u (remap k (if recovers r p then y else x) (tryRecover r p) u)"
| crash: "running u k x p \<Longrightarrow> cluster_step G HK k u (u\<lparr>uDown := (uDown u)(k := True)\<rparr>)"

definition nobody :: "cluster \<Rightarrow> bool" where
  "nobody u \<longleftrightarrow> uProcs u = (\<lambda>_. None) \<and> uSeen u = (\<lambda>_. 0) \<and> uLast u = (\<lambda>_. None) \<and> uDown u = (\<lambda>_. False)"

definition cluster_reach :: "provenance \<Rightarrow> (jsstr \<Rightarrow> hash option) \<Rightarrow> cluster \<Rightarrow> bool" where
  "cluster_reach G HK u \<longleftrightarrow> (\<exists>s. nobody s \<and> (\<lambda>u u'. \<exists>k. cluster_step G HK k u u')\<^sup>*\<^sup>* s u)"

section \<open>A process of the cluster is a process\<close>

lemma object_step_proc: "object_step G HK n p q \<Longrightarrow> proc_step HK p q"
  by (induction rule: object_step.induct) (auto intro: proc_step.intros)

lemma object_step_moves: "object_step G HK n p q \<Longrightarrow> moves HK p q"
  by (induction rule: object_step.induct) (auto intro: move_intros)

lemma object_step_aside: "object_step G HK n p q \<Longrightarrow> aside n p q"
  by (induction rule: object_step.induct) (auto intro: aside_intros)

lemma proc_reach_then: "proc_reach HK p \<Longrightarrow> proc_step HK p q \<Longrightarrow> proc_reach HK q"
  unfolding proc_reach_def by (blast intro: rtranclp.rtrancl_into_rtrancl)

lemma proc_reach_boot [simp]: "proc_reach HK (boot a primary rings nonce named)"
  unfolding proc_reach_def by blast

lemma tryRecover_arena: "yArena (tryRecover r p) = (if recovers r p then raArena r else yArena p)"
  by (simp add: tryRecover_def recovers_def)

definition worker_proc :: "proc \<Rightarrow> bool" where
  "worker_proc p \<longleftrightarrow>
     \<not> yPrimary p \<and> \<not> ySubmit p \<and> (\<forall>m i. map_of (yInsts p) m = Some i \<longrightarrow> gId (iCfg i) \<noteq> 0)"

lemma worker_at_proc: "worker_at n p \<longleftrightarrow> worker_proc p \<and> map_of (yInsts p) n \<noteq> None"
  by (auto simp: worker_at_def worker_proc_def)

lemma worker_proc_simps [simp]:
  "worker_proc (p\<lparr>yArena := a\<rparr>) = worker_proc p" "worker_proc (boot a False False nonce named)"
  by (simp_all add: worker_proc_def boot_def)

lemma boot_arena [simp]: "yArena (boot a b c nonce named) = a"
  by (simp add: boot_def)

lemma worker_recover: "worker_proc p \<Longrightarrow> worker_proc (tryRecover r p)"
  by (auto simp: worker_proc_def tryRecover_def simp del: neq0_conv split: if_splits) (metis neq0_conv)

lemma worker_opens:
  "worker_proc p \<Longrightarrow> gId g \<noteq> 0 \<Longrightarrow> worker_proc (p\<lparr>yInsts := yInsts p @ [(n, new_inst g l3 mv)]\<rparr>)"
  by (auto simp: worker_proc_def map_add_def new_inst_def split: option.splits if_splits)

lemma worker_call:
  "object_step G HK n p q \<Longrightarrow> map_of (yInsts p) n \<noteq> None \<Longrightarrow> worker_proc p \<Longrightarrow>
   worker_proc q \<and> contents (yArena q) = contents (yArena p)"
  using object_step_aside [of G HK n p q] by (simp add: aside_def worker_at_proc)

text \<open>What holds of every process of a cluster.\<close>

definition member :: "(jsstr \<Rightarrow> hash option) \<Rightarrow> cluster \<Rightarrow> nat \<Rightarrow> nat \<times> proc \<Rightarrow> bool" where
  "member HK u k xp \<longleftrightarrow>
     (case xp of (x, p) \<Rightarrow> yArena p = uMem u x \<and> proc_reach HK p \<and> (uWorker u k \<longrightarrow> worker_proc p))"

definition cluster_ok :: "(jsstr \<Rightarrow> hash option) \<Rightarrow> cluster \<Rightarrow> bool" where
  "cluster_ok HK u \<longleftrightarrow> (\<forall>k xp. uProcs u k = Some xp \<longrightarrow> member HK u k xp)"

lemma cluster_okD: "cluster_ok HK u \<Longrightarrow> uProcs u k = Some (x, p) \<Longrightarrow> member HK u k (x, p)"
  by (simp add: cluster_ok_def)

lemma act_ok:
  assumes "cluster_ok HK u" "uProcs u k = Some (x, p)" "moves HK p q" "proc_reach HK q"
    and "uWorker u k \<Longrightarrow> worker_proc q"
  shows "cluster_ok HK (act k q u)"
proof -
  have p: "member HK u k (x, p)" using assms(1,2) by (rule cluster_okD)
  have "member HK (act k q u) j (y, r)" if j: "j \<noteq> k" "uProcs u j = Some (y, s)"
    "r = (if y = x then s\<lparr>yArena := yArena q\<rparr> else s)" for j y r s
  proof (cases "y = x")
    case True
    have s: "member HK u j (x, s)" using cluster_okD [OF assms(1) j(2)] True by simp
    then have "(arena_step (hash_of HK))\<^sup>*\<^sup>* (yArena s) (yArena q)"
      using assms(3) p by (simp add: member_def moves_def)
    then have "proc_step HK s (s\<lparr>yArena := yArena q\<rparr>)" by (rule proc_step.elsewhere)
    then show ?thesis
      using s j True assms(2) proc_reach_then by (auto simp: member_def act_def remap_def share_def)
  next
    case False
    then show ?thesis
      using cluster_okD [OF assms(1) j(2)] j assms(2) by (auto simp: member_def act_def remap_def share_def)
  qed
  moreover have "member HK (act k q u) k (x, q)"
    using assms(2,4,5) by (auto simp: member_def act_def remap_def share_def)
  ultimately show ?thesis
    using assms(2) by (fastforce simp: cluster_ok_def act_def remap_def share_def)
qed

lemma remap_ok:
  "cluster_ok HK u \<Longrightarrow> member HK u k (x, q) \<Longrightarrow> cluster_ok HK (remap k x q u)"
  by (auto simp: cluster_ok_def remap_def member_def)

lemma deliver_act:
  assumes "uProcs u k = Some (x, p)" "uProcs u j = Some (y, pj)"
  shows "cluster_ok HK (deliver HK e k j u) =
    cluster_ok HK (act k (snd (on_channel HK e (Batch (ySent pj ! uSeen u j)) (uLast u j, p))) u)"
  using assms by (simp add: deliver_def cluster_ok_def member_def case_prod_beta Let_def)

lemma cluster_step_ok: "cluster_step G HK k u u' \<Longrightarrow> cluster_ok HK u \<Longrightarrow> cluster_ok HK u'"
proof (induction rule: cluster_step.induct)
  case (opens u x p n g l3 mv)
  then show ?case
    by (intro act_ok [where p = p]) (auto simp: running_def cluster_ok_def member_def worker_opens
        intro: proc_reach_then proc_step.opens)
next
  case (call u x p n q)
  then show ?case
    using worker_call [OF call(3,2)]
    by (intro act_ok [where p = p] object_step_moves) (auto simp: running_def cluster_ok_def member_def
        intro: proc_reach_then object_step_proc)
next
  case (tick u x p e swept)
  then show ?case
    by (intro act_ok [where p = p] maintenance_moves) (auto simp: running_def cluster_ok_def member_def
        intro: proc_reach_then proc_step.tick)
next
  case (evict u x p key)
  then show ?case
    by (intro act_ok [where p = p]) (auto simp: running_def cluster_ok_def member_def moves_def
        intro: proc_reach_then proc_step.elsewhere arena_step.evict)
next
  case (message u x p j y pj e)
  then show ?case
    by (subst deliver_act, simp add: running_def, simp)
      (intro act_ok [where p = p] on_channel_moves, auto simp: running_def channel_def cluster_ok_def member_def
        intro: proc_reach_then proc_step.message simp del: on_channel.simps)
next
  case (doorbell u x p j e)
  then show ?case
    by (intro act_ok [where p = p] on_channel_moves) (auto simp: running_def channel_def cluster_ok_def member_def
        intro: proc_reach_then proc_step.message simp del: on_channel.simps)
next
  case (gone u x p j e)
  then show ?case
    by (intro act_ok [where p = p] on_channel_moves) (auto simp: running_def channel_def cluster_ok_def member_def
        intro: proc_reach_then proc_step.message simp del: on_channel.simps)
next
  case (recover u x p j y pj r)
  then show ?case
    by (intro remap_ok) (auto simp: running_def cluster_ok_def member_def tryRecover_arena worker_recover
        intro: proc_reach_then proc_step.recover)
qed (auto simp: cluster_ok_def member_def)

interpretation cl: step_invariant "\<lambda>u u'. \<exists>k. cluster_step G HK k u u'" nobody "cluster_ok HK" for G HK
proof unfold_locales
  show "cluster_ok HK s" if "nobody s" for s using that by (simp add: nobody_def cluster_ok_def)
qed (auto intro: cluster_step_ok)

lemma cluster_reach_ok: "cluster_reach G HK u \<Longrightarrow> cluster_ok HK u"
  using cl.inv_reached by (auto simp: cluster_reach_def)

lemma cluster_reach_step: "cluster_reach G HK u \<Longrightarrow> cluster_step G HK k u u' \<Longrightarrow> cluster_reach G HK u'"
proof -
  assume u: "cluster_reach G HK u" and s: "cluster_step G HK k u u'"
  obtain b where b: "nobody b" "(\<lambda>u u'. \<exists>k. cluster_step G HK k u u')\<^sup>*\<^sup>* b u" using u by (auto simp: cluster_reach_def)
  from b(2) have "(\<lambda>u u'. \<exists>k. cluster_step G HK k u u')\<^sup>*\<^sup>* b u'" by (rule rtranclp.rtrancl_into_rtrancl) (use s in blast)
  then show ?thesis using b(1) by (auto simp: cluster_reach_def)
qed

lemma act_same:
  "uProcs u k = Some (x, p) \<Longrightarrow> cluster_ok HK u \<Longrightarrow> yArena q = uMem u x \<Longrightarrow> act k q u = remap k x q u"
  by (auto simp: act_def remap_def share_def cluster_ok_def member_def map_option_case fun_eq_iff split: option.split)

end
