(* ===== verification/ClusterExample.thy ===== *)
theory ClusterExample
  imports Cluster Trips
begin

section \<open>A cluster of three processes\<close>

text \<open>A primary and two workers with a cache object each; the first worker has written a key and flushed.\<close>

definition xMem :: arena where
  "xMem = created 8 []"

text \<open>The only value that is written.\<close>

definition xG :: provenance where
  "xG key v \<longleftrightarrow> v = VStr [121]"

definition xMember :: "nat \<Rightarrow> proc" where
  "xMember num = (boot xMem False False ''w'' True)\<lparr>yInsts := [(0, new_inst (xCfg num False) None 1000)]\<rparr>"

definition xWrote :: proc where
  "xWrote = snd (setKey xHK xEnv (VStr [97]) (VStr [121]) None 0 (xMember 1))"

definition xSentOff :: proc where
  "xSentOff = flush_at xEnv 0 xWrote"

definition xTeam :: "(nat \<Rightarrow> (nat \<times> proc) option) \<Rightarrow> cluster" where
  "xTeam ps = \<lparr>uMem = (\<lambda>_. xMem), uProcs = ps, uWorker = (\<lambda>k. k = 1 \<or> k = 2), uParent = (\<lambda>_. 0), uDown = (\<lambda>_. False),
      uSeen = (\<lambda>_. 0), uLast = (\<lambda>_. None)\<rparr>"

definition xPrimary :: proc where
  "xPrimary = boot xMem True False ''p'' True"

text \<open>What the write and the flush have left, in steps that each evaluate one layer of the call.\<close>

lemma xWrote_state:
  "map_of (yInsts xWrote) 0 = Some (inst_of 0 xWrote)" "kOut (iLink (inst_of 0 xWrote)) = [OSet [97] (VStr [121]) 0]"
  "yArena xWrote = xMem" "ySent xWrote = []" "kFlight (iLink (inst_of 0 xWrote)) = 0" "iCfg (inst_of 0 xWrote) = xCfg 1 False"
  "yNonce xWrote = ''w''"
  by (simp add: xWrote_def xMember_def xMem_def created_def setKey_def call_defs, simp add: set_defs call_defs,
      simp add: commit_defs call_defs set_worker_def outbox_defs mark_defs clampTtl_def queueSet_def encodedBytes_def
        byteLength_def utf8_def utf8_cp_def plainUnit_def)+

lemma xSentOff_state:
  "ySent xSentOff = [\<lparr>gmId = 1, gmNonce = Some ''w'', gmOps = [OSet [97] (VStr [121]) 0]\<rparr>]" "yArena xSentOff = xMem"
  by (simp_all add: xSentOff_def flush_at_def flush_def send_batch_def xWrote_state Let_def xEnv_def)
    (simp_all add: xCfg_def)

text \<open>Its steps, each of which leaves the arena as it was.\<close>

lemma team_procs [simp]:
  "uProcs (xTeam ps) = ps" "uWorker (xTeam ps) k = (k = 1 \<or> k = 2)" "uMem (xTeam ps) x = xMem" "uParent (xTeam ps) k = 0"
  "uDown (xTeam ps) k = False" "uSeen (xTeam ps) k = 0" "uLast (xTeam ps) k = None"
  by (simp_all add: xTeam_def)

lemma team_nobody: "cluster_reach G xHK (xTeam (\<lambda>_. None))"
proof -
  have "nobody (xTeam (\<lambda>_. None))" by (simp add: nobody_def xTeam_def)
  then show ?thesis unfolding cluster_reach_def by blast
qed

lemma team_act:
  assumes "cluster_reach G xHK (xTeam ps)" "ps k = Some (0, p)" "yArena q = xMem"
    and "cluster_step G xHK k (xTeam ps) (act k q (xTeam ps))"
  shows "cluster_reach G xHK (xTeam (ps(k \<mapsto> (0, q))))"
proof -
  have "act k q (xTeam ps) = remap k 0 q (xTeam ps)"
    using assms(2,3) cluster_reach_ok [OF assms(1)] by (intro act_same) simp_all
  also have "\<dots> = xTeam (ps(k \<mapsto> (0, q)))" by (simp add: remap_def xTeam_def)
  finally show ?thesis using cluster_reach_step [OF assms(1,4)] by simp
qed

lemma team_primary: "cluster_reach G xHK (xTeam [0 \<mapsto> (0, xPrimary)])"
proof -
  have "cluster_step G xHK 0 (xTeam (\<lambda>_. None)) ((xTeam (\<lambda>_. None))
      \<lparr>uMem := (uMem (xTeam (\<lambda>_. None)))(0 := created 8 []), uWorker := (uWorker (xTeam (\<lambda>_. None)))(0 := False),
       uProcs := (uProcs (xTeam (\<lambda>_. None)))(0 \<mapsto> (0, boot (created 8 []) True False ''p'' True))\<rparr>)"
    by (rule cluster_step.primary) simp_all
  also have "(xTeam (\<lambda>_. None))
      \<lparr>uMem := (uMem (xTeam (\<lambda>_. None)))(0 := created 8 []), uWorker := (uWorker (xTeam (\<lambda>_. None)))(0 := False),
       uProcs := (uProcs (xTeam (\<lambda>_. None)))(0 \<mapsto> (0, boot (created 8 []) True False ''p'' True))\<rparr> = xTeam [0 \<mapsto> (0, xPrimary)]"
    by (auto simp: xTeam_def fun_eq_iff xPrimary_def xMem_def)
  finally show ?thesis by (rule cluster_reach_step [OF team_nobody])
qed

lemma team_worker:
  assumes "cluster_reach G xHK (xTeam ps)" "ps 0 = Some (0, p)" "k = 1 \<or> k = 2" "ps k = None"
  shows "cluster_reach G xHK (xTeam (ps(k \<mapsto> (0, xMember k))))"
proof -
  let ?b = "boot xMem False False ''w'' True" and ?u = "xTeam ps"
  have "cluster_step G xHK k ?u (?u\<lparr>uProcs := (uProcs ?u)(k \<mapsto> (0, boot (uMem ?u 0) False False ''w'' True)),
      uWorker := (uWorker ?u)(k := True), uParent := (uParent ?u)(k := 0)\<rparr>)"
    using assms by (intro cluster_step.worker [where p = p]) auto
  also have "?u\<lparr>uProcs := (uProcs ?u)(k \<mapsto> (0, boot (uMem ?u 0) False False ''w'' True)),
      uWorker := (uWorker ?u)(k := True), uParent := (uParent ?u)(k := 0)\<rparr> = xTeam (ps(k \<mapsto> (0, ?b)))"
    using assms(3) by (auto simp: xTeam_def fun_eq_iff)
  finally have r: "cluster_reach G xHK (xTeam (ps(k \<mapsto> (0, ?b))))" using assms(1) cluster_reach_step by blast
  have "xMember k = ?b\<lparr>yInsts := yInsts ?b @ [(0, new_inst (xCfg k False) None 1000)]\<rparr>"
    by (simp add: xMember_def boot_def)
  then have "cluster_step G xHK k (xTeam (ps(k \<mapsto> (0, ?b)))) (act k (xMember k) (xTeam (ps(k \<mapsto> (0, ?b)))))"
    using assms(3)
    by (simp only:) (rule cluster_step.opens [where x = 0]; auto simp: running_def boot_def xCfg_def codec_ok_def)
  from team_act [OF r _ _ this] show ?thesis by (simp add: xMember_def boot_def)
qed

text \<open>The cluster, with the batch on its way.\<close>

definition xCluster :: cluster where
  "xCluster = xTeam [0 \<mapsto> (0, xPrimary), 1 \<mapsto> (0, xSentOff), 2 \<mapsto> (0, xMember 2)]"

lemma xCluster_reach: "cluster_reach xG xHK xCluster"
proof -
  let ?f = "[0 \<mapsto> (0, xPrimary), 1 \<mapsto> (0, xMember 1), 2 \<mapsto> (0, xMember 2)]"
  have 1: "cluster_reach xG xHK (xTeam ?f)"
    using team_worker [OF team_worker [OF team_primary]] by simp
  have "cluster_step xG xHK 1 (xTeam ?f) (act 1 xWrote (xTeam ?f))"
    unfolding xWrote_def by (rule cluster_step.call [OF _ _ object_step.set, where n = 0]) (simp_all add: running_def xMember_def xG_def)
  from team_act [OF 1 _ xWrote_state(3) this]
  have 2: "cluster_reach xG xHK (xTeam (?f(1 \<mapsto> (0, xWrote))))" by simp
  have "cluster_step xG xHK 1 (xTeam (?f(1 \<mapsto> (0, xWrote)))) (act 1 xSentOff (xTeam (?f(1 \<mapsto> (0, xWrote)))))"
    unfolding xSentOff_def
    by (rule cluster_step.call [OF _ _ object_step.flush, where n = 0]) (simp_all add: running_def xWrote_state)
  from team_act [OF 2 _ xSentOff_state(2) this] show ?thesis by (simp add: xCluster_def fun_upd_twist)
qed

end
