(* ===== verification/Ledger.thy ===== *)
theory Ledger
  imports ClusterExample
begin

text \<open>
  The account of the clear generations of a primary, over any interleaving of what its workers' channels
  deliver: \<^verbatim>\<open>#clearGensOwed\<close> beside the two counters of the arena's header.
\<close>

definition owed_total :: "proc \<Rightarrow> nat" where
  "owed_total p = (\<Sum>who\<in>fst ` set (yOwed p). owed_of who p)"

text \<open>The generations in flight that no attachment owes: the primary's own.\<close>

definition ledger :: "proc \<Rightarrow> int" where
  "ledger p = int (aGen (yArena p)) - int (aSettled (yArena p)) - int (owed_total p)"

text \<open>What the channels of the workers deliver, in any order; each channel keeps the name of its last batch.\<close>

definition channel_step ::
    "(jsstr \<Rightarrow> hash option) \<Rightarrow> nat \<times> env \<times> channelEvent \<Rightarrow> (nat \<Rightarrow> cacheMsg option) \<times> proc \<Rightarrow> (nat \<Rightarrow> cacheMsg option) \<times> proc" where
  "channel_step HK ev s =
     (case ev of (j, e, x) \<Rightarrow> (case s of (ls, p) \<Rightarrow> (let (l, q) = on_channel HK e x (ls j, p) in (ls(j := l), q))))"

section \<open>The account of one attachment\<close>

lemma owed_keys: "who \<notin> fst ` set (yOwed p) \<Longrightarrow> owed_of who p = 0"
  by (simp add: owed_of_def flip: map_of_eq_None_iff)

lemma owed_total_over:
  assumes "finite K" "fst ` set (yOwed p) \<subseteq> K"
  shows "owed_total p = (\<Sum>who\<in>K. owed_of who p)"
  unfolding owed_total_def using assms owed_keys by (intro sum.mono_neutral_left) auto

text \<open>A change of one account by \<open>d\<close> is a change of the total by \<open>d\<close>.\<close>

lemma owed_total_change:
  assumes "\<And>w. w \<noteq> who \<Longrightarrow> owed_of w q = owed_of w p"
  shows "int (owed_total q) = int (owed_total p) + int (owed_of who q) - int (owed_of who p)"
proof -
  let ?K = "insert who (fst ` set (yOwed p) \<union> fst ` set (yOwed q))"
  have s: "owed_total r = owed_of who r + (\<Sum>w\<in>?K - {who}. owed_of w r)" if "r = p \<or> r = q" for r
    using owed_total_over [of ?K r] that by (subst sum.remove [symmetric]) auto
  moreover have "(\<Sum>w\<in>?K - {who}. owed_of w q) = (\<Sum>w\<in>?K - {who}. owed_of w p)"
    by (rule sum.cong) (simp_all add: assms)
  ultimately show ?thesis using s [of p] s [of q] by simp
qed

lemma owed_le_total: "owed_of who p \<le> owed_total p"
proof (cases "who \<in> fst ` set (yOwed p)")
  case True
  then show ?thesis unfolding owed_total_def by (intro member_le_sum) simp_all
qed (simp add: owed_keys)

lemma ledger_frame:
  "aGen (yArena q) = aGen (yArena p) \<Longrightarrow> aSettled (yArena q) = aSettled (yArena p) \<Longrightarrow> yOwed q = yOwed p \<Longrightarrow> ledger q = ledger p"
  by (simp add: ledger_def owed_total_def owed_of_def)

lemma open_ledger: "yReady p \<Longrightarrow> ledger (l3ClearOpenFor who p) = ledger p"
proof -
  assume ready: "yReady p"
  have "owed_of w (l3ClearOpenFor who p) = (if w = who then owed_of who p + 1 else owed_of w p)" for w
    by (auto simp: l3ClearOpenFor_def owed_of_def)
  then show ?thesis
    using ready owed_total_change [of who "l3ClearOpenFor who p" p] by (simp add: ledger_def l3ClearOpenFor_def l3ClearBegin_def)
qed

lemma settle_ledger: "yReady p \<Longrightarrow> 0 \<le> ledger p \<Longrightarrow> ledger (snd (l3ClearSettleFor who p)) = ledger p"
proof -
  assume ready: "yReady p" and l: "0 \<le> ledger p"
  let ?q = "snd (l3ClearSettleFor who p)"
  show ?thesis
  proof (cases "owed_of who p")
    case (Suc n)
    have "owed_of w ?q = (if w = who then owed_of who p - 1 else owed_of w p)" for w
      using Suc by (auto simp: l3ClearSettleFor_def owed_of_def Let_def split: option.splits)
    moreover have "aSettled (yArena p) < aGen (yArena p)"
      using l owed_le_total [of who p] Suc by (simp add: ledger_def)
    ultimately show ?thesis
      using ready owed_total_change [of who ?q p] Suc
      by (simp add: ledger_def l3ClearSettleFor_def l3ClearSettle_def Let_def)
  qed (simp add: l3ClearSettleFor_def)
qed

lemma settle_ready [simp]: "yReady (l3ClearOpenFor who p) = yReady p" "yReady (snd (l3ClearSettleFor who p)) = yReady p"
  by (simp_all add: l3ClearOpenFor_def l3ClearSettleFor_def Let_def)

lemma release_ready [simp]: "yReady (snd (release_loop who p)) = yReady p"
proof (induction who p rule: release_loop.induct)
  case (1 who p)
  obtain s p1 where s: "l3ClearSettleFor who p = (s, p1)" by force
  then have "yReady p1 = yReady p" using settle_ready(2) [of who p] by simp
  then show ?case using 1 s by (simp add: release_loop.simps [of who p] case_prod_beta)
qed

lemma release_ledger: "yReady p \<Longrightarrow> 0 \<le> ledger p \<Longrightarrow> ledger (snd (release_loop who p)) = ledger p"
proof (induction who p rule: release_loop.induct)
  case (1 who p)
  obtain s p1 where s: "l3ClearSettleFor who p = (s, p1)" by force
  have "ledger p1 = ledger p" "yReady p1" using settle_ledger [OF 1(2,3), of who] settle_ready(2) [of who p] 1(2) s by simp_all
  then show ?case using 1 s by (simp add: release_loop.simps [of who p] case_prod_beta)
qed

section \<open>What leaves the account alone\<close>

definition gens :: "proc \<Rightarrow> nat \<times> nat \<times> (string, nat) jsmap" where
  "gens p = (aGen (yArena p), aSettled (yArena p), yOwed p)"

lemma gens_ledger: "gens q = gens p \<Longrightarrow> ledger q = ledger p"
  by (rule ledger_frame) (simp_all add: gens_def)

lemma arena_gens:
  "aGen (snd (n_set h room now key enc w ttl a)) = aGen a" "aSettled (snd (n_set h room now key enc w ttl a)) = aSettled a"
  "aGen (snd (n_del h key w a)) = aGen a" "aSettled (snd (n_del h key w a)) = aSettled a"
  "aGen (n_clearAll w a) = aGen a" "aSettled (n_clearAll w a) = aSettled a"
  by (simp_all add: n_set_def n_del_def n_clearAll_def ringAppend_def)

lemma drain_one_gens:
  "aGen (drain_one H slot room now a) = aGen a \<and> aSettled (drain_one H slot room now a) = aSettled a"
  by (auto simp: drain_one_def Let_def n_set_def n_del_def ringAppend_def split: list.split subOp.split)

lemma drain_slots_gens:
  "aGen (snd (drain_slots H fits now b slots a)) = aGen a \<and> aSettled (snd (drain_slots H fits now b slots a)) = aSettled a"
proof -
  have "aGen (snd (drain_slot H fits now b slot a)) = aGen a \<and> aSettled (snd (drain_slot H fits now b slot a)) = aSettled a"
    for b slot a
    by (induction b arbitrary: a) (simp_all add: drain_one_gens case_prod_beta Let_def split: list.split)
  then show ?thesis by (induction slots arbitrary: a b) (simp_all add: case_prod_beta Let_def)
qed

lemma gens_frame [simp]:
  "gens (all_open f p) = gens p" "gens (upd_inst n g p) = gens p" "gens (localDrop key p) = gens p"
  "gens (cancelCaps key p) = gens p" "gens (cancelAllCaps p) = gens p" "gens (p\<lparr>yCursor := c\<rparr>) = gens p"
  by (simp_all add: gens_def localDrop_def cancelCaps_def cancelAllCaps_def)

lemma gens_rounds: "gens (primary_rounds r p) = gens p"
proof (induction r arbitrary: p)
  case (Suc r)
  have "gens (fold primary_record rs p) = gens p" for rs p
    by (induction rs arbitrary: p) (simp_all add: primary_record_def)
  then show ?case using Suc by (simp add: Let_def)
qed simp

lemma gens_drain: "gens (snd (drainSubmissions HK e b p)) = gens p" "gens (drain_until_empty HK e r p) = gens p"
proof -
  show d: "gens (snd (drainSubmissions HK e b p)) = gens p" for b p
    using drain_slots_gens
    by (auto simp: drainSubmissions_def primaryInvalidate_def submitDrain_def case_prod_beta Let_def gens_rounds)
      (simp_all add: gens_def)
  show "gens (drain_until_empty HK e r p) = gens p"
  proof (induction r arbitrary: p)
    case (Suc r)
    then show ?case using d [of 8192 p] by (simp add: case_prod_beta)
  qed simp
qed

lemma gens_publish:
  "gens (snd (publishArenaSet HK e key enc w ttl p)) = gens p" "gens (snd (publishArenaDel HK key w p)) = gens p"
  "gens (publishArenaClear w p) = gens p"
proof -
  have a: "gens (p\<lparr>yArena := a\<rparr>) = gens p" if "aGen a = aGen (yArena p)" "aSettled a = aSettled (yArena p)" for a
    using that by (simp add: gens_def)
  show "gens (snd (publishArenaSet HK e key enc w ttl p)) = gens p" "gens (snd (publishArenaDel HK key w p)) = gens p"
    "gens (publishArenaClear w p) = gens p"
    by (auto simp: publishArenaSet_def publishArenaDel_def publishArenaClear_def case_prod_beta Let_def a arena_gens
        split: option.split)
qed

lemma capArena_gens: "aGen (snd (capArena HK room now key enc cap a)) = aGen a \<and> aSettled (snd (capArena HK room now key enc cap a)) = aSettled a"
  by (auto simp: capArena_def retimeArena_def case_prod_beta Let_def arena_gens split: option.split)

lemma apply_op_ledger: "yReady p \<Longrightarrow> 0 \<le> ledger p \<Longrightarrow> ledger (apply_op HK e m op p) = ledger p"
proof (cases op)
  case (ORetime key enc cap)
  then show ?thesis
    using capArena_gens by (auto simp: apply_op_def case_prod_beta Let_def intro!: gens_ledger) (simp_all add: gens_def)
qed (auto simp: apply_op_def gens_publish open_ledger settle_ledger intro: gens_ledger split: option.split)

lemma applyBatch_ledger: "yReady p \<Longrightarrow> 0 \<le> ledger p \<Longrightarrow> ledger (applyBatch HK e m p) = ledger p"
proof -
  have f: "ledger (fold (apply_op HK e m) ops q) = ledger q" if "yReady q" "0 \<le> ledger q" for ops q
    using that by (induction ops arbitrary: q) (simp_all add: apply_op_ledger)
  assume "yReady p" "0 \<le> ledger p"
  then show ?thesis using f gens_ledger [OF gens_drain(2)] by (simp add: applyBatch_def)
qed

lemma channel_ready: "yReady (snd (on_channel HK e x (l, p))) = yReady p"
proof (cases x)
  case Gone
  have "yReady q = yReady p" if "release_loop who p = (k, q)" for who k q
    using release_ready [of who p] that by simp
  then show ?thesis using Gone by (auto simp: releaseWorker_def split: option.split prod.split)
next
  case Doorbell
  have "yReady q = yReady p" if "drainSubmissions HK e 4096 p = (k, q)" for k q
    using that by (auto simp: drainSubmissions_def primaryInvalidate_def Let_def split: prod.splits if_splits)
  then show ?thesis using Doorbell by (cases "drainSubmissions HK e 4096 p") simp
qed (simp add: applyBatch_def fold_ops)

lemma channel_ledger: "yReady p \<Longrightarrow> 0 \<le> ledger p \<Longrightarrow> ledger (snd (on_channel HK e x (l, p))) = ledger p"
proof (cases x)
  case Gone
  assume "yReady p" "0 \<le> ledger p"
  then have "ledger q = ledger p" if "release_loop who p = (k, q)" for who k q
    using release_ledger [of p who] that by simp
  then show ?thesis using Gone by (auto simp: releaseWorker_def split: option.split prod.split)
qed (simp_all add: applyBatch_ledger gens_ledger [OF gens_drain(1)])

section \<open>The properties\<close>

text \<open>C10: whatever the channels of the workers deliver to a primary, batches, doorbells and ends in any order, with
  clear generations opened, settled, settled twice or never, the account stays balanced: the generations
  in flight are those that the attachments owe and as many others as before, which are the primary's own.\<close>

theorem channels_balance_the_clears:
  assumes "yReady p" "0 \<le> ledger p"
  shows "ledger (snd (fold (channel_step HK) evs (ls, p))) = ledger p"
  using assms
proof (induction evs arbitrary: ls p)
  case (Cons ev evs)
  obtain j e x where ev: "ev = (j, e, x)" using prod_cases3 by blast
  obtain l q where q: "on_channel HK e x (ls j, p) = (l, q)" by force
  then have "ledger q = ledger p" "yReady q"
    using channel_ledger [OF Cons.prems, of HK e x "ls j"] channel_ready [of HK e x "ls j" p] Cons.prems(1) by simp_all
  moreover have "channel_step HK ev (ls, p) = (ls(j := l), q)" using ev q by (simp add: channel_step_def)
  ultimately show ?case using Cons.IH [where ls = "ls(j := l)" and p = q] Cons.prems by (simp del: fun_upd_apply)
qed simp

theorem channels_balance_the_clears_witness:
  "ledger (snd (fold (channel_step xHK) [(1, xEnv, Batch \<lparr>gmId = 1, gmNonce = Some ''w'', gmOps = [OOpen, OClear]\<rparr>), (1, xEnv, Gone)]
     ((\<lambda>_. None), xPrimary))) = 0"
proof -
  have "ledger xPrimary = 0"
    by (simp add: xPrimary_def xMem_def ledger_def owed_total_def boot_def created_def)
  then show ?thesis by (subst channels_balance_the_clears) (simp_all add: xPrimary_def boot_def)
qed

end
