(* ===== verification/Reads.thy ===== *)
theory Reads
  imports Examples
begin

text \<open>
  What a read can answer. The properties are about any process that its operations reach: the bounds
  of every cache object, the agreement of a worker's own tier with the arena, what \<open>get\<close> can hand
  out, what a drain does to the marks of the process's own unapplied writes, and reads after the
  primary's death.
\<close>

text \<open>C13: in every state a process can reach, each of its cache objects is within its bounds and its
  counters are what they count: the byte counter of the tier is the sum of its entries unless it is
  NaN, pending marks and recorded removals are at most 4096, refused writes are at most 4096 and have
  a timer when there are any, the bytes in flight are those of the messages on the wire.\<close>

theorem process_invariant:
  assumes "proc_reach HK p" "map_of (yInsts p) n = Some i"
  shows "l1_counted (iL1 i) \<and> wf_map (l1Map (iL1 i)) \<and>
    mk_size (cDel (iCoh i)) \<le> 4096 \<and> mk_size (cWrite (iCoh i)) \<le> 4096 \<and> length (cDeletedAt (iCoh i)) \<le> 4096 \<and>
    length (pMap (iCaps i)) \<le> 4096 \<and> (pMap (iCaps i) = [] \<or> pTimer (iCaps i)) \<and>
    kFlight (iLink i) = sum_list (List.map (\<lambda>(_, bytes, _, _). bytes) (kWire (iLink i))) \<and>
    0 \<le> kFlight (iLink i) \<and> 0 \<le> kOutBytes (iLink i)"
proof -
  have "good HK (yMarkSeq p) i" using proc_okD [OF proc_reach_ok [OF assms(1)] assms(2)] .
  note g = goodD [OF this]
  have l: "0 \<le> sum_list (List.map (\<lambda>(_, bytes, _, _). bytes) w)"
    if "list_all (\<lambda>(_, n, _, _). 0 \<le> n) w" for w :: "(obOp list \<times> int \<times> jsstr list \<times> nat) list"
    using that by (induction w) auto
  have "coh_ok HK (iCoh i)" "l1_inv HK (iL1 i)" using inst_okD [OF g(1)] by simp_all
  then show ?thesis
    using g(2,3) l [of "kWire (iLink i)"] marks_wf_bound [of "hash_of HK"]
    by (simp add: coh_ok_def l1_inv_def caps_ok_def link_ok_def wire_bytes_def PENDING_MARK_MAX_def L3_CAP_MAX_def) blast
qed

theorem process_invariant_witness:
  "kFlight (iLink (new_inst (xCfg 1 True) (Some (1000, 100)) 1000)) = 0 \<and>
   l1_counted (iL1 (new_inst (xCfg 1 True) (Some (1000, 100)) 1000))"
  using process_invariant [OF xProc_reach map_of_insts_xProc, of 1 True] by (simp add: new_inst_def)

section \<open>The worker's own tier\<close>




section \<open>What get hands out\<close>

text \<open>A value of the arena, as a caller of this configuration receives it.\<close>

definition served :: "cfg \<Rightarrow> jsval \<Rightarrow> jsval \<Rightarrow> bool" where
  "served g raw v \<longleftrightarrow>
     (case gCodec g of
        None \<Rightarrow> v = raw
      | Some c \<Rightarrow> cDecode c raw = Some v \<or> isBuffer raw \<and> v = raw)"

lemma drain_ring_resident:
  "map_of (l1Map (iL1 (drain_ring n a i))) k = Some e \<Longrightarrow> map_of (l1Map (iL1 i)) k = Some e"
  by (auto simp: drain_ring_def Let_def l1_clear_def dest: drain_records_resident split: if_splits)

lemma drain_ring_caught_up:
  assumes "cCursor (iCoh i) \<le> ringHead a" "ringHead a - cCursor (iCoh i) \<le> 512"
  shows "cCursor (iCoh (drain_ring n a i)) = ringHead a"
  using assms by (auto simp: drain_ring_def Let_def ringRead_def ringHead_def)

lemma get_l2_served:
  assumes "get_l2 HK e a level key i = (Inr v, j)"
  shows "v = VUndef \<or> (\<forall>x. map_of (aMap a) key = Some x \<longrightarrow> served (iCfg i) (aeVal x) v)"
proof (cases "n_get (eTick e) a key")
  case (Some raw)
  obtain x where x: "map_of (aMap a) key = Some x" "aeVal x = raw" using n_get_map [OF Some] by blast
  show ?thesis using assms Some x
    by (auto simp: get_l2_def fill_from_l2_def served_def decode_with_def Let_def
        split: if_splits option.splits sum.splits)
qed (use assms in \<open>simp add: get_l2_def split: if_splits\<close>)

lemma serve_l1_served:
  "serve_l1 i (eV en) = Inr v \<Longrightarrow> l1_view (iCfg i) raw = Some (eV en) \<Longrightarrow> served (iCfg i) raw v"
  by (auto simp: serve_l1_def l1_view_def served_def decode_with_def split: if_splits option.splits)

lemma get_drained_served:
  assumes "get_drained HK e a level key i = (Inr v, j)" "worker_inv HK a i" "cCursor (iCoh i) = ringHead a"
    and "HK key \<noteq> None"
  shows "v = VUndef \<or> (\<exists>en. map_of (l1Map (iL1 i)) key = Some en \<and> 0 \<le> eOwnAt en) \<or>
    (\<forall>x. map_of (aMap a) key = Some x \<longrightarrow> served (iCfg i) (aeVal x) v)"
proof (cases "map_of (l1Map (iL1 i)) key")
  case None
  then show ?thesis using assms(1) get_l2_served [of HK e a level key i v]
    by (auto simp: get_drained_def split: if_splits)
next
  case (Some en)
  have l2: ?thesis if "get_l2 HK e a level key (i\<lparr>iL1 := s\<rparr>) = (Inr v, j)" for s
    using get_l2_served [OF that] by auto
  show ?thesis
  proof (cases "eOwnAt en < 0")
    case True
    have "unread a i = []" using assms(3) by (simp add: unread_def ringHead_def)
    then have "\<forall>x. map_of (aMap a) key = Some x \<longrightarrow> l1_view (iCfg i) (aeVal x) = Some (eV en)"
      using freshD [OF worker_invD(3) [OF assms(2)] Some True assms(4)] by (simp add: fresh_entry_def)
    then show ?thesis using assms(1) Some l2 serve_l1_served [of i en v]
      by (auto simp: get_drained_def split: if_splits)
  qed (use Some in auto)
qed

text \<open>With at most one batch unread, \<open>get\<close> answers from a tier that has read the whole ring.\<close>

lemma get_at_drained:
  assumes "proc_reach HK p" "inj_hash HK" "map_of (yInsts p) n = Some i" "covered i" "yReady p"
    and "0 \<le> eAge e" "eAge e \<le> gStaleMs (iCfg i)" "length (aRing (yArena p)) - cCursor (iCoh i) \<le> 512"
    and "get_at HK e (VStr key) level n p = (Inr v, q)"
    and "j = drain_ring (eTick e) (yArena p) (fst (checkPrimary (env_in p e) i))"
  obtains lv j' where "get_drained HK (env_in p e) (yArena p) lv key j = (Inr v, j')" "worker_inv HK (yArena p) j"
    "cCursor (iCoh j) = ringHead (yArena p)"
proof -
  let ?e = "env_in p e" and ?a = "yArena p"
  have inv: "worker_inv HK ?a i"
    using proc_reach_coherent [OF assms(1,2)] assms(3,4) by (simp add: coherent_def)
  have nf: "\<not> snd (checkPrimary ?e i)" using assms(6,7) by (simp add: checkPrimary_def Let_def env_in_def)
  then have d: "drain ?e ?a i = (j, False)"
    using assms(4,5,10) by (simp add: drain_def covered_def env_in_def case_prod_beta)
  have j: "worker_inv HK ?a j" using drain_inv [OF assms(2) inv, of ?e] d by simp
  have c: "cCursor (iCoh j) = ringHead ?a"
    using drain_ring_caught_up [of "fst (checkPrimary ?e i)" ?a "eTick e"] fresh_cursor [OF worker_invD(3) [OF inv]] assms(8,10)
    by (simp add: ringHead_def)
  obtain lv j' where "get_drained HK ?e ?a lv key j = (Inr v, j')"
    using assms(5,9) d inst_of_Some [OF assms(3)]
    by (auto simp: get_at_def get_def Let_def split: sum.splits prod.splits)
  then show ?thesis using that j c by blast
qed

lemma get_at_current:
  assumes "proc_reach HK p" "inj_hash HK" "map_of (yInsts p) n = Some i" "covered i" "yReady p"
    and "0 \<le> eAge e" "eAge e \<le> gStaleMs (iCfg i)" "HK key = Some h"
    and "length (aRing (yArena p)) - cCursor (iCoh i) \<le> 512"
    and "get_at HK e (VStr key) level n p = (Inr v, q)"
  shows "v = VUndef \<or> (\<exists>en. map_of (l1Map (iL1 i)) key = Some en \<and> 0 \<le> eOwnAt en) \<or>
    (\<forall>x. map_of (aMap (yArena p)) key = Some x \<longrightarrow> served (iCfg i) (aeVal x) v)"
proof -
  let ?a = "yArena p"
  let ?j = "drain_ring (eTick e) ?a (fst (checkPrimary (env_in p e) i))"
  obtain lv j' where "get_drained HK (env_in p e) ?a lv key ?j = (Inr v, j')" "worker_inv HK ?a ?j"
    "cCursor (iCoh ?j) = ringHead ?a"
    using get_at_drained [OF assms(1-7,9,10) refl] by blast
  then have "v = VUndef \<or> (\<exists>en. map_of (l1Map (iL1 ?j)) key = Some en \<and> 0 \<le> eOwnAt en) \<or>
      (\<forall>x. map_of (aMap ?a) key = Some x \<longrightarrow> served (iCfg ?j) (aeVal x) v)"
    by (rule get_drained_served) (simp add: assms(8))
  moreover have "iCfg ?j = iCfg i" by simp
  moreover have "map_of (l1Map (iL1 i)) key = Some en" if "map_of (l1Map (iL1 ?j)) key = Some en" for en
    using drain_ring_resident [OF that] by simp
  ultimately show ?thesis by metis
qed



section \<open>The marks of unapplied writes\<close>

text \<open>Why a removal mark, and a write mark, may be absent after a step of the drain that had it.\<close>

definition del_kept :: "(jsstr \<Rightarrow> markRec \<Rightarrow> bool) \<Rightarrow> inst \<Rightarrow> inst \<Rightarrow> bool" where
  "del_kept why i j \<longleftrightarrow>
     (\<forall>k r. map_of (byKey (cDel (iCoh i))) k = Some r \<longrightarrow> map_of (byKey (cDel (iCoh j))) k = Some r \<or> why k r)"

definition write_kept :: "(jsstr \<Rightarrow> markRec \<Rightarrow> bool) \<Rightarrow> inst \<Rightarrow> inst \<Rightarrow> bool" where
  "write_kept why i j \<longleftrightarrow>
     (\<forall>k r. map_of (byKey (cWrite (iCoh i))) k = Some r \<longrightarrow> map_of (byKey (cWrite (iCoh j))) k = Some r \<or> why k r)"

lemma kept_trans:
  "del_kept why i j \<Longrightarrow> del_kept why j k \<Longrightarrow> del_kept why i k"
  "write_kept why i j \<Longrightarrow> write_kept why j k \<Longrightarrow> write_kept why i k"
  unfolding del_kept_def write_kept_def by metis+

lemma kept_same:
  "(\<And>k. map_of (byKey (cDel (iCoh j))) k = map_of (byKey (cDel (iCoh i))) k) \<Longrightarrow> del_kept why i j"
  "(\<And>k. map_of (byKey (cWrite (iCoh j))) k = map_of (byKey (cWrite (iCoh i))) k) \<Longrightarrow> write_kept why i j"
  by (simp_all add: del_kept_def write_kept_def)

lemma reconcileRemovals_kept:
  assumes "\<And>k r. \<not> n_has tick a k \<Longrightarrow> why k r"
  shows "del_kept why i (reconcileRemovals tick a h i)"
  unfolding del_kept_def
proof (intro allI impI)
  fix k r
  assume "map_of (byKey (cDel (iCoh i))) k = Some r"
  then show "map_of (byKey (cDel (iCoh (reconcileRemovals tick a h i)))) k = Some r \<or> why k r"
    using assms [of k r] by (cases "n_has tick a k") (simp_all add: reconcileRemovals_lookup)
qed

lemma reconcileWrites_kept:
  assumes "\<And>k r. \<not> (mSub r \<ge> 0 \<and> submitTailNow a i \<ge> 0 \<and> submitTailNow a i < mSub r) \<Longrightarrow> why k r"
  shows "write_kept why i (reconcileWrites a i)"
  unfolding write_kept_def
proof (intro allI impI)
  fix k r
  assume "map_of (byKey (cWrite (iCoh i))) k = Some r"
  then show "map_of (byKey (cWrite (iCoh (reconcileWrites a i)))) k = Some r \<or> why k r"
    using assms [of r k] by (cases "mSub r \<ge> 0 \<and> submitTailNow a i \<ge> 0 \<and> submitTailNow a i < mSub r") (simp_all add: reconcileWrites_lookup)
qed

text \<open>The drain in its parts: what was owed, the reset after a wrap, the batch.\<close>

definition consumed :: "arena \<Rightarrow> inst \<Rightarrow> markRec \<Rightarrow> bool" where
  "consumed a i r \<longleftrightarrow> \<not> (mSub r \<ge> 0 \<and> submitTailNow a i \<ge> 0 \<and> submitTailNow a i < mSub r)"

lemma consumed_link: "iLink j = iLink i \<Longrightarrow> consumed a j = consumed a i"
  by (rule ext) (simp add: consumed_def submitTailNow_def)

definition kept :: "nat \<Rightarrow> arena \<Rightarrow> (jsstr \<Rightarrow> markRec \<Rightarrow> bool) \<Rightarrow> inst \<Rightarrow> inst \<Rightarrow> bool" where
  "kept tick a seen i j \<longleftrightarrow>
     del_kept (\<lambda>k r. seen k r \<or> \<not> n_has tick a k) i j \<and> write_kept (\<lambda>k r. seen k r \<or> consumed a i r) i j \<and>
     iLink j = iLink i"

lemma kept_steps: "kept tick a seen i j \<Longrightarrow> kept tick a seen j k \<Longrightarrow> kept tick a seen i k"
proof -
  assume k: "kept tick a seen i j" "kept tick a seen j k"
  then have "iLink j = iLink i" by (simp add: kept_def)
  then have "consumed a j = consumed a i" by (rule consumed_link)
  then show ?thesis using k by (auto simp: kept_def intro: kept_trans)
qed

lemma kept_frame:
  "cDel (iCoh j) = cDel (iCoh i) \<Longrightarrow> cWrite (iCoh j) = cWrite (iCoh i) \<Longrightarrow> iLink j = iLink i \<Longrightarrow> kept tick a seen i j"
  by (simp add: kept_def kept_same)

lemma kept_removals: "kept tick a seen i (reconcileRemovals tick a h i)"
proof -
  have "del_kept (\<lambda>k r. seen k r \<or> \<not> n_has tick a k) i (reconcileRemovals tick a h i)"
    by (rule reconcileRemovals_kept) simp
  moreover have "write_kept w i (reconcileRemovals tick a h i)" for w by (rule kept_same(2)) simp
  ultimately show ?thesis by (simp add: kept_def)
qed

lemma kept_writes: "kept tick a seen i (reconcileWrites a i)"
proof -
  have "write_kept (\<lambda>k r. seen k r \<or> consumed a i r) i (reconcileWrites a i)"
    by (rule reconcileWrites_kept) (simp add: consumed_def)
  moreover have "del_kept w i (reconcileWrites a i)" for w by (rule kept_same(1)) simp
  ultimately show ?thesis by (simp add: kept_def)
qed

lemma kept_if: "kept tick a seen i j \<Longrightarrow> kept tick a seen i (if b then j else i)"
  by (simp add: kept_frame)

lemma kept_owed: "kept tick a seen i (drain_owed tick a i)"
  unfolding drain_owed_def Let_def
  by (rule kept_steps [OF kept_if [OF kept_removals] kept_if [OF kept_writes]])

lemma kept_wrapped: "kept tick a seen i (drain_wrapped tick a h i)"
  unfolding drain_wrapped_def Let_def
  by (rule kept_steps [OF kept_steps [OF kept_steps [OF kept_steps [OF kept_steps [OF kept_frame kept_frame]
          kept_if [OF kept_writes]] kept_frame] kept_if [OF kept_removals]] kept_frame])
    (simp_all add: dropCachedValues_def)

lemma kept_batch:
  assumes "inst_ok HK i" "\<And>k r. landed (hash_of HK k) (mAt r) c rs \<Longrightarrow> seen k r"
  shows "kept tick a seen i (fst (drain_records c rs i))"
proof -
  note m = drain_records_marks [OF assms(1), of c rs]
  have "del_kept seen i (fst (drain_records c rs i))" "write_kept seen i (fst (drain_records c rs i))"
    unfolding del_kept_def write_kept_def using m assms(2) by blast+
  then show ?thesis by (auto simp: kept_def del_kept_def write_kept_def)
qed



section \<open>After the death of the primary\<close>

text \<open>Once a worker process has degraded, no read of any of its open cache objects depends on the
  arena any more: \<open>get\<close> and \<open>has\<close> answer, and leave behind, the same whatever the arena holds, and
  \<open>get\<close> answers undefined unless the key is in the object's own tier.\<close>

theorem degraded_reads_stay_local:
  assumes "\<not> rvDegraded (yRecov p)" "\<not> yPrimary p" "map_of (yInsts (degrade p)) n = Some i" "\<not> vClosed (iLive i)"
  shows "get HK e a k level i = get HK e b k level i \<and> has HK e a k i = has HK e b k i \<and>
    (\<forall>key. map_of (l1Map (iL1 i)) key = None \<longrightarrow> fst (get HK e a (VStr key) NumUndef i) = Inr VUndef)"
proof -
  have dead: "vDead (iLive i)" using degrade_dead [OF assms] by simp
  then have d: "drain e x i = (i, False)" for x by (simp add: drain_def)
  have l2: "get_l2 HK e x lv key j = (Inr VUndef, bump ''misses'' j)" if "vDead (iLive j)" for x lv key j
    using that by (simp add: get_l2_def)
  have g: "get_drained HK e a lv key i = get_drained HK e b lv key i" for lv key
    using dead by (simp add: get_drained_def l2 split: option.split)
  then have "get HK e a k level i = get HK e b k level i" for k level
    by (simp add: get_def d split: jsval.split sum.split)
  moreover have "has HK e a k i = has HK e b k i" using dead by (simp add: has_def d has_drained_def split: jsval.split)
  moreover have "fst (get HK e a (VStr key) NumUndef i) = Inr VUndef" if "map_of (l1Map (iL1 i)) key = None" for key
    using that dead by (simp add: get_def d get_drained_def l2 level_of_def resolveLevel_def)
  ultimately show ?thesis by simp
qed

theorem degraded_reads_stay_local_witness:
  "fst (get xHK xEnv xArena (VStr [97]) NumUndef (inst_of 0 (degrade (xProc 1 False)))) = Inr VUndef"
proof -
  have "\<not> rvDegraded (yRecov (xProc 1 False))" "\<not> yPrimary (xProc 1 False)"
    "map_of (yInsts (degrade (xProc 1 False))) 0 = Some (inst_of 0 (degrade (xProc 1 False)))"
    "\<not> vClosed (iLive (inst_of 0 (degrade (xProc 1 False))))"
    "map_of (l1Map (iL1 (inst_of 0 (degrade (xProc 1 False))))) [97] = None"
    by (simp_all add: degrade_def x_defs Let_def all_open_def set_recov_def setDead_def l1_empty_def)
  then show ?thesis using degraded_reads_stay_local [of "xProc 1 False" 0] by blast
qed

end
