(* ===== verification/ClusterProps.thy ===== *)
theory ClusterProps
  imports ClusterExample Reads Refine
begin

text \<open>
  Properties of the cluster: what every process in it is, who writes an arena, what the messages of a
  worker become, and what a reader in another process sees of them.
\<close>

section \<open>Every process of a cluster\<close>

lemma cluster_process:
  "cluster_reach G HK u \<Longrightarrow> uProcs u k = Some (x, p) \<Longrightarrow> yArena p = uMem u x \<and> proc_reach HK p"
  using cluster_okD [OF cluster_reach_ok] by (simp add: member_def)



section \<open>The single writer\<close>

lemma act_mem: "uProcs u k = Some (x, p) \<Longrightarrow> uMem (act k q u) y = (if y = x then yArena q else uMem u y)"
  by (simp add: act_def remap_def share_def)

text \<open>C4: no step of a worker, of any of its cache objects, changes the entries, the invalidation ring or the
  clear generations of any arena.\<close>

theorem single_writer:
  assumes "cluster_reach G HK u" "cluster_step G HK k u u'" "uWorker u' k"
  shows "contents (uMem u' x) = contents (uMem u x)"
  using assms(2,3)
proof (cases rule: cluster_step.cases)
  case (call y p n q)
  have "member HK u k (y, p)" "uWorker u k"
    using cluster_okD [OF cluster_reach_ok [OF assms(1)]] call assms(3)
    by (auto simp: running_def act_def remap_def share_def)
  then have "contents (yArena q) = contents (uMem u y)"
    using worker_call [OF call(4,3)] by (simp add: member_def)
  then show ?thesis using call by (simp add: running_def act_mem)
next
  case (opens y p n g l3 mv)
  have "yArena p = uMem u y"
    using cluster_process [OF assms(1)] opens(2) by (auto simp: running_def)
  then show ?thesis using opens by (simp add: running_def act_mem)
qed (use assms(3) in \<open>auto simp: running_def channel_def act_def remap_def share_def deliver_def case_prod_beta Let_def
    split: option.splits\<close>)

theorem single_writer_witness:
  "contents (uMem (act 2 (snd (delete xHK xEnv (VStr [97]) 0 (xMember 2))) xCluster) 0) = contents xMem"
proof -
  have "cluster_step xG xHK 2 xCluster (act 2 (snd (delete xHK xEnv (VStr [97]) 0 (xMember 2))) xCluster)"
    by (rule cluster_step.call [OF _ _ object_step.del, where n = 0]) (simp_all add: running_def xCluster_def xMember_def)
  from single_writer [OF xCluster_reach this, of 0] show ?thesis
    by (simp add: xCluster_def act_def remap_def share_def)
qed

section \<open>What a worker sends\<close>

lemma deliver_facts:
  assumes "uProcs u k = Some (x, p)" "uProcs u j = Some (y, pj)" "k \<noteq> j"
  shows "uMem (deliver HK e k j u) x = yArena (applyBatch HK e (ySent pj ! uSeen u j) p)"
    and "uProcs (deliver HK e k j u) k = Some (x, applyBatch HK e (ySent pj ! uSeen u j) p)"
    and "\<exists>pj'. uProcs (deliver HK e k j u) j = Some (y, pj') \<and> ySent pj' = ySent pj"
    and "uSeen (deliver HK e k j u) j = Suc (uSeen u j)"
    and "uProcs u i = Some (x, r) \<Longrightarrow> i \<noteq> k \<Longrightarrow>
      uProcs (deliver HK e k j u) i = Some (x, r\<lparr>yArena := yArena (applyBatch HK e (ySent pj ! uSeen u j) p)\<rparr>)"
  using assms by (auto simp: deliver_def act_def remap_def share_def)



section \<open>What another process sees of it\<close>

lemma delivered_set:
  assumes "gmOps m = ops @ [OSet key enc ttl]" "HK key \<noteq> None" "encodable enc" "eFits e key" "yReady p"
  shows "map_of (aMap (yArena (applyBatch HK e m p))) key =
    Some \<lparr>aeVal = storedForm enc, aeExp = expiresAt (eTick e) (readTtlMs ttl)\<rparr>"
proof -
  have "view (yArena (apply_op HK e m (OSet key enc ttl) q)) key =
      Some \<lparr>aeVal = storedForm enc, aeExp = expiresAt (eTick e) (readTtlMs ttl)\<rparr>" if "yReady q" for q
    using that assms(2-4) by (auto simp: apply_op_view abs_op_def abs_put_def)
  then show ?thesis using assms(1,5) by (simp add: applyBatch_def view_def fold_ops)
qed

text \<open>A tier without marks or caps of its own on the key stays so while it drains, and then misses nothing
  that the arena has.\<close>

definition quiet :: "jsstr \<Rightarrow> inst \<Rightarrow> bool" where
  "quiet key i \<longleftrightarrow> \<not> unappliedHere i key \<and> pMap (iCaps i) = []"

lemma quiet_frame:
  "iCoh j = iCoh i \<Longrightarrow> iCaps j = iCaps i \<Longrightarrow> quiet key j = quiet key i"
  by (simp add: quiet_def unappliedHere_def)

lemma quiet_fold: "(\<And>x i. quiet key i \<Longrightarrow> quiet key (f x i)) \<Longrightarrow> quiet key i \<Longrightarrow> quiet key (fold f xs i)"
  by (induction xs arbitrary: i) simp_all

lemma quiet_drops:
  "quiet key i \<Longrightarrow> quiet key (noteDeleted k pos i)" "quiet key i \<Longrightarrow> quiet key (set_cursor c i)"
  "quiet key i \<Longrightarrow> quiet key (dropCachedValues i)" "quiet key i \<Longrightarrow> quiet key (clearLocal i)"
  "quiet key i \<Longrightarrow> quiet key (dropByHash h i)" "quiet key i \<Longrightarrow> quiet key (fst (checkPrimary e i))"
  by (auto simp: quiet_def unappliedHere_def noteDeleted_def set_cursor_def dropCachedValues_def clearLocal_def
      dropByHash_def checkPrimary_def setDead_def stopCapTimer_def mk_has_def Let_def split: option.split)

lemma quiet_reconciled:
  "quiet key i \<Longrightarrow> quiet key (reconcile_removal t a h k i)"
  "quiet key i \<Longrightarrow> quiet key (reconcileRemovals t a h i)" "quiet key i \<Longrightarrow> quiet key (reconcileWrites a i)"
proof -
  show r: "quiet key (reconcile_removal t a h k i)" if "quiet key i" for i k
    using that by (auto simp: reconcile_removal_def Let_def quiet_def unappliedHere_def noteDeleted_def)
  show "quiet key (reconcileRemovals t a h i)" if "quiet key i"
    using quiet_fold [of key "reconcile_removal t a h", OF r that]
    by (auto simp: reconcileRemovals_def Let_def quiet_def unappliedHere_def)
  have "\<not> mk_has (fold (reconcile_write tl) ks m) key" if "\<not> mk_has m key" for tl ks m
    using that by (induction ks arbitrary: m) (auto simp: reconcile_write_def split: option.split)
  then show "quiet key (reconcileWrites a i)" if "quiet key i"
    using that by (auto simp: reconcileWrites_def Let_def quiet_def unappliedHere_def)
qed

lemma quiet_record: "quiet key i \<Longrightarrow> quiet key (drain_record h pos i)"
  by (auto simp: drain_record_def Let_def quiet_def unappliedHere_def noteDeleted_def dropByHash_def split: option.split)

lemma quiet_drained: "quiet key i \<Longrightarrow> quiet key (drain_ring t a i)"
proof -
  have rs: "quiet key (fst (drain_records pos rs i))" if "quiet key i" for pos rs i
    using that by (induction pos rs i rule: drain_records.induct) (auto intro: quiet_record quiet_drops)
  have o: "quiet key (drain_owed t a i)" if "quiet key i" for i
    using that by (auto simp: drain_owed_def Let_def intro!: quiet_reconciled)
  have g: "quiet key (j\<lparr>iCoh := c\<rparr>) = quiet key j" if "cDel c = cDel (iCoh j)" "cWrite c = cWrite (iCoh j)" for j c
    using that by (simp add: quiet_def unappliedHere_def)
  have "quiet key (drain_wrapped t a h i)" if "quiet key i" for h i
    using that by (auto simp: drain_wrapped_def Let_def g intro!: quiet_reconciled quiet_drops)
  then show "quiet key i \<Longrightarrow> quiet key (drain_ring t a i)"
    by (auto simp: drain_ring_def Let_def intro!: quiet_drops(2) rs o)
qed

lemma get_drained_quiet:
  assumes "get_drained HK e a lv key j = (Inr v, j')" "worker_inv HK a j" "cCursor (iCoh j) = ringHead a"
    and "HK key \<noteq> None" "quiet key j" "\<And>en. map_of (l1Map (iL1 j)) key = Some en \<Longrightarrow> eOwnAt en < 0"
    and "\<not> vDead (iLive j)" "gCodec (iCfg j) = None" "\<not> hasLoneSurrogate key"
    and "map_of (aMap a) key = Some x" "\<not> tcExpired (aeExp x) (eTick e)"
  shows "v = aeVal x"
proof -
  have l2: "v = aeVal x" if "get_l2 HK e a lv key (j\<lparr>iL1 := s\<rparr>) = (Inr v, j')" for s
    using that assms(5,7,8,10,11)
    by (auto simp: get_l2_def n_get_def live_entry_def quiet_def fill_from_l2_def Let_def split: if_splits sum.splits)
  have u: "\<not> unappliedHere j key" using assms(5) by (simp add: quiet_def)
  show ?thesis
  proof (cases "map_of (l1Map (iL1 j)) key")
    case None
    then show ?thesis using assms(1,9) u l2 [of "iL1 j"] by (simp add: get_drained_def)
  next
    case (Some en)
    have "unread a j = []" using assms(3) by (simp add: unread_def ringHead_def)
    then have "aeVal x = eV en"
      using freshD [OF worker_invD(3) [OF assms(2)] Some assms(6) [OF Some] assms(4)] assms(8,10)
      by (simp add: fresh_entry_def l1_view_def)
    then show ?thesis
      using assms(1,8,9) u Some l2 by (auto simp: get_drained_def serve_l1_def decode_with_def split: if_splits)
  qed
qed

lemma delivered_entry:
  assumes "cluster_reach G HK u" "running u k x p" "channel u j k" "uProcs u j = Some (y, pj)" "uSeen u j < length (ySent pj)"
    and "gmOps (ySent pj ! uSeen u j) = ops @ [OSet key enc ttl]" "HK key = Some h" "encodable enc" "eFits e key"
    and "uProcs (deliver HK e k j u) i = Some (x, r)" "yReady p"
  shows "proc_reach HK r"
    and "map_of (aMap (yArena r)) key = Some \<lparr>aeVal = storedForm enc, aeExp = expiresAt (eTick e) (readTtlMs ttl)\<rparr>"
proof -
  have "cluster_step G HK k u (deliver HK e k j u)" using assms(2-5) by (rule cluster_step.message)
  then have d: "cluster_reach G HK (deliver HK e k j u)"
    using assms(1) by (rule cluster_reach_step [rotated])
  have "uProcs u k = Some (x, p)" "k \<noteq> j" using assms(2,3) by (auto simp: running_def channel_def)
  note f = deliver_facts(1) [OF this(1) assms(4) this(2), of HK e]
  show "proc_reach HK r" using cluster_process [OF d assms(10)] by simp
  show "map_of (aMap (yArena r)) key = Some \<lparr>aeVal = storedForm enc, aeExp = expiresAt (eTick e) (readTtlMs ttl)\<rparr>"
    using cluster_process [OF d assms(10)] f delivered_set [OF assms(6) _ assms(8,9,11)] assms(7) by simp
qed


text \<open>The second worker of the example, after the delivery.\<close>

definition xReader :: proc where
  "xReader = (xMember 2)\<lparr>yArena := yArena (applyBatch xHK xEnv (ySent xSentOff ! 0) xPrimary)\<rparr>"

lemma xReader_state:
  "yArena xReader = xMem\<lparr>aMap := [([97], \<lparr>aeVal = VStr [121], aeExp = 0\<rparr>)], aRing := [\<lparr>rrHash = 5, rrWriter = 1\<rparr>]\<rparr>"
  "yInsts xReader = [(0, new_inst (xCfg 2 False) None 1000)]" "yReady xReader" "yPrimary xReader = False"
  "rvDegraded (yRecov xReader) = False"
  by (simp_all add: xReader_def xSentOff_state xPrimary_def)
    (simp_all add: applyBatch_def apply_op_def publishArenaSet_def xHK_def n_set_def xMem_def created_def ringAppend_def
      encodable_def storable_def plainUnit_def expiresAt_def readTtlMs_def xEnv_def boot_def localDrop_def cancelCaps_def xMember_def)


end
