(* ===== verification/Written.thy ===== *)
theory Written
  imports ClusterProps
begin

text \<open>
  Values are never invented: in a cluster whose callers write, and whose L3 answers, only values that
  \<open>G\<close> allows under their key, every read of a key answers such a value.
\<close>

lemma object_step_keeps:
  assumes "object_step G HK n p q" "stored_ok G"
  shows "keeps G {n} p q"
  using assms
proof (induction rule: object_step.induct)
  case (get_done p reply e level key v q)
  then show ?case
    by (cases "pure_on G {n} p") (auto simp: keeps_def intro: done_pure(1) [THEN keeps_if_pure, unfolded keeps_def, rule_format])
next
  case (queue p i q q')
  then show ?case by (simp add: timers_keep)
qed (simp_all add: timers_keep setKey_keeps setAsync_keeps delete_keeps clearAll_keeps read_keeps getAsync_keeps settled_keeps
    clearGen_keeps flush_at_keeps close_keeps)

definition all_pure :: "provenance \<Rightarrow> cluster \<Rightarrow> bool" where
  "all_pure G u \<longleftrightarrow> (\<forall>k x p. uProcs u k = Some (x, p) \<longrightarrow> proc_pure G p)"

lemma all_pureD: "all_pure G u \<Longrightarrow> uProcs u k = Some (x, p) \<Longrightarrow> proc_pure G p"
  by (simp add: all_pure_def)

definition cluster_pure :: "provenance \<Rightarrow> (jsstr \<Rightarrow> hash option) \<Rightarrow> cluster \<Rightarrow> bool" where
  "cluster_pure G HK u \<longleftrightarrow>
     cluster_ok HK u \<and> (stored_ok G \<longrightarrow> all_pure G u)"

lemma proc_keeps: "keeps G {} p q \<Longrightarrow> proc_pure G p \<Longrightarrow> proc_pure G q"
  by (simp add: keeps_def pure_on_def)

lemma created_pure [simp]: "arena_pure G (created cap slots)"
  by (auto simp: arena_pure_def created_def)

lemma boot_pure [simp]: "proc_pure G (boot a primary rings nonce named) = arena_pure G a"
  by (simp add: proc_pure_def boot_def)

lemma pure_arena_only: "proc_pure G p \<Longrightarrow> arena_pure G a \<Longrightarrow> proc_pure G (p\<lparr>yArena := a\<rparr>)"
  by (simp add: proc_pure_def)

lemma proc_pure_arena: "proc_pure G p \<Longrightarrow> arena_pure G (yArena p)"
  by (simp add: proc_pure_def)

lemma act_pure:
  assumes "all_pure G u" "proc_pure G q"
  shows "all_pure G (act k q u)"
  using assms by (auto simp: all_pure_def act_def remap_def share_def intro!: pure_arena_only split: option.splits if_splits
      dest: proc_pure_arena)

lemma opens_pure:
  "proc_pure G p \<Longrightarrow> codec_ok G g \<Longrightarrow> proc_pure G (p\<lparr>yInsts := yInsts p @ [(n, new_inst g l3 mv)]\<rparr>)"
  by (auto simp: proc_pure_def inst_pure_def new_inst_def tier_pure_def l1_empty_def map_add_def split: option.splits if_splits)

lemma cluster_step_pure:
  assumes "cluster_step G HK k u u'" "cluster_ok HK u" "stored_ok G" "all_pure G u"
  shows "all_pure G u'"
  using assms
proof (cases rule: cluster_step.cases)
  case (primary x cap slots rings nonce)
  then show ?thesis using assms(4) by (auto simp: all_pure_def)
next
  case (worker j x p nonce named)
  have "arena_pure G (uMem u x)"
    using cluster_okD [OF assms(2) worker(3)] proc_pure_arena [OF all_pureD [OF assms(4) worker(3)]] by (simp add: member_def)
  then show ?thesis using worker assms(4) by (auto simp: all_pure_def)
next
  case (opens x p n g l3 mv)
  have "proc_pure G (p\<lparr>yInsts := yInsts p @ [(n, new_inst g l3 mv)]\<rparr>)"
    using opens all_pureD [OF assms(4)] by (auto simp: running_def intro: opens_pure)
  then show ?thesis using act_pure [OF assms(4)] opens(1) by simp
next
  case (call x p n q)
  have "pure_on G {n} p" using call all_pureD [OF assms(4)] by (auto simp: running_def pure_on_def)
  then have "proc_pure G q" using object_step_keeps [OF call(4) assms(3)] by (simp add: keeps_def pure_on_def)
  then show ?thesis using act_pure [OF assms(4)] call(1) by simp
next
  case (tick x p e swept)
  have "proc_pure G (maintenance_tick HK e swept p)"
    using proc_keeps [OF tick_keeps [OF assms(3)]] tick all_pureD [OF assms(4)] by (auto simp: running_def)
  then show ?thesis using act_pure [OF assms(4)] tick(1) by simp
next
  case (evict x p key)
  have "arena_pure G (n_evict key (yArena p))"
    using evict proc_pure_arena [OF all_pureD [OF assms(4)]] by (auto simp: running_def intro: arena_removes)
  then have "proc_pure G (p\<lparr>yArena := n_evict key (yArena p)\<rparr>)"
    using evict all_pureD [OF assms(4)] by (auto simp: running_def intro: pure_arena_only)
  then show ?thesis using act_pure [OF assms(4)] evict(1) by simp
next
  case (message x p j y pj e)
  let ?m = "ySent pj ! uSeen u j"
  have "op_pure G op" if "op \<in> set (gmOps ?m)" for op
    using all_pureD [OF assms(4) message(4)] message(5) that nth_mem by (fastforce simp: proc_pure_def)
  then have "keeps G {} p (snd (on_channel HK e (Batch ?m) (uLast u j, p)))"
    by (intro channel_keeps [OF assms(3)]) auto
  then have "proc_pure G (snd (on_channel HK e (Batch ?m) (uLast u j, p)))"
    by (rule proc_keeps) (use message all_pureD [OF assms(4)] in \<open>auto simp: running_def\<close>)
  note act_pure [OF assms(4) this, of k]
  then show ?thesis
    using message by (simp add: all_pure_def deliver_def running_def case_prod_beta Let_def del: on_channel.simps)
next
  case (doorbell x p j e)
  have "proc_pure G (snd (on_channel HK e Doorbell (uLast u j, p)))"
    by (rule proc_keeps [OF channel_keeps [OF assms(3)]]) (use doorbell all_pureD [OF assms(4)] in \<open>auto simp: running_def\<close>)
  then show ?thesis using act_pure [OF assms(4)] doorbell(1) by simp
next
  case (gone x p j e)
  have "proc_pure G (snd (on_channel HK e Gone (uLast u j, p)))"
    by (rule proc_keeps [OF channel_keeps [OF assms(3)]]) (use gone all_pureD [OF assms(4)] in \<open>auto simp: running_def\<close>)
  then show ?thesis using act_pure [OF assms(4)] gone(1) by simp
next
  case (recover x p j y pj rr)
  have "arena_pure G (raArena rr)"
    using cluster_okD [OF assms(2) recover(4)] proc_pure_arena [OF all_pureD [OF assms(4) recover(4)]] recover(5) by (simp add: member_def)
  then have "proc_pure G (tryRecover rr p)"
    by (rule proc_keeps [OF recover_keeps [OF keeps_refl]]) (use recover all_pureD [OF assms(4)] in \<open>auto simp: running_def\<close>)
  then show ?thesis using recover assms(4) by (auto simp: all_pure_def remap_def)
qed (use assms(4) in \<open>simp add: all_pure_def\<close>)

interpretation wr: step_invariant "\<lambda>u u'. \<exists>k. cluster_step G HK k u u'" nobody "cluster_pure G HK" for G HK
proof unfold_locales
  show "cluster_pure G HK s" if "nobody s" for s using that cl.inv_start by (simp add: nobody_def cluster_pure_def all_pure_def)
next
  fix u u'
  assume s: "\<exists>k. cluster_step G HK k u u'" and p: "cluster_pure G HK u"
  then obtain k where k: "cluster_step G HK k u u'" by blast
  show "cluster_pure G HK u'"
    using cluster_step_ok [OF k] cluster_step_pure [OF k] p unfolding cluster_pure_def by blast
qed

lemma reach_pure: "cluster_reach G HK u \<Longrightarrow> stored_ok G \<Longrightarrow> uProcs u k = Some (x, p) \<Longrightarrow> proc_pure G p"
  using wr.inv_reached [of _ G HK u] all_pureD unfolding cluster_reach_def cluster_pure_def by blast

text \<open>C2: let only values that \<open>G\<close> allows under a key come in under it, by \<open>set\<close>, from an L3 or from its queue,
  with codecs and the stored form of a string keeping \<open>G\<close>. Then in every reachable cluster, whatever its
  processes have written, sent, published, drained, evicted, cleared and recovered, and whichever keys
  share a hash, a \<open>get\<close> answers a value that \<open>G\<close> allows under that very key, or nothing, and so does
  the \<open>getAsync\<close> that a settled fetch completes.\<close>

theorem only_written_values_are_read:
  assumes "cluster_reach G HK u" "stored_ok G" "running u k x p" "map_of (yInsts p) n \<noteq> None"
    and "\<And>raw ttl. reply = L3Rec raw ttl \<Longrightarrow> G key raw"
    and "get_at HK e (VStr key) level n p = (Inr v, q) \<or> getAsync_done HK e n lv key reply p = Some (Inr v, q)"
  shows "v = VUndef \<or> G key v"
proof -
  have "pure_on G {n} p" using reach_pure [OF assms(1,2)] assms(3,4) by (auto simp: running_def pure_on_def)
  then show ?thesis
    using assms(6) get_at_pure [of G "{n}" p n HK e key level v q]
      done_pure(2) [OF assms(2), of "{n}" p n reply key HK e lv "Inr v" q v] assms(5)
    by blast
qed

theorem only_written_values_are_read_witness:
  "\<exists>v q. get_at xHK xEnv (VStr [97]) NumUndef 0 xReader = (Inr v, q) \<and> (v = VUndef \<or> xG [97] v)"
proof -
  have u: "running xCluster 0 0 xPrimary" "channel xCluster 1 0" "uProcs xCluster 1 = Some (0, xSentOff)"
    "uSeen xCluster 1 < length (ySent xSentOff)"
    by (simp_all add: xCluster_def running_def channel_def xSentOff_state)
  have d: "cluster_reach xG xHK (deliver xHK xEnv 0 1 xCluster)"
    by (rule cluster_reach_step [OF xCluster_reach cluster_step.message [OF u]])
  have r: "running (deliver xHK xEnv 0 1 xCluster) 2 0 xReader"
    using deliver_facts(5) [of xCluster 0 0 xPrimary 1 0 xSentOff 2 "xMember 2" xHK xEnv]
    by (simp add: running_def xReader_def xCluster_def) (simp add: deliver_def act_def remap_def share_def xTeam_def case_prod_beta Let_def)
  obtain v q where g: "get_at xHK xEnv (VStr [97]) NumUndef 0 xReader = (Inr v, q)"
    by (simp add: read_defs xReader_state x_defs xMem_def created_def evict_loop.simps case_prod_beta)
  have "v = VUndef \<or> xG [97] v"
    by (rule only_written_values_are_read [OF d _ r, where n = 0 and reply = L3Threw and e = xEnv and level = NumUndef and q = q])
      (auto simp: stored_ok_def xG_def xReader_state plainUnit_def intro: g)
  then show ?thesis using g by blast
qed

end
