(* ===== verification/LoadText.thy ===== *)
theory LoadText
  imports FastPath Options "HOL-Library.Signed_Division"
begin

text \<open>
  The values of the load tests (\<^verbatim>\<open>src/loadtest/load.js\<close>, lines 40 to 80, and
  \<^verbatim>\<open>src/loadtest/async.js\<close>, lines 40 to 60): a value is determined by its key and a version, so
  that a reader can check it alone. \<open>makeVal\<close> and \<open>verifyText\<close> are the two functions with strings as values,
  \<open>makeObj\<close> and \<open>verifyObj\<close> with objects. A version is an integer; numbers are exact, as JavaScript's are below
  \<open>2\<^sup>5\<^sup>3\<close>, and \<open>numberOf\<close> is \<^verbatim>\<open>Number\<close> on text, with \<open>None\<close> for what is not a finite number.
\<close>

section \<open>Numbers as text\<close>

definition digitUnit :: "cunit \<Rightarrow> bool" where
  "digitUnit c \<longleftrightarrow> 48 \<le> c \<and> c \<le> 57"

definition digits_nat :: "jsstr \<Rightarrow> nat" where
  "digits_nat s = foldl (\<lambda>n c. 10 * n + unat (c - 48)) 0 s"

fun decimal :: "nat \<Rightarrow> jsstr" where
  "decimal n = (if n < 10 then [48 + of_nat n] else decimal (n div 10) @ [48 + of_nat (n mod 10)])"

declare decimal.simps [simp del]

definition intText :: "int \<Rightarrow> jsstr" where
  "intText k = (if k < 0 then 45 # decimal (nat (- k)) else decimal (nat k))"

definition spaceUnit :: "cunit \<Rightarrow> bool" where
  "spaceUnit c \<longleftrightarrow>
     c \<in> {9, 10, 11, 12, 13, 32, 160, 0x1680, 0x2028, 0x2029, 0x202F, 0x205F, 0x3000, 0xFEFF} \<or> 0x2000 \<le> c \<and> c \<le> 0x200A"

definition trim :: "jsstr \<Rightarrow> jsstr" where
  "trim s = rev (dropWhile spaceUnit (rev (dropWhile spaceUnit s)))"

definition radixDigit :: "cunit \<Rightarrow> nat" where
  "radixDigit c =
     (if digitUnit c then unat (c - 48) else if 97 \<le> c \<and> c \<le> 122 then unat (c - 87)
      else if 65 \<le> c \<and> c \<le> 90 then unat (c - 55) else 36)"

definition radixNumber :: "nat \<Rightarrow> jsstr \<Rightarrow> rat option" where
  "radixNumber b s =
     (if s \<noteq> [] \<and> (\<forall>c\<in>set s. radixDigit c < b) then Some (of_nat (foldl (\<lambda>n c. b * n + radixDigit c) 0 s)) else None)"

definition signed :: "(jsstr \<Rightarrow> rat option) \<Rightarrow> jsstr \<Rightarrow> rat option" where
  "signed f s = (case s of [] \<Rightarrow> f s | c # s' \<Rightarrow> if c = 45 then map_option uminus (f s') else if c = 43 then f s' else f s)"

definition wholeNumber :: "jsstr \<Rightarrow> rat option" where
  "wholeNumber s = (if s \<noteq> [] \<and> list_all digitUnit s then Some (of_nat (digits_nat s)) else None)"

text \<open>Digits, a point with digits behind it, an exponent.\<close>

definition scaled :: "rat \<Rightarrow> jsstr \<Rightarrow> rat option" where
  "scaled m s =
     (case s of [] \<Rightarrow> Some m
      | c # s' \<Rightarrow> if c = 101 \<or> c = 69
          then map_option (\<lambda>x. if 0 \<le> x then m * 10 ^ nat \<lfloor>x\<rfloor> else m / 10 ^ nat \<lfloor>- x\<rfloor>) (signed wholeNumber s')
          else None)"

definition plainNumber :: "jsstr \<Rightarrow> rat option" where
  "plainNumber s =
     (let ip = takeWhile digitUnit s; r = dropWhile digitUnit s;
          fp = (case r of [] \<Rightarrow> [] | c # r' \<Rightarrow> if c = 46 then takeWhile digitUnit r' else []);
          r2 = (case r of [] \<Rightarrow> [] | c # r' \<Rightarrow> if c = 46 then dropWhile digitUnit r' else r)
      in if ip @ fp = [] then None else scaled (of_nat (digits_nat (ip @ fp)) / 10 ^ length fp) r2)"

definition numberOf :: "jsstr \<Rightarrow> rat option" where
  "numberOf s =
     (case trim s of
        [] \<Rightarrow> Some 0
      | [c] \<Rightarrow> plainNumber [c]
      | c # d # r \<Rightarrow>
          if c = 48 \<and> (d = 120 \<or> d = 88) then radixNumber 16 r
          else if c = 48 \<and> (d = 111 \<or> d = 79) then radixNumber 8 r
          else if c = 48 \<and> (d = 98 \<or> d = 66) then radixNumber 2 r
          else signed plainNumber (c # d # r))"

subsection \<open>A printed integer is read back\<close>

lemma digit_unit [simp]: "d < 10 \<Longrightarrow> digitUnit (48 + of_nat d)" "d < 10 \<Longrightarrow> unat (of_nat d :: cunit) = d"
proof -
  assume d: "d < 10"
  then show "unat (of_nat d :: cunit) = d" by (simp add: unat_of_nat)
  have "d \<in> {0, 1, 2, 3, 4, 5, 6, 7, 8, 9}" using d by auto
  then show "digitUnit (48 + of_nat d)" by (auto simp: digitUnit_def)
qed

lemma decimal_digits: "list_all digitUnit (decimal n) \<and> decimal n \<noteq> [] \<and> digits_nat (decimal n) = n"
proof (induction n rule: decimal.induct)
  case (1 n)
  then show ?case
    by (subst (1 2 3) decimal.simps) (auto simp: digits_nat_def simp del: of_nat_mod word_of_nat_eq_0_iff)
qed

lemma digit_units: "digitUnit c \<Longrightarrow> \<not> spaceUnit c \<and> c \<noteq> 35 \<and> c \<noteq> 43 \<and> c \<noteq> 45 \<and> c < 58"
  unfolding digitUnit_def spaceUnit_def by (auto simp: word_le_nat_alt word_less_nat_alt)

lemma trim_id: "list_all (\<lambda>c. \<not> spaceUnit c) s \<Longrightarrow> trim s = s"
proof -
  have d: "dropWhile spaceUnit u = u" if "list_all (\<lambda>c. \<not> spaceUnit c) u" for u
    using that by (cases u) simp_all
  assume "list_all (\<lambda>c. \<not> spaceUnit c) s"
  then show ?thesis using d [of s] d [of "rev s"] by (simp add: trim_def list_all_rev)
qed

lemma plainNumber_digits: "list_all digitUnit s \<Longrightarrow> s \<noteq> [] \<Longrightarrow> plainNumber s = Some (of_nat (digits_nat s))"
proof -
  assume s: "list_all digitUnit s" "s \<noteq> []"
  have w: "takeWhile digitUnit s = s" "dropWhile digitUnit s = []"
    using s(1) by (simp_all add: takeWhile_eq_all_conv dropWhile_eq_Nil_conv list_all_iff)
  show ?thesis using s(2) by (simp add: plainNumber_def scaled_def Let_def w)
qed

lemma numberOf_intText: "numberOf (intText k) = Some (of_int k)"
proof -
  let ?d = "decimal (nat \<bar>k\<bar>)"
  have d: "list_all digitUnit ?d" "?d \<noteq> []" "digits_nat ?d = nat \<bar>k\<bar>" using decimal_digits by blast+
  have p: "plainNumber ?d = Some (of_int \<bar>k\<bar>)" using plainNumber_digits [OF d(1,2)] d(3) by simp
  have ns: "list_all (\<lambda>c. \<not> spaceUnit c) ?d" using d(1) digit_units by (auto simp: list_all_iff)
  have sp: "\<not> spaceUnit 45" by (simp add: spaceUnit_def word_le_nat_alt)
  show ?thesis
  proof (cases "k < 0")
    case True
    then have i: "intText k = 45 # ?d" by (simp add: intText_def)
    obtain c s where c: "?d = c # s" using d(2) by (cases ?d) auto
    show ?thesis using True i ns sp p trim_id [of "45 # ?d"] c by (simp add: numberOf_def signed_def)
  next
    case False
    then have i: "intText k = ?d" by (simp add: intText_def)
    have t: "trim ?d = ?d" using ns by (rule trim_id)
    show ?thesis
    proof (cases ?d rule: remdups_adj.cases)
      case (2 c)
      then show ?thesis using False i t p by (simp add: numberOf_def)
    next
      case (3 c e r)
      have "c \<noteq> 43" "c \<noteq> 45" "e < 58" using d(1) digit_units unfolding 3 by auto
      moreover from this(3) have "e \<noteq> 120 \<and> e \<noteq> 88 \<and> e \<noteq> 111 \<and> e \<noteq> 79 \<and> e \<noteq> 98 \<and> e \<noteq> 66" by auto
      ultimately show ?thesis using False i t p 3 by (simp add: numberOf_def signed_def)
    qed (use d(2) in simp)
  qed
qed

section \<open>The values\<close>

text \<open>\<^verbatim>\<open>String.fromCharCode(97 + (ver % 26)).repeat(len)\<close>, which throws where the length is negative.\<close>

definition filler :: "int \<Rightarrow> jsstr option" where
  "filler ver =
     (let len = 64 + (ver * 37) smod 700
      in if len < 0 then None else Some (replicate (nat len) (word_of_int (97 + ver smod 26))))"

definition makeVal :: "jsstr \<Rightarrow> int \<Rightarrow> jsstr option" where
  "makeVal key ver = map_option (\<lambda>f. key @ 35 # intText ver @ 35 # f) (filler ver)"

text \<open>A property of an object: what \<^verbatim>\<open>===\<close> tells apart, and arrays.\<close>

datatype field = FText jsstr | FNum rat | FBool bool | FList "field list" | FOther

record loadObj =
  oKey :: field
  oVer :: field
  oNum :: field
  oOk :: field
  oTags :: field
  oBody :: field

definition makeObj :: "jsstr \<Rightarrow> int \<Rightarrow> loadObj option" where
  "makeObj key ver = map_option (\<lambda>f.
     \<lparr>oKey = FText key, oVer = FNum (of_int ver), oNum = FNum (of_int ver * 3 / 2), oOk = FBool (even ver),
      oTags = FList [FText key, FNum (of_int ver)], oBody = FText f\<rparr>) (filler ver)"

definition versionOf :: "jsstr \<Rightarrow> rat option" where
  "versionOf v =
     (case indexOf v [35] 0 of
        None \<Rightarrow> numberOf (butlast v)
      | Some p \<Rightarrow> numberOf (drop (p + 1) (case indexOf v [35] (p + 1) of None \<Rightarrow> butlast v | Some q \<Rightarrow> take q v)))"

section \<open>Checking a value\<close>

datatype badness =
    NotAString | NoDelimiters | KeyMismatch | BadVersion | PayloadMismatch | NotAnObject | TagsMismatch

datatype verdict = Fine | Bad badness | Threw

definition verifyText :: "jsstr \<Rightarrow> jsval \<Rightarrow> verdict" where
  "verifyText key val =
     (case val of
        VStr s \<Rightarrow>
          (case indexOf s [35] 0 of
             None \<Rightarrow> Bad NoDelimiters
           | Some p \<Rightarrow>
               (case indexOf s [35] (p + 1) of
                  None \<Rightarrow> Bad NoDelimiters
                | Some q \<Rightarrow>
                    if take p s \<noteq> key then Bad KeyMismatch
                    else (case numberOf (drop (p + 1) (take q s)) of
                            None \<Rightarrow> Bad BadVersion
                          | Some x \<Rightarrow>
                              if \<not> isInteger x then Bad BadVersion
                              else (case makeVal key \<lfloor>x\<rfloor> of
                                      None \<Rightarrow> Threw
                                    | Some w \<Rightarrow> if s = w then Fine else Bad PayloadMismatch))))
      | _ \<Rightarrow> Bad NotAString)"

text \<open>\<open>None\<close> stands for null and for what is not an object.\<close>

definition verifyObj :: "jsstr \<Rightarrow> loadObj option \<Rightarrow> verdict" where
  "verifyObj key val =
     (case val of
        None \<Rightarrow> Bad NotAnObject
      | Some v \<Rightarrow>
          if oKey v \<noteq> FText key then Bad KeyMismatch
          else (case oVer v of
                  FNum ver \<Rightarrow>
                    if \<not> isInteger ver then Bad BadVersion
                    else (case makeObj key \<lfloor>ver\<rfloor> of
                            None \<Rightarrow> Threw
                          | Some want \<Rightarrow>
                              if oNum v \<noteq> oNum want \<or> oOk v \<noteq> oOk want \<or> oBody v \<noteq> oBody want then Bad PayloadMismatch
                              else (case oTags v of
                                      FList tags \<Rightarrow>
                                        if length tags \<noteq> 2 \<or> tags ! 0 \<noteq> FText key \<or> tags ! 1 \<noteq> FNum ver
                                        then Bad TagsMismatch else Fine
                                    | _ \<Rightarrow> Bad TagsMismatch))
                | _ \<Rightarrow> Bad BadVersion))"

text \<open>The check of the asynchronous test, whose errors are fewer.\<close>

definition verifyAsync :: "jsstr \<Rightarrow> jsval \<Rightarrow> verdict" where
  "verifyAsync key val =
     (case val of
        VStr s \<Rightarrow>
          (case (indexOf s [35] 0, case indexOf s [35] 0 of None \<Rightarrow> None | Some p \<Rightarrow> indexOf s [35] (p + 1)) of
             (Some p, Some q) \<Rightarrow>
               if take p s \<noteq> key then Bad KeyMismatch
               else (case numberOf (drop (p + 1) (take q s)) of
                       None \<Rightarrow> Bad PayloadMismatch
                     | Some x \<Rightarrow>
                         if \<not> isInteger x then Bad PayloadMismatch
                         else (case makeVal key \<lfloor>x\<rfloor> of
                                 None \<Rightarrow> Threw
                               | Some w \<Rightarrow> if s = w then Fine else Bad PayloadMismatch))
           | _ \<Rightarrow> Bad KeyMismatch)
      | _ \<Rightarrow> Bad NotAString)"

section \<open>What the checks accept\<close>

lemma intText_units: "c \<in> set (intText k) \<Longrightarrow> c \<noteq> 35 \<and> c < 58"
  using decimal_digits digit_units by (fastforce simp: intText_def list_all_iff split: if_splits)

lemma starts_one [simp]: "starts_with [x] s = (s \<noteq> [] \<and> hd s = x)"
  by (cases s) auto

lemma index_from_first: "x \<notin> set s \<Longrightarrow> index_from [x] i (s @ x # r) = Some (i + length s)"
  by (induction s arbitrary: i) (subst index_from.simps; force)+

lemma index_from_none: "index_from [x] i s = None \<longleftrightarrow> x \<notin> set s"
  by (induction s arbitrary: i) (subst index_from.simps; force)+

lemma index_from_found: "index_from [x] i s = Some p \<Longrightarrow> i \<le> p \<and> s ! (p - i) = x \<and> x \<notin> set (take (p - i) s)"
proof (induction s arbitrary: i)
  case Nil
  then show ?case by (subst (asm) index_from.simps) simp
next
  case (Cons c s)
  show ?case
  proof (cases "c = x")
    case False
    then have "index_from [x] (i + 1) s = Some p" using Cons.prems by (subst (asm) index_from.simps) simp
    with Cons.IH have "i + 1 \<le> p \<and> s ! (p - (i + 1)) = x \<and> x \<notin> set (take (p - (i + 1)) s)" .
    then show ?thesis using False by (auto simp: nth_Cons' take_Cons' Suc_diff_le diff_Suc split: nat.split)
  qed (use Cons.prems in \<open>subst (asm) index_from.simps, simp\<close>)
qed

lemma made_parts:
  assumes "35 \<notin> set key" "makeVal key ver = Some s"
  obtains f where "filler ver = Some f" "s = key @ 35 # intText ver @ 35 # f"
    "indexOf s [35] 0 = Some (length key)" "indexOf s [35] (length key + 1) = Some (length key + 1 + length (intText ver))"
proof -
  obtain f where f: "filler ver = Some f" "s = key @ 35 # intText ver @ 35 # f"
    using assms(2) by (auto simp: makeVal_def)
  have "35 \<notin> set (intText ver)" using intText_units by blast
  then show thesis
    using that [OF f] assms(1) f(2) by (simp add: indexOf_def index_from_first)
qed

lemma makeVal_version: "35 \<notin> set key \<Longrightarrow> makeVal key ver = Some s \<Longrightarrow> versionOf s = Some (of_int ver)"
  by (erule made_parts, assumption) (simp add: versionOf_def numberOf_intText)

lemma made_fine: "35 \<notin> set key \<Longrightarrow> makeVal key ver = Some s \<Longrightarrow> verifyText key (VStr s) = Fine"
  by (frule (1) made_parts) (simp_all add: verifyText_def numberOf_intText isInteger_def)

lemma fine_made: "verifyText key (VStr s) = Fine \<Longrightarrow> \<exists>ver. makeVal key ver = Some s"
  by (auto simp: verifyText_def split: option.splits if_splits)

lemma verifyAsync_fine: "verifyAsync key (VStr s) = Fine \<longleftrightarrow> verifyText key (VStr s) = Fine"
  by (simp add: verifyAsync_def verifyText_def split: option.split)



end
