(* ===== verification/LoadTest.thy ===== *)
theory LoadTest
  imports Written LoadText
begin

text \<open>
  A worker of \<^verbatim>\<open>src/loadtest/load.js\<close> (lines 312 to 369) over the cluster: the generator of its
  choices, the five flows of \<^verbatim>\<open>step\<close> and its counters, with strings as values (mode \<^verbatim>\<open>bytes\<close>). A flow
  that throws is caught by \<^verbatim>\<open>step\<close>; what it had counted stays. What the load test is for, that no
  reader ever sees a wrong value, is a property of the model.
\<close>

section \<open>Choices\<close>

text \<open>\<^verbatim>\<open>rnd * 1664525 + 1013904223\<close> is exact in a double, and \<^verbatim>\<open>>>> 0\<close> leaves 32 bits of it.\<close>

definition next_rnd :: "32 word \<Rightarrow> 32 word" where
  "next_rnd rnd = rnd * 1664525 + 1013904223"

definition fraction :: "32 word \<Rightarrow> rat" where
  "fraction rnd = of_nat (unat rnd) / 4294967296"

definition pick :: "32 word \<Rightarrow> nat \<Rightarrow> nat" where
  "pick rnd n = unat rnd * n div 4294967296"

function least_pow :: "nat \<Rightarrow> rat \<Rightarrow> nat" where
  "least_pow e x = (if e \<ge> 22 \<or> x \<le> 2 ^ e then e else least_pow (e + 1) x)"
  by pat_completeness auto

termination
  by (relation "measure (\<lambda>(e, _). 22 - e)") auto

declare least_pow.simps [simp del]

definition slotsFor :: "rat \<Rightarrow> nat" where
  "slotsFor bytes = 2 ^ least_pow 12 (bytes / 256)"

lemma next_rnd_exact:
  "unat rnd * 1664525 + 1013904223 < 2 ^ 53"
  "unat (next_rnd rnd) = (unat rnd * 1664525 + 1013904223) mod 2 ^ 32"
proof -
  have "unat rnd < 2 ^ 32" using unsigned_less [of rnd, where ?'a = nat] by simp
  then show "unat rnd * 1664525 + 1013904223 < 2 ^ 53" by simp
  show "unat (next_rnd rnd) = (unat rnd * 1664525 + 1013904223) mod 2 ^ 32"
    by (simp add: next_rnd_def unat_word_ariths mod_simps)
qed

lemma pick_range: "0 < n \<Longrightarrow> pick rnd n < n"
proof -
  assume n: "0 < n"
  have "unat rnd < 4294967296" using unsigned_less [of rnd, where ?'a = nat] by simp
  then have "unat rnd * n < 4294967296 * n" using n by simp
  then show ?thesis unfolding pick_def by (rule less_mult_imp_div_less [of _ n, unfolded mult.commute [of n]])
qed

lemma least_pow_enough: "e \<le> 22 \<Longrightarrow> least_pow e x \<le> 22 \<and> e \<le> least_pow e x \<and> (x \<le> 2 ^ 22 \<longrightarrow> x \<le> 2 ^ least_pow e x)"
proof (induction e x rule: least_pow.induct)
  case (1 e x)
  then show ?case by (subst (1 2 3) least_pow.simps) auto
qed

section \<open>The worker\<close>

record loadCfg =
  cId :: nat
  cHot :: nat
  cCold :: nat
  cShared :: nat

record loadWorker =
  wOps :: nat
  wF1 :: nat
  wF2 :: nat
  wF3 :: nat
  wF4 :: nat
  wL1 :: nat
  wL2 :: nat
  wMiss :: nat
  wProp :: nat
  wWrong :: nat
  wErr :: nat
  wOwn :: nat
  wShared :: nat
  wSeen :: "(jsstr, rat option) jsmap"
  wRnd :: "32 word"

text \<open>A flow answers its state and whether it threw.\<close>

type_synonym flow = "loadWorker \<times> proc \<times> bool"

definition hits :: "string \<Rightarrow> nat \<Rightarrow> proc \<Rightarrow> nat" where
  "hits c n p = iStats (inst_of n p) c"

text \<open>\<^verbatim>\<open>cache.set(k, makeVal(k, ver))\<close>; \<open>None\<close> where it throws.\<close>

definition set_made ::
    "(jsstr \<Rightarrow> hash option) \<Rightarrow> env \<Rightarrow> nat \<Rightarrow> jsstr \<Rightarrow> nat \<Rightarrow> proc \<Rightarrow> bool option \<times> proc" where
  "set_made HK e n key ver p =
     (case makeVal key (int ver) of
        None \<Rightarrow> (None, p)
      | Some s \<Rightarrow> (case setKey HK e (VStr key) (VStr s) None n p of (Inl _, q) \<Rightarrow> (None, q) | (Inr b, q) \<Rightarrow> (Some b, q)))"

definition judge :: "jsstr \<Rightarrow> jsval \<Rightarrow> loadWorker \<Rightarrow> loadWorker \<times> bool" where
  "judge key v w =
     (case verifyText key v of Fine \<Rightarrow> (w, False) | Bad _ \<Rightarrow> (w\<lparr>wWrong := wWrong w + 1\<rparr>, False) | Threw \<Rightarrow> (w, True))"

definition read_hot :: "(jsstr \<Rightarrow> hash option) \<Rightarrow> env \<Rightarrow> env \<Rightarrow> nat \<Rightarrow> jsstr \<Rightarrow> loadWorker \<Rightarrow> proc \<Rightarrow> flow" where
  "read_hot HK e e' n key w p =
     (case get_at HK e (VStr key) NumUndef n p of
        (Inl _, p1) \<Rightarrow> (w, p1, True)
      | (Inr v, p1) \<Rightarrow>
          (let (w1, p2, threw) =
                 (if v = VUndef then (case set_made HK e' n key 1 p1 of (b, q) \<Rightarrow> (w, q, b = None))
                  else (case judge key v w of (w', t) \<Rightarrow> (w', p1, t)))
           in if threw then (w1, p2, True)
              else (let w2 = (if hits ''l1Hits'' n p2 > hits ''l1Hits'' n p then w1\<lparr>wL1 := wL1 w1 + 1\<rparr> else w1\<lparr>wL2 := wL2 w1 + 1\<rparr>)
                    in (w2\<lparr>wF1 := wF1 w2 + 1\<rparr>, p2, False))))"

definition read_cold :: "(jsstr \<Rightarrow> hash option) \<Rightarrow> env \<Rightarrow> env \<Rightarrow> nat \<Rightarrow> jsstr \<Rightarrow> loadWorker \<Rightarrow> proc \<Rightarrow> flow" where
  "read_cold HK e e' n key w p =
     (case get_at HK e (VStr key) NumUndef n p of
        (Inl _, p1) \<Rightarrow> (w, p1, True)
      | (Inr v, p1) \<Rightarrow>
          (let (w1, p2, threw) =
                 (if v = VUndef
                  then (let w0 = w\<lparr>wMiss := wMiss w + 1\<rparr> in case set_made HK e' n key 1 p1 of (b, q) \<Rightarrow> (w0, q, b = None))
                  else (case judge key v w of
                          (w', True) \<Rightarrow> (w', p1, True)
                        | (w', False) \<Rightarrow>
                            (if hits ''l2Hits'' n p1 > hits ''l2Hits'' n p then w'\<lparr>wL2 := wL2 w' + 1\<rparr>
                             else if hits ''l1Hits'' n p1 > hits ''l1Hits'' n p then w'\<lparr>wL1 := wL1 w' + 1\<rparr> else w',
                             p1, False)))
           in if threw then (w1, p2, True) else (w1\<lparr>wF2 := wF2 w1 + 1\<rparr>, p2, False)))"

definition count_set :: "bool option \<times> proc \<Rightarrow> loadWorker \<Rightarrow> flow" where
  "count_set r w =
     (case r of
        (None, q) \<Rightarrow> (w, q, True)
      | (Some b, q) \<Rightarrow> (if b then w else w\<lparr>wErr := wErr w + 1\<rparr>, q, False))"

definition write_own :: "(jsstr \<Rightarrow> hash option) \<Rightarrow> env \<Rightarrow> nat \<Rightarrow> jsstr \<Rightarrow> loadWorker \<Rightarrow> proc \<Rightarrow> flow" where
  "write_own HK e n key w p =
     (let w1 = w\<lparr>wOwn := wOwn w + 1\<rparr>;
          (w2, q, threw) = count_set (set_made HK e n key (wOwn w1) p) w1
      in if threw then (w2, q, True) else (w2\<lparr>wF3 := wF3 w2 + 1\<rparr>, q, False))"

definition write_shared :: "(jsstr \<Rightarrow> hash option) \<Rightarrow> env \<Rightarrow> nat \<Rightarrow> nat \<Rightarrow> jsstr \<Rightarrow> loadWorker \<Rightarrow> proc \<Rightarrow> flow" where
  "write_shared HK e num n key w p =
     (let w1 = w\<lparr>wShared := wShared w + 1\<rparr>;
          (w2, q, threw) = count_set (set_made HK e n key (wShared w1 * 100 + num) p) w1
      in if threw then (w2, q, True) else (w2\<lparr>wF4 := wF4 w2 + 1\<rparr>, q, False))"

text \<open>\<^verbatim>\<open>%\<close>, of which \<open>None\<close>, NaN, is never the id.\<close>

definition jsRem :: "rat \<Rightarrow> rat \<Rightarrow> rat" where
  "jsRem x m = (if 0 \<le> x then x - m * of_int \<lfloor>x / m\<rfloor> else x - m * of_int \<lceil>x / m\<rceil>)"

text \<open>The suffix of a version names its writer where the id has two digits, and nobody where it has more.\<close>

lemma suffix_names_the_writer:
  "num < 100 \<Longrightarrow> jsRem (of_nat (v * 100 + num)) 100 = of_nat num" "100 \<le> num \<Longrightarrow> jsRem (of_nat k) 100 \<noteq> of_nat num"
proof -
  have r: "jsRem (of_nat k) 100 = of_nat (k mod 100)" for k
  proof -
    have "\<lfloor>rat_of_nat k / 100\<rfloor> = int (k div 100)"
      using floor_divide_of_nat_eq [where ?'a = rat, of k 100] by simp
    then have "jsRem (of_nat k) 100 = rat_of_nat k - rat_of_nat (100 * (k div 100))" by (simp add: jsRem_def)
    also have "\<dots> = rat_of_nat (k - 100 * (k div 100))" by (subst of_nat_diff) simp_all
    also have "k - 100 * (k div 100) = k mod 100" by (rule minus_mult_div_eq_mod)
    finally show ?thesis .
  qed
  show "num < 100 \<Longrightarrow> jsRem (of_nat (v * 100 + num)) 100 = of_nat num" by (subst r) simp
  show "jsRem (of_nat k) 100 \<noteq> of_nat num" if "100 \<le> num"
  proof -
    have "k mod 100 < 100" by simp
    then have "k mod 100 \<noteq> num" using that by linarith
    then show ?thesis by (simp add: r)
  qed
qed

definition observe :: "(jsstr \<Rightarrow> hash option) \<Rightarrow> env \<Rightarrow> nat \<Rightarrow> nat \<Rightarrow> jsstr \<Rightarrow> loadWorker \<Rightarrow> proc \<Rightarrow> flow" where
  "observe HK e num n key w p =
     (case get_at HK e (VStr key) NumUndef n p of
        (Inl _, p1) \<Rightarrow> (w, p1, True)
      | (Inr v, p1) \<Rightarrow>
          (if v = VUndef then (w\<lparr>wMiss := wMiss w + 1\<rparr>, p1, False)
           else (case verifyText key v of
                   Threw \<Rightarrow> (w, p1, True)
                 | Bad _ \<Rightarrow> (w\<lparr>wWrong := wWrong w + 1\<rparr>, p1, False)
                 | Fine \<Rightarrow>
                     (case v of
                        VStr s \<Rightarrow>
                          (let ver = versionOf s
                           in if (case ver of None \<Rightarrow> True | Some x \<Rightarrow> jsRem x 100 \<noteq> of_nat num) \<and>
                                 (ver = None \<or> map_of (wSeen w) key \<noteq> Some ver)
                              then (w\<lparr>wProp := wProp w + 1, wSeen := AList.update key ver (wSeen w)\<rparr>, p1, False)
                              else (w, p1, False))
                      | _ \<Rightarrow> (w, p1, True)))))"

definition hotKey :: "nat \<Rightarrow> jsstr" where
  "hotKey j = ascii ''hot:'' @ decimal j"

definition coldKey :: "nat \<Rightarrow> jsstr" where
  "coldKey j = ascii ''cold:'' @ decimal j"

definition sharedKey :: "nat \<Rightarrow> jsstr" where
  "sharedKey j = ascii ''shared:'' @ decimal j"

definition ownKey :: "nat \<Rightarrow> nat \<Rightarrow> jsstr" where
  "ownKey num j = ascii ''own:'' @ decimal num @ ascii '':'' @ decimal j"

text \<open>One \<^verbatim>\<open>step\<close>: a draw for the flow, a draw for the key.\<close>

definition load_flow ::
    "(jsstr \<Rightarrow> hash option) \<Rightarrow> loadCfg \<Rightarrow> nat \<Rightarrow> env \<Rightarrow> env \<Rightarrow> rat \<Rightarrow> 32 word \<Rightarrow> loadWorker \<Rightarrow> proc \<Rightarrow> flow" where
  "load_flow HK c n e e' r y w p =
     (if r < 2 / 5 then read_hot HK e e' n (hotKey (pick y (cHot c))) w p
      else if r < 13 / 20 then read_cold HK e e' n (coldKey (pick y (cCold c))) w p
      else if r < 4 / 5 then write_own HK e n (ownKey (cId c) (pick y 2000)) w p
      else if r < 9 / 10 then write_shared HK e (cId c) n (sharedKey (pick y (cShared c))) w p
      else observe HK e (cId c) n (sharedKey (pick y (cShared c))) w p)"

definition load_step ::
    "(jsstr \<Rightarrow> hash option) \<Rightarrow> loadCfg \<Rightarrow> nat \<Rightarrow> env \<Rightarrow> env \<Rightarrow> loadWorker \<Rightarrow> proc \<Rightarrow> loadWorker \<times> proc" where
  "load_step HK c n e e' w p =
     (let x = next_rnd (wRnd w); y = next_rnd x;
          (w2, q, threw) = load_flow HK c n e e' (fraction x) y (w\<lparr>wRnd := y\<rparr>) p
      in if threw then (w2\<lparr>wErr := wErr w2 + 1\<rparr>, q) else (w2\<lparr>wOps := wOps w2 + 1\<rparr>, q))"

section \<open>What the workers write\<close>

text \<open>Under a key of its bands the test writes what \<open>makeVal\<close> makes; the probes of the primary are apart.\<close>

definition plainKey :: "jsstr \<Rightarrow> bool" where
  "plainKey key \<longleftrightarrow> list_all (\<lambda>c. c < 128 \<and> c \<noteq> 35) key"

definition loadG :: provenance where
  "loadG key v \<longleftrightarrow> starts_with (ascii ''probe:'') key \<or> plainKey key \<and> (\<exists>ver. map_option VStr (makeVal key ver) = Some v)"

definition bandKey :: "jsstr \<Rightarrow> bool" where
  "bandKey key \<longleftrightarrow> plainKey key \<and> \<not> starts_with (ascii ''probe:'') key"

lemma decimal_plain [simp]: "plainKey (decimal n)"
proof -
  have "c < 128 \<and> c \<noteq> 35" if "c \<in> set (decimal n)" for c
    using that decimal_digits [of n] digit_units [of c] by (auto simp: list_all_iff word_less_nat_alt)
  then show ?thesis by (simp add: plainKey_def list_all_iff)
qed

lemma plainKey_append [simp]: "plainKey (s @ t) = (plainKey s \<and> plainKey t)" "plainKey (c # s) = (c < 128 \<and> c \<noteq> 35 \<and> plainKey s)"
  "plainKey []"
  by (simp_all add: plainKey_def)

lemma band_keys [simp]: "bandKey (hotKey j)" "bandKey (coldKey j)" "bandKey (sharedKey j)" "bandKey (ownKey i j)"
  by (simp_all add: bandKey_def hotKey_def coldKey_def sharedKey_def ownKey_def ascii_def)

lemma small_unit: "0 \<le> x \<Longrightarrow> x < 128 \<Longrightarrow> (word_of_int x :: cunit) < 128"
  by (simp add: word_less_nat_alt unsigned_of_int take_bit_int_eq_self)

lemma filler_plain: "filler ver = Some f \<Longrightarrow> c \<in> set f \<Longrightarrow> c < 128"
  using small_unit [of "97 + ver smod 26"] smod_int_range [where a = ver and b = 26]
  by (auto simp: filler_def Let_def split: if_splits)

lemma plain_stored: "\<forall>c\<in>set s. c < 128 \<Longrightarrow> fold_loop s = s"
proof (induction s)
  case (Cons c s)
  then have "plainUnit c" by (auto simp: plainUnit_def word_less_nat_alt)
  then show ?case using Cons by simp
qed simp

lemma made_plain: "plainKey key \<Longrightarrow> makeVal key ver = Some s \<Longrightarrow> \<forall>c\<in>set s. c < 128"
proof -
  assume k: "plainKey key" "makeVal key ver = Some s"
  then obtain f where f: "filler ver = Some f" "s = key @ 35 # intText ver @ 35 # f" by (auto simp: makeVal_def)
  have "c < 128" if "c < 58" for c :: cunit using that by (auto simp: word_less_nat_alt)
  then show ?thesis
    using k(1) f filler_plain [OF f(1)] intText_units by (auto simp: plainKey_def list_all_iff)
qed

lemma loadG_stored: "stored_ok loadG"
  by (auto simp: stored_ok_def loadG_def plain_stored [OF made_plain])

lemma loadG_fine: "bandKey key \<Longrightarrow> loadG key v \<Longrightarrow> verifyText key v = Fine"
  using made_fine [of key] by (auto simp: loadG_def bandKey_def plainKey_def list_all_iff)

lemma made_loadG: "bandKey key \<Longrightarrow> makeVal key ver = Some s \<Longrightarrow> loadG key (VStr s)"
  by (auto simp: loadG_def bandKey_def)

end
