(* ===== verification/LoadRun.thy ===== *)
theory LoadRun
  imports LoadTest
begin

text \<open>
  The load test as a run of the cluster: its workers take their steps, anything else that processes do happens
  between them. The check of the test never fails.
\<close>

section \<open>A step is a few calls\<close>

abbreviation calls :: "(jsstr \<Rightarrow> hash option) \<Rightarrow> nat \<Rightarrow> proc \<Rightarrow> proc \<Rightarrow> bool" where
  "calls HK n \<equiv> (object_step loadG HK n)\<^sup>*\<^sup>*"

lemma get_calls: "get_at HK e (VStr key) lv n p = (x, q) \<Longrightarrow> calls HK n p q"
  using object_step.get [of loadG HK n p e "VStr key" lv] by auto

lemma set_calls:
  assumes "bandKey key" "set_made HK e n key ver p = (x, q)"
  shows "calls HK n p q"
proof (cases "makeVal key (int ver)")
  case (Some s)
  have "object_step loadG HK n p (snd (setKey HK e (VStr key) (VStr s) None n p))"
    using made_loadG [OF assms(1) Some] by (intro object_step.set) simp
  then show ?thesis using assms(2) Some by (auto simp: set_made_def split: prod.splits sum.splits)
qed (use assms(2) in \<open>simp add: set_made_def\<close>)

text \<open>What the check needs of a process: what its reads answer is allowed.\<close>

definition truthful :: "(jsstr \<Rightarrow> hash option) \<Rightarrow> nat \<Rightarrow> proc \<Rightarrow> bool" where
  "truthful HK n p \<longleftrightarrow>
     (\<forall>e key lv v q. get_at HK e (VStr key) lv n p = (Inr v, q) \<longrightarrow> v = VUndef \<or> loadG key v)"

lemma truthful_fine:
  "truthful HK n p \<Longrightarrow> bandKey key \<Longrightarrow> get_at HK e (VStr key) lv n p = (Inr v, q) \<Longrightarrow> v \<noteq> VUndef \<Longrightarrow> verifyText key v = Fine"
  using loadG_fine unfolding truthful_def by blast

lemma flows_calls:
  assumes "truthful HK n p" "bandKey key"
  shows "read_hot HK e e' n key w p = (w', q, t) \<Longrightarrow> wWrong w' = wWrong w \<and> calls HK n p q"
    and "read_cold HK e e' n key w p = (w', q, t) \<Longrightarrow> wWrong w' = wWrong w \<and> calls HK n p q"
    and "write_own HK e n key w p = (w', q, t) \<Longrightarrow> wWrong w' = wWrong w \<and> calls HK n p q"
    and "write_shared HK e num n key w p = (w', q, t) \<Longrightarrow> wWrong w' = wWrong w \<and> calls HK n p q"
    and "observe HK e num n key w p = (w', q, t) \<Longrightarrow> wWrong w' = wWrong w \<and> calls HK n p q"
proof -
  note fine = truthful_fine [OF assms]
  have set: "calls HK n p r" if "get_at HK e (VStr key) lv n p = (x, s)" "set_made HK e' n key ver s = (y, r)" for e e' lv x s ver y r
    using get_calls [OF that(1)] set_calls [OF assms(2) that(2)] by simp
  show "read_hot HK e e' n key w p = (w', q, t) \<Longrightarrow> wWrong w' = wWrong w \<and> calls HK n p q"
    using fine set get_calls
    by (auto simp: read_hot_def judge_def Let_def split: prod.splits sum.splits if_splits)
  show "read_cold HK e e' n key w p = (w', q, t) \<Longrightarrow> wWrong w' = wWrong w \<and> calls HK n p q"
    using fine set get_calls
    by (auto simp: read_cold_def judge_def Let_def split: prod.splits sum.splits if_splits bool.splits)
  show "write_own HK e n key w p = (w', q, t) \<Longrightarrow> wWrong w' = wWrong w \<and> calls HK n p q"
    using set_calls [OF assms(2)]
    by (auto simp: write_own_def count_set_def Let_def split: prod.splits option.splits if_splits)
  show "write_shared HK e num n key w p = (w', q, t) \<Longrightarrow> wWrong w' = wWrong w \<and> calls HK n p q"
    using set_calls [OF assms(2)]
    by (auto simp: write_shared_def count_set_def Let_def split: prod.splits option.splits if_splits)
  show "observe HK e num n key w p = (w', q, t) \<Longrightarrow> wWrong w' = wWrong w \<and> calls HK n p q"
    using fine get_calls
    by (auto simp: observe_def Let_def split: prod.splits sum.splits if_splits jsval.splits)
qed

lemma load_flow_calls:
  assumes "truthful HK n p" "load_flow HK c n e e' r y w p = (w', q, t)"
  shows "wWrong w' = wWrong w \<and> calls HK n p q"
  using assms(2) flows_calls [OF assms(1) band_keys(1)] flows_calls [OF assms(1) band_keys(2)]
    flows_calls [OF assms(1) band_keys(3)] flows_calls [OF assms(1) band_keys(4)]
  unfolding load_flow_def by (simp only: split: if_splits)

lemma load_step_calls:
  assumes "truthful HK n p" "load_step HK c n e e' w p = (w', q)"
  shows "wWrong w' = wWrong w \<and> calls HK n p q"
proof -
  obtain w2 q2 t where f: "load_flow HK c n e e' (fraction (next_rnd (wRnd w))) (next_rnd (next_rnd (wRnd w)))
      (w\<lparr>wRnd := next_rnd (next_rnd (wRnd w))\<rparr>) p = (w2, q2, t)" by (rule prod_cases3)
  show ?thesis
    using load_flow_calls [OF assms(1) f] assms(2) f by (auto simp: load_step_def Let_def split: if_splits)
qed

section \<open>The run\<close>

inductive load_move :: "(jsstr \<Rightarrow> hash option) \<Rightarrow> cluster \<times> (nat \<Rightarrow> loadWorker) \<Rightarrow> cluster \<times> (nat \<Rightarrow> loadWorker) \<Rightarrow> bool"
  for HK where
  work: "running u k x p \<Longrightarrow> map_of (yInsts p) n \<noteq> None \<Longrightarrow> load_step HK c n e e' (ws k) p = (w', q) \<Longrightarrow>
    load_move HK (u, ws) (act k q u, ws(k := w'))"
| other: "cluster_step loadG HK k u u' \<Longrightarrow> load_move HK (u, ws) (u', ws)"

lemma act_act: "uProcs u k = Some (x, p) \<Longrightarrow> act k r (act k q u) = act k r u"
  by (auto simp: act_def remap_def share_def fun_eq_iff map_option_case split: option.split)

lemma calls_reach:
  assumes "calls HK n p q" "cluster_reach loadG HK u" "running u k x p" "map_of (yInsts p) n \<noteq> None"
  shows "cluster_reach loadG HK (act k q u) \<and> map_of (yInsts q) n \<noteq> None"
  using assms(1)
proof (induction rule: rtranclp_induct)
  case base
  have "act k p u = remap k x p u"
    using assms(2,3) cluster_process by (intro act_same [OF _ cluster_reach_ok [OF assms(2)]]) (auto simp: running_def)
  also have "\<dots> = u" using assms(3) by (simp add: remap_def running_def fun_upd_idem)
  finally show ?case using assms(2,4) by simp
next
  case (step q r)
  have q: "running (act k q u) k x q" using assms(3) by (simp add: running_def act_def remap_def share_def)
  have "pure_on loadG {n} q"
    using reach_pure [OF _ loadG_stored] q step.IH by (auto simp: running_def pure_on_def)
  then have "map_of (yInsts r) n \<noteq> None"
    using object_step_keeps [OF step.hyps(2) loadG_stored] by (simp add: keeps_def pure_on_def)
  moreover have "cluster_step loadG HK k (act k q u) (act k r (act k q u))"
    using q step.IH step.hyps(2) by (intro cluster_step.call) auto
  ultimately show ?case
    using step.IH assms(3) by (auto simp: running_def act_act intro: cluster_reach_step)
qed

lemma reach_truthful: "cluster_reach loadG HK u \<Longrightarrow> running u k x p \<Longrightarrow> map_of (yInsts p) n \<noteq> None \<Longrightarrow> truthful HK n p"
  using get_at_pure [of loadG "{n}" p n HK] reach_pure [OF _ loadG_stored]
  unfolding truthful_def running_def pure_on_def by blast

lemma load_move_ok:
  assumes "load_move HK s s'" "cluster_reach loadG HK (fst s)"
  shows "cluster_reach loadG HK (fst s') \<and> wWrong (snd s' k) = wWrong (snd s k)"
  using assms
proof (induction rule: load_move.induct)
  case (work u j x p n c e e' ws w' q)
  have u: "cluster_reach loadG HK u" using work.prems by simp
  have t: "wWrong w' = wWrong (ws j) \<and> calls HK n p q"
    using load_step_calls [OF reach_truthful [OF u work.hyps(1,2)] work.hyps(3)] .
  show ?case using t calls_reach [OF _ u work.hyps(1,2)] by simp
qed (auto intro: cluster_reach_step)

lemma load_moves_wrong:
  assumes "(load_move HK)\<^sup>*\<^sup>* (u, ws) s" "cluster_reach loadG HK u"
  shows "cluster_reach loadG HK (fst s) \<and> wWrong (snd s k) = wWrong (ws k)"
  using assms(1)
proof (induction rule: rtranclp_induct)
  case (step s t)
  then show ?case using load_move_ok [OF step.hyps(2)] by auto
qed (simp add: assms(2))

text \<open>C36: however the workers of the load test and all other processes of the cluster interleave, as long as
  nothing but the values of \<open>makeVal\<close> is written under the keys of its bands, and however the caches evict,
  lose and replay, the number of wrong values that each worker counts stays what it was: zero, in a run of the
  test.\<close>

theorem load_test_counts_no_wrong_value:
  assumes "(load_move HK)\<^sup>*\<^sup>* (u, ws) s" "cluster_reach loadG HK u"
  shows "wWrong (snd s k) = wWrong (ws k)"
  using load_moves_wrong [OF assms] by simp

definition xLoad :: loadWorker where
  "xLoad = \<lparr>wOps = 0, wF1 = 0, wF2 = 0, wF3 = 0, wF4 = 0, wL1 = 0, wL2 = 0, wMiss = 0, wProp = 0, wWrong = 0, wErr = 0,
     wOwn = 0, wShared = 0, wSeen = [], wRnd = 1 * 7919 + 13\<rparr>"

theorem load_test_counts_no_wrong_value_witness:
  "wWrong (fst (load_step xHK \<lparr>cId = 1, cHot = 300, cCold = 200000, cShared = 500\<rparr> 0 xEnv xEnv xLoad (xMember 1))) = 0"
proof -
  let ?c = "\<lparr>cId = 1, cHot = 300, cCold = 200000, cShared = 500\<rparr>" and ?u = "xTeam [0 \<mapsto> (0, xPrimary), 1 \<mapsto> (0, xMember 1)]"
  have u: "cluster_reach loadG xHK ?u" using team_worker [OF team_primary, where k = 1 and G = loadG] by simp
  obtain w q where s: "load_step xHK ?c 0 xEnv xEnv xLoad (xMember 1) = (w, q)" by force
  have "load_move xHK (?u, \<lambda>_. xLoad) (act 1 q ?u, (\<lambda>_. xLoad)(1 := w))"
    by (rule load_move.work [OF _ _ s]) (simp_all add: running_def xMember_def)
  then have "(load_move xHK)\<^sup>*\<^sup>* (?u, \<lambda>_. xLoad) (act 1 q ?u, (\<lambda>_. xLoad)(1 := w))" by (rule r_into_rtranclp)
  from load_test_counts_no_wrong_value [OF this u, of 1] have "wWrong w = wWrong xLoad" by simp
  also have "\<dots> = 0" by (simp add: xLoad_def)
  finally show ?thesis by (simp only: s fst_conv)
qed

end
