(* ===== verification/LeakVerdict.thy ===== *)
theory LeakVerdict
  imports Options "HOL-Library.Multiset"
begin

text \<open>
  What the load tests make of their samples: the leak verdict of \<^verbatim>\<open>src/loadtest/load.js\<close> (lines 190 to
  306) and the percentiles of \<^verbatim>\<open>src/loadtest/async.js\<close> (lines 61 to 66). A sample is a record, the name of a
  field is its selector, and numbers are rational.
\<close>

record sample =
  sT :: rat
  sHeap :: rat
  sRss :: rat
  pRss :: rat

section \<open>The series\<close>

definition mb :: "(sample \<Rightarrow> rat) \<Rightarrow> sample \<Rightarrow> rat" where
  "mb k x = k x / 1048576"

definition warmed :: "rat \<Rightarrow> sample list \<Rightarrow> sample list" where
  "warmed minutes series = filter (\<lambda>x. sT x > minutes * 60000 / 2) series"

text \<open>\<^verbatim>\<open>Math.min(...warm.map(...))\<close> of samples of which there is at least one.\<close>

definition low :: "(sample \<Rightarrow> rat) \<Rightarrow> sample list \<Rightarrow> rat" where
  "low k xs = Min (set (List.map (mb k) xs))"

definition band :: "(sample \<Rightarrow> rat) \<Rightarrow> sample list \<Rightarrow> rat" where
  "band k xs = Max (set (List.map (mb k) xs)) - low k xs"

text \<open>The least-squares fit, in MB per minute.\<close>

definition mean :: "rat list \<Rightarrow> rat" where
  "mean ys = sum_list ys / of_nat (length ys)"

definition slope :: "(sample \<Rightarrow> rat) \<Rightarrow> sample list \<Rightarrow> rat" where
  "slope k warm =
     (let ys = List.map (mb k) warm; xs = List.map (\<lambda>x. sT x / 60000) warm; n = length ys
      in if n < 3 then 0
         else (let xm = mean xs; ym = mean ys;
                   num = sum_list (List.map (\<lambda>(x, y). (x - xm) * (y - ym)) (zip xs ys));
                   den = sum_list (List.map (\<lambda>x. (x - xm)\<^sup>2) xs)
               in if den = 0 then 0 else num / den))"

definition window :: "nat \<Rightarrow> sample list \<Rightarrow> nat \<Rightarrow> sample list" where
  "window parts warm i =
     (let a = i * length warm div parts; b = (i + 1) * length warm div parts in drop a (take b warm))"

definition floors :: "(sample \<Rightarrow> rat) \<Rightarrow> nat \<Rightarrow> sample list \<Rightarrow> rat list" where
  "floors k parts warm =
     (if length warm < parts * 2 then [] else List.map (\<lambda>i. low k (window parts warm i)) [0..<parts])"

record halves =
  hA :: rat
  hB :: rat
  hRate :: rat

definition halfFloor :: "(sample \<Rightarrow> rat) \<Rightarrow> sample list \<Rightarrow> halves" where
  "halfFloor k warm =
     (let h = length warm div 2; lo = low k (take h warm); hi = low k (drop h warm);
          mins = (sT (last warm) - sT (warm ! h) + sT (warm ! (h - 1)) - sT (warm ! 0)) / 2 / 60000
      in \<lparr>hA = lo, hB = hi, hRate = (hi - lo) / max (1 / 10) mins\<rparr>)"

definition stillRising :: "(sample \<Rightarrow> rat) \<Rightarrow> sample list \<Rightarrow> bool" where
  "stillRising k warm = (let q = floors k 4 warm in length q \<ge> 4 \<and> last q \<ge> Max (set q))"

definition HEAP_LEAK :: rat where "HEAP_LEAK = 1 / 2"

definition RSS_LEAK :: rat where "RSS_LEAK = 2"

definition leaking :: "sample list \<Rightarrow> bool" where
  "leaking warm \<longleftrightarrow>
     \<not> length warm < 8 \<and>
     (hRate (halfFloor sHeap warm) > HEAP_LEAK \<and> stillRising sHeap warm \<or>
      hRate (halfFloor pRss warm) > RSS_LEAK \<and> stillRising pRss warm)"

definition load_pass :: "nat \<Rightarrow> nat \<Rightarrow> sample list \<Rightarrow> bool" where
  "load_pass wrong err warm \<longleftrightarrow> wrong = 0 \<and> err = 0 \<and> \<not> leaking warm"

section \<open>Percentiles\<close>

definition mergeLat :: "nat list option list \<Rightarrow> nat list" where
  "mergeLat rows = sort (concat (List.map (\<lambda>r. case r of None \<Rightarrow> [] | Some lat \<Rightarrow> lat) rows))"

definition pct :: "nat list \<Rightarrow> rat \<Rightarrow> nat" where
  "pct sorted' p = (if sorted' = [] then 0 else sorted' ! min (length sorted' - 1) (nat \<lfloor>of_nat (length sorted') * p / 100\<rfloor>))"

section \<open>The windows\<close>

lemma window_length: "0 < parts \<Longrightarrow> parts * 2 \<le> length warm \<Longrightarrow> i < parts \<Longrightarrow> window parts warm i \<noteq> []"
proof -
  assume a: "0 < parts" "parts * 2 \<le> length warm" "i < parts"
  let ?n = "length warm"
  have "i * ?n div parts + 1 = (i * ?n + parts) div parts" using a(1) by simp
  also have "\<dots> \<le> (i + 1) * ?n div parts" using a(2) by (intro div_le_mono) simp
  finally have l: "i * ?n div parts < (i + 1) * ?n div parts" by simp
  have "(i + 1) * ?n \<le> parts * ?n" using a(3) by (intro mult_right_mono) simp_all
  then have "(i + 1) * ?n div parts \<le> parts * ?n div parts" by (rule div_le_mono)
  then have "(i + 1) * ?n div parts \<le> ?n" using a(1) by simp
  then show ?thesis using l by (simp add: window_def Let_def)
qed

lemma windows_prefix: "concat (List.map (window parts warm) [0..<m]) = take (m * length warm div parts) warm"
proof (induction m)
  case (Suc m)
  let ?a = "m * length warm div parts" and ?b = "Suc m * length warm div parts"
  have "?a \<le> ?b" by (intro div_le_mono) simp
  then have "take ?a warm @ drop ?a (take ?b warm) = take ?b warm"
    by (metis append_take_drop_id min.absorb1 take_take)
  then show ?case using Suc by (simp add: window_def Let_def)
qed simp

lemma windows_cover: "0 < parts \<Longrightarrow> concat (List.map (window parts warm) [0..<parts]) = warm"
  by (simp add: windows_prefix)

lemma low_le: "x \<in> set xs \<Longrightarrow> low k xs \<le> mb k x"
  by (simp add: low_def)

lemma low_in: "xs \<noteq> [] \<Longrightarrow> \<exists>x\<in>set xs. low k xs = mb k x"
proof -
  assume "xs \<noteq> []"
  then have "Min (mb k ` set xs) \<in> mb k ` set xs" by (intro Min_in) simp_all
  then show ?thesis by (auto simp: low_def)
qed

lemma windows_set: "0 < parts \<Longrightarrow> set warm = (\<Union>i\<in>{0..<parts}. set (window parts warm i))"
  using arg_cong [OF windows_cover, of parts set warm] by simp

lemma window_low: "0 < parts \<Longrightarrow> parts * 2 \<le> length warm \<Longrightarrow> i < parts \<Longrightarrow>
    \<exists>y\<in>set (window parts warm i). low k (window parts warm i) = mb k y"
  by (rule low_in) (rule window_length)

lemma mb_le [simp]: "mb k x \<le> mb k y \<longleftrightarrow> k x \<le> k y" "mb k x < mb k y \<longleftrightarrow> k x < k y"
  by (simp_all add: mb_def divide_le_cancel divide_less_cancel)

text \<open>The windows over which the verdict takes its floors are not empty and together are the whole series, in
  order, so that no sample is left out, and the least of the floors is the least sample.\<close>

theorem floors_cover_every_sample:
  assumes "0 < parts" "parts * 2 \<le> length warm"
  shows "concat (List.map (window parts warm) [0..<parts]) = warm \<and> length (floors k parts warm) = parts \<and>
    (\<forall>i<parts. window parts warm i \<noteq> []) \<and> Min (set (floors k parts warm)) = low k warm"
proof (intro conjI)
  show c: "concat (List.map (window parts warm) [0..<parts]) = warm" using assms(1) by (rule windows_cover)
  show ne: "\<forall>i<parts. window parts warm i \<noteq> []" using window_length [OF assms] by blast
  show "length (floors k parts warm) = parts" using assms(2) by (simp add: floors_def)
  have f: "set (floors k parts warm) = (\<lambda>i. low k (window parts warm i)) ` {0..<parts}" using assms(2) by (simp add: floors_def)
  show "Min (set (floors k parts warm)) = low k warm"
  proof (rule antisym)
    have "warm \<noteq> []" using assms by auto
    then obtain x where x: "x \<in> set warm" "low k warm = mb k x" using low_in by blast
    then obtain i where i: "i < parts" "x \<in> set (window parts warm i)" using windows_set [OF assms(1), of warm] by auto
    then have "Min (set (floors k parts warm)) \<le> low k (window parts warm i)" by (intro Min_le) (auto simp: f)
    also have "\<dots> \<le> low k warm" using low_le [OF i(2)] x(2) by simp
    finally show "Min (set (floors k parts warm)) \<le> low k warm" .
    have "low k warm \<le> low k (window parts warm i)" if i: "i < parts" for i
    proof -
      obtain y where y: "y \<in> set (window parts warm i)" "low k (window parts warm i) = mb k y"
        using window_low [OF assms i] by blast
      then have "y \<in> set warm" using i windows_set [OF assms(1), of warm] by auto
      then show ?thesis using y(2) low_le by simp
    qed
    then show "low k warm \<le> Min (set (floors k parts warm))"
      using f assms(1) by (subst Min_ge_iff) auto
  qed
qed

theorem floors_cover_every_sample_witness:
  "length (floors sHeap 4 (replicate 9 \<lparr>sT = 0, sHeap = 1, sRss = 1, pRss = 1\<rparr>)) = 4"
  using floors_cover_every_sample [of 4 "replicate 9 \<lparr>sT = 0, sHeap = 1, sRss = 1, pRss = 1\<rparr>" sHeap] by simp

section \<open>The verdict\<close>

lemma rising_halves: "hRate (halfFloor k warm) > 0 \<Longrightarrow> low k (take (length warm div 2) warm) < low k (drop (length warm div 2) warm)"
proof -
  assume r: "hRate (halfFloor k warm) > 0"
  have "(0::rat) < max (1 / 10) m" for m by (simp add: max.strict_coboundedI1)
  then show ?thesis using r by (simp add: halfFloor_def Let_def zero_less_divide_iff not_less_iff_gr_or_eq)
qed

lemma rising_end:
  assumes "stillRising k warm" "x \<in> set (window 4 warm 3)" "i < 4"
  shows "\<exists>y\<in>set (window 4 warm i). k y \<le> k x"
proof -
  have n: "4 * 2 \<le> length warm" using assms(1) by (auto simp: stillRising_def floors_def Let_def split: if_splits)
  have f: "floors k 4 warm = List.map (\<lambda>i. low k (window 4 warm i)) [0..<4]" using n by (simp add: floors_def)
  have "low k (window 4 warm i) \<in> set (floors k 4 warm)" using assms(3) by (simp add: f)
  then have "low k (window 4 warm i) \<le> Max (set (floors k 4 warm))" by simp
  also have "\<dots> \<le> last (floors k 4 warm)" using assms(1) by (simp add: stillRising_def Let_def)
  also have "\<dots> = low k (window 4 warm 3)" by (simp add: f last_map upt_rec [of _ 4] flip: numeral_3_eq_3)
  also have "\<dots> \<le> mb k x" using assms(2) by (rule low_le)
  finally have "low k (window 4 warm i) \<le> mb k x" .
  then show ?thesis using window_low [OF _ n assms(3), of k] by auto
qed

text \<open>C39: a run is called growing only if, for the heap or for the memory of the primary, the second half of its
  samples never came down to the lowest of the first half, and the last quarter never fell below the
  floor of any quarter: a run that rose and came back down, or whose peaks alone rise, is not called
  growing.\<close>

theorem growing_runs_never_came_back:
  assumes "leaking warm"
  shows "\<exists>k\<in>{sHeap, pRss}.
    (\<exists>y\<in>set (take (length warm div 2) warm). \<forall>x\<in>set (drop (length warm div 2) warm). k y < k x) \<and>
    (\<forall>x\<in>set (window 4 warm 3). \<forall>i<4. \<exists>y\<in>set (window 4 warm i). k y \<le> k x)"
proof -
  obtain k where k: "k \<in> {sHeap, pRss}" "hRate (halfFloor k warm) > 0" "stillRising k warm" "8 \<le> length warm"
  proof (cases "hRate (halfFloor sHeap warm) > HEAP_LEAK \<and> stillRising sHeap warm")
    case True
    then show thesis using assms that [of sHeap] by (simp add: leaking_def HEAP_LEAK_def)
  next
    case False
    then show thesis using assms that [of pRss] by (auto simp: leaking_def RSS_LEAK_def)
  qed
  obtain y where y: "y \<in> set (take (length warm div 2) warm)" "low k (take (length warm div 2) warm) = mb k y"
    using low_in [of "take (length warm div 2) warm" k] k(4) by fastforce
  have "k y < k x" if "x \<in> set (drop (length warm div 2) warm)" for x
  proof -
    have "mb k y < mb k x" using rising_halves [OF k(2)] low_le [OF that, of k] y(2) by linarith
    then show ?thesis by simp
  qed
  then show ?thesis using k(1) y(1) rising_end [OF k(3)] by blast
qed

text \<open>A heap that grows by a megabyte a minute.\<close>

definition xGrowing :: "sample list" where
  "xGrowing = List.map (\<lambda>i. \<lparr>sT = of_nat i * 60000, sHeap = of_nat i * 1048576, sRss = 0, pRss = 0\<rparr>) [0..<8]"

theorem growing_runs_never_came_back_witness:
  "leaking xGrowing \<and> (\<exists>k\<in>{sHeap, pRss}. \<exists>y\<in>set (take 4 xGrowing). \<forall>x\<in>set (drop 4 xGrowing). k y < k x)"
proof -
  have "leaking xGrowing" by code_simp
  moreover have "length xGrowing div 2 = 4" by (simp add: xGrowing_def)
  ultimately show ?thesis using growing_runs_never_came_back [of xGrowing] by auto
qed

section \<open>What the other estimators are worth\<close>

text \<open>A percentile of the merged samples is one of them, and as many as it says are at or below it.\<close>

lemma merged_sorted: "sorted (mergeLat rows)" "mset (mergeLat rows) = (\<Sum>r\<leftarrow>rows. mset (case r of None \<Rightarrow> [] | Some lat \<Rightarrow> lat))"
  by (simp_all add: mergeLat_def mset_concat comp_def)

lemma pct_counts:
  assumes "xs \<noteq> []" "sorted xs" "0 \<le> p" "p < 100"
  shows "pct xs p \<in> set xs \<and> of_nat (length xs) * p / 100 < of_nat (length (filter (\<lambda>x. x \<le> pct xs p) xs))"
proof -
  let ?m = "nat \<lfloor>of_nat (length xs) * p / 100\<rfloor>"
  have n: "(0::rat) < of_nat (length xs)" using assms(1) by simp
  have "of_nat (length xs) * p / 100 < of_nat (length xs)" using assms(4) n by (simp add: field_simps)
  then have m: "?m < length xs" using assms(3) by (simp add: nat_less_iff floor_less_iff)
  then have "min (length xs - 1) ?m = ?m" by simp
  then have x: "pct xs p = xs ! ?m" using assms(1) by (simp add: pct_def)
  have "take (Suc ?m) xs = filter (\<lambda>x. x \<le> pct xs p) (take (Suc ?m) xs)"
  proof (rule sym, rule filter_True, rule ballI)
    fix y
    assume "y \<in> set (take (Suc ?m) xs)"
    then obtain j where "j \<le> ?m" "y = xs ! j" by (auto simp: in_set_conv_nth less_Suc_eq_le)
    then show "y \<le> pct xs p" using m assms(2) by (simp add: x sorted_nth_mono)
  qed
  then have "length (take (Suc ?m) xs) \<le> length (filter (\<lambda>x. x \<le> pct xs p) xs)"
    by (metis append_take_drop_id filter_append le_add1 length_append)
  then have "Suc ?m \<le> length (filter (\<lambda>x. x \<le> pct xs p) xs)" using m by simp
  moreover have "of_nat (length xs) * p / 100 < of_nat (Suc ?m)"
    using assms(3) by (simp add: of_nat_nat) linarith
  ultimately show ?thesis using m x by (metis nth_mem of_nat_le_iff order_less_le_trans)
qed

text \<open>On a series that is a line the fit is its slope.\<close>

lemma slope_of_a_line:
  assumes "\<And>x. x \<in> set warm \<Longrightarrow> mb k x = c + b * (sT x / 60000)" "3 \<le> length warm"
    and "\<not> (\<forall>x\<in>set warm. sT x = sT (hd warm))"
  shows "slope k warm = b"
proof -
  define xs where "xs = List.map (\<lambda>x. sT x / 60000) warm"
  let ?m = "mean xs" and ?n = "of_nat (length xs) :: rat" and ?d = "sum_list (List.map (\<lambda>x. (x - mean xs)\<^sup>2) xs)"
  have "warm \<noteq> []" using assms(2) by auto
  then have n: "0 < ?n" by (simp add: xs_def)
  have ys: "List.map (mb k) warm = List.map (\<lambda>x. c + b * x) xs" using assms(1) by (simp add: xs_def)
  have "mean (List.map (\<lambda>x. c + b * x) xs) = c + b * ?m"
  proof -
    have "sum_list (List.map (\<lambda>x. c + b * x) xs) = c * of_nat (length xs) + b * sum_list xs" for xs :: "rat list"
      by (induction xs) (simp_all add: algebra_simps)
    then show ?thesis using n by (simp add: mean_def add_divide_distrib)
  qed
  then have num: "sum_list (List.map (\<lambda>(x, y). (x - ?m) * (y - mean (List.map (\<lambda>x. c + b * x) xs)))
      (zip xs (List.map (\<lambda>x. c + b * x) xs))) = b * ?d"
    by (simp add: zip_map2 zip_same_conv_map comp_def sum_list_const_mult [symmetric] power2_eq_square algebra_simps)
  have "?d \<noteq> 0"
  proof
    assume "?d = 0"
    then have "\<forall>x\<in>set xs. x = ?m" by (subst (asm) sum_list_nonneg_eq_0_iff) auto
    then have "\<forall>x\<in>set warm. sT x / 60000 = ?m" by (simp add: xs_def)
    moreover have "hd warm \<in> set warm" using assms(2) by (cases warm) simp_all
    ultimately have "\<forall>x\<in>set warm. sT x / 60000 = sT (hd warm) / 60000" by simp
    then show False using assms(3) by simp
  qed
  moreover have "length xs = length warm" by (simp add: xs_def)
  ultimately show ?thesis
    using num assms(2) by (simp add: slope_def Let_def ys flip: xs_def)
qed

end
