(* ===== verification/AsyncTest.thy ===== *)
theory AsyncTest
  imports LoadRun LeakVerdict
begin

text \<open>
  A worker of \<^verbatim>\<open>src/loadtest/async.js\<close> (lines 134 to 222) over the cluster: as many lanes as \<^verbatim>\<open>CONC\<close>, each
  making one request after the other until the phase is over. A request is in three parts, up to the
  immediate, the eight reads, and after the microtask; the lanes interleave between the parts, and with
  whatever the other processes do. Values are strings (mode \<^verbatim>\<open>bytes\<close>). The random draws and the answers of
  the clocks are inputs.
\<close>

section \<open>The phase\<close>

datatype lane = Turn nat | Micro nat | Back | Over | Broken

datatype asCache = Noop | Real nat

record phase =
  phOps :: nat
  phReqs :: nat
  phWrong :: nat
  phVer :: nat
  phSink :: nat
  phNext :: nat
  phLat :: "nat list"
  phLanes :: "lane list"

text \<open>One of the eight reads: the readings of its two calls, and its draws.\<close>

record draw =
  drGet :: env
  drSet :: env
  drBand :: rat
  drPick :: rat

definition truncated :: "rat \<Rightarrow> nat \<Rightarrow> nat" where
  "truncated x n = nat \<lfloor>x * of_nat n\<rfloor>"

definition request_key :: "loadCfg \<Rightarrow> rat \<Rightarrow> rat \<Rightarrow> jsstr" where
  "request_key c r x =
     (if r < 1 / 2 then hotKey (truncated x (cHot c))
      else if r < 17 / 20 then coldKey (truncated x (cCold c))
      else sharedKey (truncated x (cShared c)))"

definition cache_get :: "(jsstr \<Rightarrow> hash option) \<Rightarrow> asCache \<Rightarrow> env \<Rightarrow> jsstr \<Rightarrow> proc \<Rightarrow> jsval answer \<times> proc" where
  "cache_get HK cache e key p =
     (case cache of Noop \<Rightarrow> (Inr VUndef, p) | Real n \<Rightarrow> get_at HK e (VStr key) NumUndef n p)"

text \<open>\<^verbatim>\<open>cache.set(k, makeVal(k, ver))\<close>; the boolean says that it threw.\<close>

definition cache_set :: "(jsstr \<Rightarrow> hash option) \<Rightarrow> asCache \<Rightarrow> env \<Rightarrow> jsstr \<Rightarrow> nat \<Rightarrow> proc \<Rightarrow> bool \<times> proc" where
  "cache_set HK cache e key ver p =
     (case cache of
        Noop \<Rightarrow> (makeVal key (int ver) = None, p)
      | Real n \<Rightarrow> (case set_made HK e n key ver p of (b, q) \<Rightarrow> (b = None, q)))"

definition read_one ::
    "(jsstr \<Rightarrow> hash option) \<Rightarrow> loadCfg \<Rightarrow> asCache \<Rightarrow> draw \<Rightarrow> phase \<times> proc \<Rightarrow> bool \<times> phase \<times> proc" where
  "read_one HK c cache d s =
     (let key = request_key c (drBand d) (drPick d); ph = fst s
      in case cache_get HK cache (drGet d) key (snd s) of
           (Inl _, p1) \<Rightarrow> (True, ph, p1)
         | (Inr v, p1) \<Rightarrow>
             (let ph1 = ph\<lparr>phOps := phOps ph + 1\<rparr>
              in if v \<noteq> VUndef
                 then (case verifyAsync key v of
                         Fine \<Rightarrow> (False, ph1, p1)
                       | Bad _ \<Rightarrow> (False, ph1\<lparr>phWrong := phWrong ph1 + 1\<rparr>, p1)
                       | Threw \<Rightarrow> (True, ph1, p1))
                 else if cache = Noop then (False, ph1, p1)
                 else (case cache_set HK cache (drSet d) key 1 p1 of (threw, p2) \<Rightarrow> (threw, ph1, p2))))"

fun read_all ::
    "(jsstr \<Rightarrow> hash option) \<Rightarrow> loadCfg \<Rightarrow> asCache \<Rightarrow> draw list \<Rightarrow> phase \<times> proc \<Rightarrow> bool \<times> phase \<times> proc" where
  "read_all HK c cache [] s = (False, s)"
| "read_all HK c cache (d # ds) s =
     (case read_one HK c cache d s of
        (True, s1) \<Rightarrow> (True, s1)
      | (False, s1) \<Rightarrow> read_all HK c cache ds s1)"

definition set_lane :: "nat \<Rightarrow> lane \<Rightarrow> phase \<Rightarrow> phase" where
  "set_lane i l ph = ph\<lparr>phLanes := (phLanes ph)[i := l]\<rparr>"

text \<open>The loop of a lane, when it starts and whenever a request has settled: \<open>goes\<close> is \<^verbatim>\<open>Date.now() < deadline\<close>.\<close>

definition lane_loop :: "bool \<Rightarrow> nat \<Rightarrow> phase \<Rightarrow> phase" where
  "lane_loop goes i ph =
     (if goes then set_lane i (Turn (phNext ph)) (ph\<lparr>phNext := phNext ph + 1\<rparr>) else set_lane i Over ph)"

text \<open>The immediate of request \<open>n\<close>: the eight reads. \<open>t\<close> is the latency of the first, kept of every sixteenth request.\<close>

definition on_turn ::
    "(jsstr \<Rightarrow> hash option) \<Rightarrow> loadCfg \<Rightarrow> asCache \<Rightarrow> draw list \<Rightarrow> nat \<Rightarrow> nat \<Rightarrow> nat \<Rightarrow> phase \<times> proc \<Rightarrow> phase \<times> proc" where
  "on_turn HK c cache ds t i n s =
     (case read_all HK c cache ds s of
        (threw, ph, p) \<Rightarrow>
          (set_lane i (if threw then Broken else Micro n)
             (if n mod 16 = 0 \<and> phOps ph > phOps (fst s) then ph\<lparr>phLat := phLat ph @ [t]\<rparr> else ph), p))"

text \<open>After the microtask: a write on every eighth request, then the counters.\<close>

definition eighth_write ::
    "(jsstr \<Rightarrow> hash option) \<Rightarrow> loadCfg \<Rightarrow> asCache \<Rightarrow> env \<Rightarrow> rat \<Rightarrow> nat \<Rightarrow> phase \<times> proc \<Rightarrow> bool \<times> phase \<times> proc" where
  "eighth_write HK c cache e x n s =
     (let key = (if n mod 16 = 0 then sharedKey (truncated x (cShared c)) else ownKey (cId c) (truncated x 1000));
          ph = (fst s)\<lparr>phVer := phVer (fst s) + 1\<rparr>
      in case cache_set HK cache e key (phVer ph) (snd s) of
           (threw, p) \<Rightarrow> (threw, if threw then ph else ph\<lparr>phOps := phOps ph + 1\<rparr>, p))"

definition on_micro ::
    "(jsstr \<Rightarrow> hash option) \<Rightarrow> loadCfg \<Rightarrow> asCache \<Rightarrow> env \<Rightarrow> rat \<Rightarrow> nat \<Rightarrow> nat \<Rightarrow> phase \<times> proc \<Rightarrow> phase \<times> proc" where
  "on_micro HK c cache e x i n s =
     (case (if n mod 8 = 0 then eighth_write HK c cache e x n s else (False, s)) of
        (threw, ph, p) \<Rightarrow>
          if threw then (set_lane i Broken ph, p)
          else (set_lane i Back (ph\<lparr>phSink := phSink ph + 24, phReqs := phReqs ph + 1\<rparr>), p))"

text \<open>Every lane runs up to its first immediate before any other part of a request does.\<close>

definition phase_idle :: "nat \<Rightarrow> phase" where
  "phase_idle conc =
     \<lparr>phOps = 0, phReqs = 0, phWrong = 0, phVer = 1, phSink = 0, phNext = 0, phLat = [], phLanes = replicate conc Over\<rparr>"

definition phase_start :: "bool list \<Rightarrow> phase" where
  "phase_start mores = fold (\<lambda>i. lane_loop (mores ! i) i) [0..<length mores] (phase_idle (length mores))"

inductive phase_step ::
    "(jsstr \<Rightarrow> hash option) \<Rightarrow> loadCfg \<Rightarrow> asCache \<Rightarrow> phase \<times> proc \<Rightarrow> phase \<times> proc \<Rightarrow> bool" for HK c cache where
  turn: "i < length (phLanes ph) \<Longrightarrow> phLanes ph ! i = Turn n \<Longrightarrow> length ds = 8 \<Longrightarrow>
    phase_step HK c cache (ph, p) (on_turn HK c cache ds t i n (ph, p))"
| micro: "i < length (phLanes ph) \<Longrightarrow> phLanes ph ! i = Micro n \<Longrightarrow>
    phase_step HK c cache (ph, p) (on_micro HK c cache e x i n (ph, p))"
| again: "i < length (phLanes ph) \<Longrightarrow> phLanes ph ! i = Back \<Longrightarrow>
    phase_step HK c cache (ph, p) (lane_loop goes i ph, p)"

text \<open>What a phase answers once its lanes are over, and the verdict of the primary on the rows it was sent.\<close>

record asRow =
  rwReqs :: nat
  rwOps :: nat
  rwWrong :: nat
  rwLat :: "nat list"

definition phase_row :: "phase \<Rightarrow> asRow" where
  "phase_row ph = \<lparr>rwReqs = phReqs ph, rwOps = phOps ph, rwWrong = phWrong ph, rwLat = sort (phLat ph)\<rparr>"

definition async_pass :: "asRow list \<Rightarrow> asRow list \<Rightarrow> rat \<Rightarrow> bool" where
  "async_pass baseline cached worstP99 \<longleftrightarrow>
     sum_list (List.map rwWrong cached) + sum_list (List.map rwWrong baseline) = 0 \<and> worstP99 < 50"

section \<open>What the counters count\<close>

text \<open>The numbers below \<open>k\<close> that eight divides.\<close>

definition eighths :: "nat \<Rightarrow> nat" where
  "eighths k = (k + 7) div 8"

lemma eighths_Suc: "eighths (Suc k) = eighths k + (if k mod 8 = 0 then 1 else 0)"
  unfolding eighths_def by presburger

fun in_flight :: "lane \<Rightarrow> nat" where
  "in_flight (Turn n) = 1" | "in_flight (Micro n) = 1" | "in_flight _ = 0"

fun to_write :: "lane \<Rightarrow> nat" where
  "to_write (Turn n) = (if n mod 8 = 0 then 1 else 0)" | "to_write (Micro n) = (if n mod 8 = 0 then 1 else 0)" | "to_write _ = 0"

fun has_read :: "lane \<Rightarrow> nat" where
  "has_read (Micro n) = 1" | "has_read _ = 0"

definition over :: "(lane \<Rightarrow> nat) \<Rightarrow> lane list \<Rightarrow> nat" where
  "over f ls = sum_list (List.map f ls)"

lemma over_update: "i < length ls \<Longrightarrow> over f (ls[i := l]) + f (ls ! i) = over f ls + f l"
  unfolding over_def by (induction ls arbitrary: i) (auto split: nat.split)

text \<open>Unless a request has been rejected, what is counted is what the requests that have settled did, and
  the reads of those that wait for their microtask.\<close>

definition accounts :: "phase \<Rightarrow> bool" where
  "accounts ph \<longleftrightarrow> Broken \<in> set (phLanes ph) \<or>
     phNext ph = phReqs ph + over in_flight (phLanes ph) \<and> eighths (phNext ph) + 1 = phVer ph + over to_write (phLanes ph) \<and>
     phOps ph + 1 = 8 * phReqs ph + 8 * over has_read (phLanes ph) + phVer ph \<and> phSink ph = 24 * phReqs ph"

lemma set_lane_fields [simp]:
  "phOps (set_lane i l ph) = phOps ph" "phReqs (set_lane i l ph) = phReqs ph" "phWrong (set_lane i l ph) = phWrong ph"
  "phVer (set_lane i l ph) = phVer ph" "phSink (set_lane i l ph) = phSink ph" "phNext (set_lane i l ph) = phNext ph"
  "phLanes (set_lane i l ph) = (phLanes ph)[i := l]"
  by (simp_all add: set_lane_def)

text \<open>One lane moves on: the account is kept when the counters change by what the lane's place changes by.\<close>

lemma accounts_moved:
  assumes "accounts ph" "i < length (phLanes ph)" "phLanes ph ! i = old" "old \<noteq> Broken" "phLanes ph' = (phLanes ph)[i := l]"
    and "l \<noteq> Broken \<Longrightarrow> phNext ph' + phReqs ph + in_flight old = phNext ph + phReqs ph' + in_flight l \<and>
      eighths (phNext ph') + phVer ph + to_write old = eighths (phNext ph) + phVer ph' + to_write l \<and>
      phOps ph' + 8 * phReqs ph + 8 * has_read old + phVer ph = phOps ph + 8 * phReqs ph' + 8 * has_read l + phVer ph' \<and>
      phSink ph' + 24 * phReqs ph = phSink ph + 24 * phReqs ph'"
  shows "accounts ph'"
proof (cases "Broken \<in> set (phLanes ph')")
  case False
  have "Broken \<in> set (phLanes ph')" if b: "Broken \<in> set (phLanes ph)"
  proof -
    obtain j where "j < length (phLanes ph)" "phLanes ph ! j = Broken" using b by (auto simp: in_set_conv_nth)
    then show ?thesis using assms(3-5) by (metis in_set_conv_nth length_list_update nth_list_update_neq)
  qed
  then have b: "Broken \<notin> set (phLanes ph)" using False by blast
  moreover have "l \<noteq> Broken" using False assms(2,5) set_update_memI by fastforce
  ultimately show ?thesis
    using assms(1,6) over_update [OF assms(2), of in_flight l] over_update [OF assms(2), of to_write l]
      over_update [OF assms(2), of has_read l]
    unfolding accounts_def assms(3,5) by linarith
qed (simp add: accounts_def)

lemma lane_loop_accounts:
  assumes "accounts ph" "i < length (phLanes ph)" "phLanes ph ! i = Back \<or> phLanes ph ! i = Over"
  shows "accounts (lane_loop goes i ph)"
  using assms by (intro accounts_moved [OF assms(1,2) refl, where l = "if goes then Turn (phNext ph) else Over"])
    (auto simp: lane_loop_def eighths_Suc)

lemma read_one_counts:
  assumes "read_one HK c cache d s = (threw, ph, p)"
  shows "ph = (fst s)\<lparr>phOps := phOps ph, phWrong := phWrong ph\<rparr> \<and> (threw \<or> phOps ph = phOps (fst s) + 1)"
  using assms by (auto simp: read_one_def Let_def split: prod.splits sum.splits verdict.splits if_splits)

lemma read_all_counts:
  "read_all HK c cache ds s = (threw, ph, p) \<Longrightarrow>
   ph = (fst s)\<lparr>phOps := phOps ph, phWrong := phWrong ph\<rparr> \<and> (threw \<or> phOps ph = phOps (fst s) + length ds)"
proof (induction ds arbitrary: s)
  case (Cons d ds)
  obtain t ph1 p1 where r: "read_one HK c cache d s = (t, ph1, p1)" by (rule prod_cases3)
  note one = read_one_counts [OF r]
  show ?case
  proof (cases t)
    case True
    then show ?thesis using Cons.prems r one by simp
  next
    case False
    then have "read_all HK c cache ds (ph1, p1) = (threw, ph, p)" using Cons.prems r by simp
    note Cons.IH [OF this]
    then show ?thesis using one False by (cases ph, cases ph1, cases "fst s") auto
  qed
qed simp

lemma on_turn_accounts:
  assumes "accounts ph" "i < length (phLanes ph)" "phLanes ph ! i = Turn n" "length ds = 8"
  shows "accounts (fst (on_turn HK c cache ds t i n (ph, p)))"
proof -
  obtain threw ph1 p1 where r: "read_all HK c cache ds (ph, p) = (threw, ph1, p1)" by (rule prod_cases3)
  have f: "phNext ph1 = phNext ph" "phReqs ph1 = phReqs ph" "phVer ph1 = phVer ph" "phSink ph1 = phSink ph" "phLanes ph1 = phLanes ph"
    "threw \<or> phOps ph1 = phOps ph + 8"
    using read_all_counts [OF r] assms(4) by (cases ph; cases ph1; auto)+
  then show ?thesis
    using r assms(3) by (intro accounts_moved [OF assms(1,2), where l = "if threw then Broken else Micro n"])
      (auto simp: on_turn_def)
qed

lemma on_micro_accounts:
  assumes "accounts ph" "i < length (phLanes ph)" "phLanes ph ! i = Micro n"
  shows "accounts (fst (on_micro HK c cache e x i n (ph, p)))"
proof -
  obtain threw ph1 p1 where w: "(if n mod 8 = 0 then eighth_write HK c cache e x n (ph, p) else (False, ph, p)) = (threw, ph1, p1)"
    by (rule prod_cases3)
  have f: "phNext ph1 = phNext ph" "phReqs ph1 = phReqs ph" "phSink ph1 = phSink ph" "phLanes ph1 = phLanes ph"
    "threw \<or> phVer ph1 = phVer ph + (if n mod 8 = 0 then 1 else 0) \<and> phOps ph1 = phOps ph + (if n mod 8 = 0 then 1 else 0)"
    using w by (auto simp: eighth_write_def Let_def split: if_splits prod.splits)
  then show ?thesis
    using w assms(3) by (intro accounts_moved [OF assms(1,2), where l = "if threw then Broken else Back"])
      (auto simp: on_micro_def)
qed

lemma phase_step_accounts: "phase_step HK c cache s t \<Longrightarrow> accounts (fst s) \<Longrightarrow> accounts (fst t)"
  by (induction rule: phase_step.induct) (simp_all add: on_turn_accounts on_micro_accounts lane_loop_accounts)

lemma phase_start_accounts: "accounts (phase_start mores)"
proof -
  have "k \<le> length mores \<Longrightarrow>
    (let ph = fold (\<lambda>i. lane_loop (mores ! i) i) [0..<k] (phase_idle (length mores))
     in accounts ph \<and> length (phLanes ph) = length mores \<and> (\<forall>j. k \<le> j \<and> j < length mores \<longrightarrow> phLanes ph ! j = Over))" for k
  proof (induction k)
    case 0
    have "over f (replicate k Over) = k * f Over" for f k by (induction k) (simp_all add: over_def)
    then show ?case by (simp add: phase_idle_def accounts_def eighths_def)
  next
    case (Suc k)
    then show ?case
      by (auto simp: Let_def lane_loop_accounts) (simp_all add: lane_loop_def)
  qed
  from this [of "length mores"] show ?thesis by (simp add: phase_start_def Let_def)
qed

section \<open>What the reads answer\<close>

lemma calls_pure: "calls HK n p q \<Longrightarrow> pure_on loadG {n} p \<Longrightarrow> pure_on loadG {n} q"
  by (induction rule: rtranclp_induct) (auto dest: object_step_keeps [OF _ loadG_stored] simp: keeps_def)

lemma pure_truthful: "pure_on loadG {n} p \<Longrightarrow> truthful HK n p"
  using get_at_pure [of loadG "{n}" p n HK] unfolding truthful_def by blast

lemma request_band: "bandKey (request_key c r x)"
  by (simp add: request_key_def)

lemma truthful_async:
  "truthful HK n p \<Longrightarrow> bandKey key \<Longrightarrow> get_at HK e (VStr key) lv n p = (Inr v, q) \<Longrightarrow> v \<noteq> VUndef \<Longrightarrow> verifyAsync key v = Fine"
  using truthful_fine [of HK n p key e lv v q] verifyAsync_fine [of key]
  by (cases v) (auto simp: verifyText_def)

lemma read_one_calls:
  assumes "pure_on loadG {n} p" "read_one HK c (Real n) d (ph, p) = (threw, ph', q)"
  shows "phWrong ph' = phWrong ph \<and> calls HK n p q"
proof -
  let ?key = "request_key c (drBand d) (drPick d)"
  obtain v p1 where g: "get_at HK (drGet d) (VStr ?key) NumUndef n p = (v, p1)" by force
  note 1 = get_calls [OF g]
  have 2: "calls HK n p r" if "set_made HK (drSet d) n ?key 1 p1 = (b, r)" for b r
    using 1 set_calls [OF request_band that] by simp
  have 3: "verifyAsync ?key x = Fine" if "v = Inr x" "x \<noteq> VUndef" for x
    using truthful_async [OF pure_truthful [OF assms(1)] request_band] g that by blast
  show ?thesis
    using assms(2) g 1 2 3
    by (auto simp: read_one_def cache_get_def cache_set_def Let_def split: sum.splits prod.splits if_splits)
qed

lemma read_all_calls:
  "pure_on loadG {n} p \<Longrightarrow> read_all HK c (Real n) ds (ph, p) = (threw, ph', q) \<Longrightarrow> phWrong ph' = phWrong ph \<and> calls HK n p q"
proof (induction ds arbitrary: ph p)
  case (Cons d ds)
  obtain t ph1 p1 where r: "read_one HK c (Real n) d (ph, p) = (t, ph1, p1)" by (rule prod_cases3)
  note one = read_one_calls [OF Cons.prems(1) r]
  then have "pure_on loadG {n} p1" using calls_pure Cons.prems(1) by blast
  note Cons.IH [OF this]
  then show ?case using Cons.prems(2) r one by (cases t) (auto intro: rtranclp_trans)
qed simp

lemma phase_step_calls:
  assumes "phase_step HK c (Real n) (ph, p) (ph', q)" "pure_on loadG {n} p"
  shows "phWrong ph' = phWrong ph \<and> calls HK n p q"
  using assms(1)
proof (cases rule: phase_step.cases)
  case (turn i m ds t)
  obtain threw ph1 p1 where r: "read_all HK c (Real n) ds (ph, p) = (threw, ph1, p1)" by (rule prod_cases3)
  show ?thesis using turn(1) r read_all_calls [OF assms(2) r] by (auto simp: on_turn_def)
next
  case (micro i m e x)
  have "calls HK n p r" if "set_made HK e n (if b then sharedKey k else ownKey l k') ver p = (y, r)" for b k l k' ver y r
    using set_calls [OF _ that] by simp
  then show ?thesis
    using micro(1) by (auto simp: on_micro_def eighth_write_def cache_set_def Let_def split: prod.splits if_splits)
next
  case (again i goes)
  then show ?thesis by (auto simp: lane_loop_def)
qed

lemma noop_step: "phase_step HK c Noop (ph, p) (ph', q) \<Longrightarrow> phWrong ph' = phWrong ph"
proof -
  have o: "read_one HK c Noop d s = (t, ph1, p1) \<Longrightarrow> phWrong ph1 = phWrong (fst s)" for d s t ph1 p1
    by (auto simp: read_one_def cache_get_def Let_def)
  have a: "read_all HK c Noop ds s = (t, ph1, p1) \<Longrightarrow> phWrong ph1 = phWrong (fst s)" for ds s t ph1 p1
  proof (induction ds arbitrary: s)
    case (Cons d ds)
    obtain t2 ph2 p2 where "read_one HK c Noop d s = (t2, ph2, p2)" by (rule prod_cases3)
    then show ?case using Cons.prems Cons.IH [of "(ph2, p2)"] o by (cases t2) auto
  qed simp
  assume "phase_step HK c Noop (ph, p) (ph', q)"
  then show ?thesis
  proof (cases rule: phase_step.cases)
    case (turn i m ds t)
    obtain threw ph1 p1 where "read_all HK c Noop ds (ph, p) = (threw, ph1, p1)" by (rule prod_cases3)
    then show ?thesis using turn(1) a by (auto simp: on_turn_def)
  qed (auto simp: on_micro_def eighth_write_def lane_loop_def Let_def split: prod.splits if_splits)
qed

section \<open>The run\<close>

inductive async_move :: "(jsstr \<Rightarrow> hash option) \<Rightarrow> cluster \<times> (nat \<Rightarrow> phase) \<Rightarrow> cluster \<times> (nat \<Rightarrow> phase) \<Rightarrow> bool" for HK where
  begins: "set (phLanes (fs k)) \<subseteq> {Over} \<Longrightarrow> async_move HK (u, fs) (u, fs(k := phase_start mores))"
| baseline: "phase_step HK c Noop (fs k, p) (ph', p') \<Longrightarrow> async_move HK (u, fs) (u, fs(k := ph'))"
| cached: "running u k x p \<Longrightarrow> map_of (yInsts p) n \<noteq> None \<Longrightarrow> phase_step HK c (Real n) (fs k, p) (ph', q) \<Longrightarrow>
    async_move HK (u, fs) (act k q u, fs(k := ph'))"
| other: "cluster_step loadG HK k u u' \<Longrightarrow> async_move HK (u, fs) (u', fs)"

lemma phase_start_wrong: "phWrong (phase_start mores) = 0"
proof -
  have "phWrong (fold (\<lambda>i. lane_loop (mores ! i) i) is ph) = phWrong ph" for "is" ph
    by (induction "is" arbitrary: ph) (simp_all add: lane_loop_def)
  then show ?thesis by (simp add: phase_start_def phase_idle_def)
qed

definition tallied :: "phase \<Rightarrow> bool" where
  "tallied ph \<longleftrightarrow> accounts ph \<and> phWrong ph = 0"

lemma async_move_ok:
  assumes "async_move HK s t" "cluster_reach loadG HK (fst s)" "tallied (snd s k)"
  shows "cluster_reach loadG HK (fst t) \<and> tallied (snd t k)"
  using assms
proof (induction rule: async_move.induct)
  case (begins fs j u mores)
  then show ?case by (auto simp: tallied_def phase_start_accounts phase_start_wrong)
next
  case (baseline c fs j p ph' p' u)
  then show ?case
    using phase_step_accounts [OF baseline.hyps] noop_step [OF baseline.hyps] by (auto simp: tallied_def)
next
  case (cached u j x p n c fs ph' q)
  have u: "cluster_reach loadG HK u" using cached.prems(1) by simp
  have "pure_on loadG {n} p"
    using reach_pure [OF u loadG_stored] cached.hyps(1,2) by (auto simp: running_def pure_on_def)
  note s = phase_step_calls [OF cached.hyps(3) this]
  have "cluster_reach loadG HK (act j q u)" using calls_reach [OF _ u cached.hyps(1,2)] s by blast
  then show ?case
    using cached.prems(2) s phase_step_accounts [OF cached.hyps(3)] by (auto simp: tallied_def)
qed (auto intro: cluster_reach_step)

lemma over_Over: "set ls \<subseteq> {Over} \<Longrightarrow> f Over = 0 \<Longrightarrow> over f ls = 0"
  by (induction ls) (simp_all add: over_def)

text \<open>C37: however the lanes of a worker of the asynchronous test interleave with each other, with its other phase,
  with the other workers and with everything else that happens in the cluster, a phase whose lanes have all
  come to their end without a rejected request has settled every request it began, has counted eight
  reads for each and one write for every eighth, against the cache as against the stand-in, and has
  counted no wrong value, as long as only the values of \<open>makeVal\<close> are written under its keys.\<close>

theorem async_phase_accounts:
  assumes "(async_move HK)\<^sup>*\<^sup>* (u, fs) (u', fs')" "cluster_reach loadG HK u" "fs k = phase_start mores"
    and "set (phLanes (fs' k)) \<subseteq> {Over}"
  shows "rwReqs (phase_row (fs' k)) = phNext (fs' k) \<and>
    rwOps (phase_row (fs' k)) = 8 * rwReqs (phase_row (fs' k)) + (rwReqs (phase_row (fs' k)) + 7) div 8 \<and>
    rwWrong (phase_row (fs' k)) = 0"
proof -
  have start: "tallied (fs k)" using assms(3) by (simp add: tallied_def phase_start_accounts phase_start_wrong)
  have "cluster_reach loadG HK (fst s) \<and> tallied (snd s k)" if "(async_move HK)\<^sup>*\<^sup>* (u, fs) s" for s
    using that by (induction rule: rtranclp_induct) (auto simp: start assms(2) dest: async_move_ok [where k = k])
  from this [OF assms(1)] have "accounts (fs' k)" "phWrong (fs' k) = 0" by (simp_all add: tallied_def)
  moreover have "over f (phLanes (fs' k)) = 0" if "f Over = 0" for f using assms(4) that by (rule over_Over)
  moreover have "Broken \<notin> set (phLanes (fs' k))" using assms(4) by auto
  ultimately show ?thesis by (auto simp: accounts_def phase_row_def eighths_def)
qed

text \<open>One lane, one request, against the stand-in.\<close>

definition xDraw :: draw where
  "xDraw = \<lparr>drGet = xEnv, drSet = xEnv, drBand = 1 / 4, drPick = 1 / 3\<rparr>"

definition xPhase :: "nat \<Rightarrow> lane \<Rightarrow> nat \<Rightarrow> nat \<Rightarrow> phase" where
  "xPhase ops l reqs ver =
     \<lparr>phOps = ops, phReqs = reqs, phWrong = 0, phVer = ver, phSink = 24 * reqs, phNext = 1,
      phLat = (if ops = 0 then [] else [100]), phLanes = [l]\<rparr>"

lemma xPhase_steps:
  "phase_start [True] = xPhase 0 (Turn 0) 0 1"
  "on_turn HK c Noop [xDraw, xDraw, xDraw, xDraw, xDraw, xDraw, xDraw, xDraw] 100 0 0 (xPhase 0 (Turn 0) 0 1, p) =
     (xPhase 8 (Micro 0) 0 1, p)"
  "on_micro HK c Noop e x 0 0 (xPhase 8 (Micro 0) 0 1, p) = (xPhase 9 Back 1 2, p)"
  "lane_loop False 0 (xPhase 9 Back 1 2) = xPhase 9 Over 1 2"
  by (simp_all add: xPhase_def phase_start_def phase_idle_def lane_loop_def set_lane_def on_turn_def read_one_def
      cache_get_def on_micro_def eighth_write_def cache_set_def makeVal_def filler_def Let_def)

theorem async_phase_accounts_witness:
  "rwOps (phase_row (xPhase 9 Over 1 2)) = 9 \<and> rwReqs (phase_row (xPhase 9 Over 1 2)) = 1 \<and>
   rwWrong (phase_row (xPhase 9 Over 1 2)) = 0"
proof -
  let ?u = "xTeam [0 \<mapsto> (0, xPrimary), 1 \<mapsto> (0, xMember 1)]" and ?m = "async_move xHK"
  let ?fs = "\<lambda>l ops reqs ver. (\<lambda>_. phase_start [True])(1 := xPhase ops l reqs ver)"
  have u: "cluster_reach loadG xHK ?u" using team_worker [OF team_primary, where k = 1 and G = loadG] by simp
  have s: "phase_step HK c Noop (xPhase 0 (Turn 0) 0 1, p) (xPhase 8 (Micro 0) 0 1, p)"
    "phase_step HK c Noop (xPhase 8 (Micro 0) 0 1, p) (xPhase 9 Back 1 2, p)"
    "phase_step HK c Noop (xPhase 9 Back 1 2, p) (xPhase 9 Over 1 2, p)" for HK c p
    using phase_step.turn [of 0 "xPhase 0 (Turn 0) 0 1" 0 "[xDraw, xDraw, xDraw, xDraw, xDraw, xDraw, xDraw, xDraw]" HK c Noop p 100]
      phase_step.micro [of 0 "xPhase 8 (Micro 0) 0 1" 0 HK c Noop p]
      phase_step.again [of 0 "xPhase 9 Back 1 2" HK c Noop p False]
    unfolding xPhase_steps by (simp_all add: xPhase_def)
  have m: "?m (?u, ?fs l ops reqs ver) (?u, ?fs l' ops' reqs' ver')"
    if "\<And>c p. phase_step xHK c Noop (xPhase ops l reqs ver, p) (xPhase ops' l' reqs' ver', p)" for l ops reqs ver l' ops' reqs' ver'
  proof -
    have "phase_step xHK c Noop (?fs l ops reqs ver 1, p) (xPhase ops' l' reqs' ver', p)" for c p using that by simp
    from async_move.baseline [where fs = "?fs l ops reqs ver" and k = 1 and u = ?u, OF this] show ?thesis by simp
  qed
  have "?m\<^sup>*\<^sup>* (?u, ?fs (Turn 0) 0 0 1) (?u, ?fs Over 9 1 2)"
    using m [OF s(1)] m [OF s(2)] m [OF s(3)] by (meson rtranclp.rtrancl_into_rtrancl rtranclp.rtrancl_refl)
  from async_phase_accounts [OF this u, of 1 "[True]"] show ?thesis
    by (simp add: xPhase_steps) (simp add: xPhase_def phase_row_def)
qed

end
