(* ===== verification/LoadReport.thy ===== *)
theory LoadReport
  imports AsyncTest
begin

text \<open>
  The two ends of the load tests: the primary fills the bands before it forks (\<^verbatim>\<open>src/loadtest/load.js\<close> line 129,
  \<^verbatim>\<open>src/loadtest/async.js\<close> lines 72 to 74), a worker of \<^verbatim>\<open>load.js\<close> works in batches and sends its counters after
  each (lines 371 to 382), the primary keeps the last of each worker and comes to its verdict (lines 137, 172
  and 306). That of \<^verbatim>\<open>async.js\<close> waits for the rows of all its workers (lines 80 to 85). The memory and processor
  figures of the reports enter as the series of samples.
\<close>

section \<open>Filling the bands\<close>

text \<open>The loop ends at the first \<^verbatim>\<open>set\<close> that throws; the boolean says that it did.\<close>

fun seed :: "(jsstr \<Rightarrow> hash option) \<Rightarrow> nat \<Rightarrow> (jsstr \<times> env) list \<Rightarrow> proc \<Rightarrow> bool \<times> proc" where
  "seed HK n [] p = (False, p)"
| "seed HK n ((key, e) # ks) p =
     (case set_made HK e n key 1 p of
        (None, q) \<Rightarrow> (True, q)
      | (Some _, q) \<Rightarrow> seed HK n ks q)"

definition cold_band :: "nat \<Rightarrow> jsstr list" where
  "cold_band cold = List.map coldKey [0..<cold]"

definition async_bands :: "nat \<Rightarrow> nat \<Rightarrow> nat \<Rightarrow> jsstr list" where
  "async_bands cold hot shared = cold_band cold @ List.map hotKey [0..<hot] @ List.map sharedKey [0..<shared]"

lemma bands_are_bands: "key \<in> set (cold_band c) \<Longrightarrow> bandKey key" "key \<in> set (async_bands c h s) \<Longrightarrow> bandKey key"
  by (auto simp: cold_band_def async_bands_def)

lemma seed_calls: "\<forall>x\<in>set ks. bandKey (fst x) \<Longrightarrow> seed HK n ks p = (threw, q) \<Longrightarrow> calls HK n p q"
proof (induction HK n ks p rule: seed.induct)
  case (2 HK n key e ks p)
  obtain x r where s: "set_made HK e n key 1 p = (x, r)" by force
  have "calls HK n p r" using set_calls [OF _ s] "2.prems"(1) by simp
  then show ?case using "2" s by (cases x) (auto intro: rtranclp_trans)
qed simp

text \<open>A primary that has filled its bands is in a state the theorems of the runs start from.\<close>

lemma seeded_reach:
  assumes "cluster_reach loadG HK u" "running u k x p" "map_of (yInsts p) n \<noteq> None"
    and "List.map fst ks = cold_band c \<or> List.map fst ks = async_bands c h s" "seed HK n ks p = (threw, q)"
  shows "cluster_reach loadG HK (act k q u)"
proof -
  have "\<forall>y\<in>set ks. bandKey (fst y)" using assms(4) bands_are_bands by (metis image_eqI list.set_map)
  from calls_reach [OF seed_calls [OF this assms(5)] assms(1-3)] show ?thesis by simp
qed

section \<open>The batches of a worker\<close>

definition load_steps ::
    "(jsstr \<Rightarrow> hash option) \<Rightarrow> loadCfg \<Rightarrow> nat \<Rightarrow> (env \<times> env) list \<Rightarrow> loadWorker \<times> proc \<Rightarrow> loadWorker \<times> proc" where
  "load_steps HK c n es = fold (\<lambda>(e, e') (w, p). load_step HK c n e e' w p) es"

definition load_batch ::
    "(jsstr \<Rightarrow> hash option) \<Rightarrow> loadCfg \<Rightarrow> nat \<Rightarrow> (nat \<Rightarrow> env \<times> env) \<Rightarrow> env \<Rightarrow> loadWorker \<times> proc \<Rightarrow> loadWorker \<times> proc" where
  "load_batch HK c n es e s = (case load_steps HK c n (List.map es [0..<4000]) s of (w, p) \<Rightarrow> (w, flush_at e n p))"

lemma load_steps_calls:
  "pure_on loadG {n} p \<Longrightarrow> load_steps HK c n es (w, p) = (w', q) \<Longrightarrow> wWrong w' = wWrong w \<and> calls HK n p q"
proof (induction es arbitrary: w p)
  case (Cons x es)
  obtain w1 p1 where s: "load_step HK c n (fst x) (snd x) w p = (w1, p1)" by force
  note one = load_step_calls [OF pure_truthful [OF Cons.prems(1)] s]
  then have "pure_on loadG {n} p1" using calls_pure Cons.prems(1) by blast
  from Cons.IH [OF this, of w1] show ?case
    using Cons.prems(2) s one by (auto simp: load_steps_def split_beta intro: rtranclp_trans)
qed (simp add: load_steps_def)

lemma load_batch_calls:
  assumes "pure_on loadG {n} p" "load_batch HK c n es e (w, p) = (w', q)"
  shows "wWrong w' = wWrong w \<and> calls HK n p q"
proof -
  obtain p1 where s: "load_steps HK c n (List.map es [0..<4000]) (w, p) = (w', p1)" "q = flush_at e n p1"
    using assms(2) by (auto simp: load_batch_def split: prod.splits)
  have "object_step loadG HK n p1 q" unfolding s(2) by (rule object_step.flush)
  then show ?thesis using load_steps_calls [OF assms(1) s(1)] by (auto intro: rtranclp.rtrancl_into_rtrancl)
qed

section \<open>The reports\<close>

type_synonym reports = "(nat, loadWorker) jsmap"

definition on_stat :: "nat \<times> loadWorker \<Rightarrow> reports \<Rightarrow> reports" where
  "on_stat m agg = AList.update (fst m) (snd m) agg"

definition stat_sum :: "(loadWorker \<Rightarrow> nat) \<Rightarrow> reports \<Rightarrow> nat" where
  "stat_sum k agg = sum_list (List.map (k \<circ> snd) agg)"

definition run_verdict :: "reports \<Rightarrow> rat \<Rightarrow> sample list \<Rightarrow> bool" where
  "run_verdict agg minutes series = load_pass (stat_sum wWrong agg) (stat_sum wErr agg) (warmed minutes series)"

text \<open>What is kept of a worker is the last it has sent, so it is counted once.\<close>

lemma reports_are_the_last: "map_of (fold on_stat ms []) k = map_of (rev ms) k"
proof (induction ms rule: rev_induct)
  case (snoc m ms)
  then show ?case by (cases m) (auto simp: on_stat_def)
qed simp

lemma reports_distinct: "wf_map (fold on_stat ms [])"
  by (induction ms rule: rev_induct) (simp_all add: on_stat_def)

lemma stat_sum_zero: "stat_sum k agg = 0 \<longleftrightarrow> (\<forall>x\<in>set agg. k (snd x) = 0)"
  by (auto simp: stat_sum_def)

lemma passed_means:
  "run_verdict agg minutes series \<longleftrightarrow>
     (\<forall>x\<in>set agg. wWrong (snd x) = 0 \<and> wErr (snd x) = 0) \<and> \<not> leaking (warmed minutes series)"
  by (auto simp: run_verdict_def load_pass_def stat_sum_zero)

text \<open>A run of which nothing was reported passes.\<close>

lemma silent_run_passes: "run_verdict [] minutes []"
  by (simp add: passed_means warmed_def leaking_def)

text \<open>When every report is the state of a worker at some moment of the run, only errors and memory decide.\<close>

lemma verdict_is_errors_and_memory:
  assumes "\<And>k w. (k, w) \<in> set ms \<Longrightarrow> \<exists>s. (load_move HK)\<^sup>*\<^sup>* (u, ws) s \<and> w = snd s k" "cluster_reach loadG HK u"
    and "\<And>k. wWrong (ws k) = 0"
  shows "run_verdict (fold on_stat ms []) minutes series \<longleftrightarrow>
    stat_sum wErr (fold on_stat ms []) = 0 \<and> \<not> leaking (warmed minutes series)"
proof -
  have "wWrong (snd x) = 0" if "x \<in> set (fold on_stat ms [])" for x
  proof -
    have "map_of (rev ms) (fst x) = Some (snd x)"
      using that reports_distinct [of ms] reports_are_the_last [of ms "fst x"] by (metis map_of_is_SomeI prod.collapse)
    then have "(fst x, snd x) \<in> set ms" by (metis map_of_SomeD set_rev)
    from assms(1) [OF this] obtain s where "(load_move HK)\<^sup>*\<^sup>* (u, ws) s" "snd x = snd s (fst x)" by blast
    then show ?thesis using load_moves_wrong [OF _ assms(2)] assms(3) by metis
  qed
  then show ?thesis by (auto simp: passed_means stat_sum_zero)
qed

section \<open>The rows of the asynchronous test\<close>

type_synonym rows = "(asRow \<times> asRow) list"

text \<open>The rows so far and the next message; the boolean says that this is when the primary reports.\<close>

definition on_phases :: "nat \<Rightarrow> asRow \<times> asRow \<Rightarrow> rows \<Rightarrow> rows \<times> bool" where
  "on_phases workers m got = (let got' = got @ [m] in (got', length got' = workers))"

fun reports_of :: "nat \<Rightarrow> rows \<Rightarrow> rows \<Rightarrow> rows list" where
  "reports_of workers got [] = []"
| "reports_of workers got (m # ms) =
     (case on_phases workers m got of (got', now) \<Rightarrow> (if now then [got'] else []) @ reports_of workers got' ms)"

text \<open>It reports once, on the rows of the first \<open>workers\<close> messages, and never while one worker keeps silent.\<close>

lemma reports_when_all_have:
  "reports_of workers got ms =
     (if length got < workers \<and> workers \<le> length got + length ms then [take workers (got @ ms)] else [])"
  by (induction workers got ms rule: reports_of.induct) (auto simp: on_phases_def Let_def)

end
