(* ===== verification/Spec2Isabelle.thy ===== *)
theory Spec2Isabelle
  imports FastPath GcPace L3QueueProps Promotion Open Freeze Deadlines Siblings Ledger LoadReport
begin

text \<open>
  A model of turbokv, a cache for the processes of one machine: a tier in each process (L1), an arena
  in shared memory (L2) that one process, the primary, writes and every other process, a worker, maps
  read-only, and an optional store behind an adapter (L3). The JavaScript is in
  \<^verbatim>\<open>src/src/turbokv.js\<close>, \<^verbatim>\<open>src/src/l3/queue.js\<close>, \<^verbatim>\<open>src/src/l3/adapter.js\<close> and \<^verbatim>\<open>src/src/fastpath.js\<close>; the
  arena is a C++ addon. \<^verbatim>\<open>src/loadtest/load.js\<close> and \<^verbatim>\<open>src/loadtest/async.js\<close> are its load tests.

  \<^bold>\<open>How the parts interact.\<close> A worker's write goes to its own tier and to the primary, through a
  submission ring in shared memory or in batches over the channel of the process. The primary applies
  it to the arena, and each change appends a record, the hash of the key and the writer, to the
  invalidation ring. Every process drains that ring before it reads, drops what the records concern
  from its tier, and keeps marks of what it has itself written or removed and not yet seen applied.
  Reads that miss both tiers go to L3; what comes back is placed only if nothing that concerns the key
  happened since the read began. Writes to L3 go through a queue with one chain per key and a barrier
  for a clear. A worker whose primary's heartbeat stops degrades to its own tier and polls until it can
  map the arena again.

  \<^bold>\<open>The theories\<close>, from the bottom. Definitions keep the names of the code.
  \<^item> \<open>Prelude\<close>: a JavaScript Map as an association list, bounded maps, and the locales
    \<open>step_invariant\<close> and \<open>strengthened_invariant\<close> of step relations, interpreted for the queue
    (\<open>lq\<close>, \<open>lo\<close>), the processes (\<open>pr\<close>, \<open>pc\<close>), the timers (\<open>wt\<close>) and the cluster (\<open>cl\<close>, \<open>wr\<close>).
  \<^item> \<open>JsText\<close>, \<open>FastPath\<close>, \<open>GcPace\<close>, \<open>Options\<close>: UTF-16 text and stored values; the scanner of a codec's source;
    the debounce of the heap guard; option checks, levels, times to live. Their lemmas: what is accepted, and
    bounds and equivalences of the pure functions.
  \<^item> \<open>Marks\<close>, \<open>L1\<close>, \<open>L1Index\<close>: the class \<^verbatim>\<open>PendingMarks\<close> (record \<open>pendingMarks\<close>), the tier with its retained
    iterator, hash index and byte counter (record \<open>l1State\<close>). Their lemmas: well-formedness under every operation,
    exact accounting, completeness of the index. The locale \<open>pending_set\<close> is what a sweep of the marks relies on.
  \<^item> \<open>Arena\<close>: what the cache uses of the addon (record \<open>arena\<close>), and \<open>arena_step\<close>, the changes any process can make
    to it. The locale \<open>change_log\<close>, interpreted as \<open>al\<close>, states the contract the readers rely on: what changed for
    a key between two moments is explained by a record between them.
  \<^item> \<open>L3Queue\<close>, \<open>L3QueueInv\<close>, \<open>L3QueueOrder\<close>, \<open>L3QueueProps\<close>: class \<^verbatim>\<open>L3Queue\<close> as the relation \<open>queue_step\<close>, one step for each
    resumption of its asynchronous chains; the accounting invariant, the order in which the adapter sees the
    operations, the properties.
  \<^item> \<open>Deadlines\<close>: the races of a promise and a timer and the registry of the timers that keep the process alive.
  \<^item> \<open>Inst\<close>, \<open>Caps\<close>, \<open>Cache\<close>, \<open>Process\<close>, \<open>Lifecycle\<close>, \<open>Primary\<close>, \<open>Write\<close>, \<open>Promote\<close>, \<open>Upkeep\<close>, \<open>Open\<close>: the class \<^verbatim>\<open>TurboKV\<close>. An \<open>inst\<close> is one object
    (its private fields by purpose: configuration, tier, coherence, liveness, link, caps, queue); a \<open>proc\<close> is one
    process (its objects, the arena it maps, the static fields). Where no arena is mapped (\<open>\<not> yReady\<close>) a call of the
    addon finds nothing and changes nothing (\<open>mapped\<close>). Reading and draining; batching and publishing;
    degradation and recovery; the primary's work; \<open>set\<close>, \<open>delete\<close>, \<open>clearAll\<close>; \<open>getAsync\<close> and the guard of a promotion;
    closing and enumeration; opening.
  \<^item> \<open>Freeze\<close>: \<open>deepFreeze\<close> on a heap of objects.
  \<^item> \<open>Coherence\<close>, \<open>ProcInv\<close>, \<open>ProcOps\<close>, \<open>ProcStep\<close>, \<open>Moves\<close>, \<open>CohRun\<close>: \<open>proc_step\<close> has one rule for each call, event or timer of a process;
    its states keep \<open>proc_ok\<close> (bounds and counters of every object), its steps move the arena only by recorded
    steps, and workers stay \<open>coherent\<close> with the arena.
  \<^item> \<open>Refine\<close>: the abstract specification of the primary. Entries are a map; a batch is its operations, in order,
    after all that the rings held; \<open>applyBatch\<close> implements it.
  \<^item> \<open>Examples\<close>, \<open>Reads\<close>, \<open>Promotion\<close>, \<open>Trips\<close>, \<open>Siblings\<close>, \<open>Service\<close>: the concrete setting of the witnesses, and the properties that span
    the parts of a process: what a read can answer, what a promotion can put back, round trips, refused writes, the objects of a process of which one is closed,
    releasing a worker, shedding, enumeration.
  \<^item> \<open>ReadOnly\<close>, \<open>Integrity\<close>, \<open>Provenance\<close>: two relations between a process before and after an operation, kept by every
    operation: a worker's leaves the contents of the arena (\<open>aside\<close>), and what a process holds stays within a
    given \<open>provenance\<close> of values (\<open>keeps\<close>).
  \<^item> \<open>Cluster\<close>, \<open>ClusterExample\<close>, \<open>ClusterProps\<close>, \<open>Ledger\<close>, \<open>Written\<close>: several processes as one relation \<open>cluster_step\<close>. A worker's
    batches wait on its channel in the order of sending; processes fork, crash, recover onto another arena.
    Each process of a reachable cluster is one that it reaches on its own, so the properties of a process hold
    in the cluster; single writer, exactly-once delivery, what another process sees of a write, the account of
    clear generations, and that only written values are read.
  \<^item> \<open>LoadText\<close>, \<open>LoadTest\<close>, \<open>LoadRun\<close>, \<open>LeakVerdict\<close>: the values of the load tests and their check, a worker of \<^verbatim>\<open>load.js\<close>
    over the cluster, whose count of wrong values stays zero, and the verdict on the memory of a run.
  \<^item> \<open>AsyncTest\<close>, \<open>LoadReport\<close>: a worker of \<^verbatim>\<open>async.js\<close>. Its requests are lanes that interleave at their awaits with
    each other and with the cluster; the account of its counters. The seeding, the batches, the reports to the
    primary and what its verdicts mean.

  \<^bold>\<open>How effects are modelled.\<close> The state is passed explicitly. An asynchronous function is split where it awaits:
  \<open>getAsync\<close> starts the read and \<open>getAsync_done\<close> takes the reply, and \<open>proc_step\<close> orders the parts freely. What a call
  reads from outside (clocks, the age of the heartbeat, room in a ring, the outcome of a send) is the
  record \<open>env\<close>; a codec is a pair of partial functions; the hash of a key is the parameter \<open>HK\<close>, \<open>None\<close> where the
  addon refuses the key. Two properties assume that the keys in use have different hashes (\<open>inj_hash\<close>): a
  worker can only drop what a record names by hash. Errors are values: \<open>callError\<close> and \<open>openError\<close> on the left of a
  sum, \<open>None\<close> of a codec, the option of a bounded recursion. Time is rational milliseconds. Integers of
  JavaScript that are only counted are \<open>nat\<close> or \<open>int\<close>; text is a list of 16-bit words.

  \<^bold>\<open>Bounds of loops.\<close> The rounds of \<open>primaryInvalidate\<close> (64), of \<open>drain_until_empty\<close> (512 of 8192 records), of the walk
  over the ring (64 of 1024), the slice of a reconciliation and the second chances of an eviction are the
  code's own; what is left over at the bound is what the code leaves over. \<open>deepFreeze\<close> is bounded by the
  frames of the stack, and one more than the open objects in reach is proved to be enough. Every other
  recursion is structural or has a measure.

  \<^bold>\<open>Not modelled.\<close> The addon below its entries: layout, probing, the seqlock, eviction inside the arena,
  compression. Texts of errors, listeners, getters, test hooks, the loader of the addon. The two
  built-in codecs, which are the runtime's. A process's crash between two statements of one call.
  Of the load tests the printing, the probing of the modes by the primary, the monitors of the event loop and
  of garbage collection, and \<^verbatim>\<open>async.js\<close> with objects as values. Benchmarks and build scripts: they time the
  operations and print. The addon evicts from the tail of a circular log, with second chances; here an
  eviction is a step that removes any key. A worker's writes through its submission ring and those of its
  batches are two orders, which the primary merges as \<open>applyBatch\<close> says.
\<close>

end
